(* ===== verification/Raft_Prelude.thy ===== *)
theory Raft_Prelude
  imports Main "HOL-Library.Word"
begin

unbundle bit_operations_syntax

text \<open>
  Shared vocabulary of the development: C integers of the target, the result type in which
  every operation of the library runs, and the part of Contiki the sources call.

  \<^bold>\<open>Integers.\<close> The application stores an \<^verbatim>\<open>int\<close> in a two-byte buffer
  (\<^verbatim>\<open>app/main.c\<close>, \<^verbatim>\<open>client_new_message\<close>) and the Makefile's default target is
  \<^verbatim>\<open>sky\<close>, so \<^verbatim>\<open>int\<close> and \<^verbatim>\<open>unsigned int\<close> have 16 bits.  A signed value is a HOL
  integer; an arithmetic result that leaves the range is a fault, because signed overflow has no
  defined result in C.  An unsigned value is a 16-bit word, which wraps.  Mixed comparisons convert
  the signed operand with \<open>to_unsigned\<close>, as C does.

  \<^bold>\<open>Faults.\<close> A failed \<^verbatim>\<open>assert\<close>, a dereference of \<^verbatim>\<open>NULL\<close>, a call through a
  \<^verbatim>\<open>NULL\<close> function pointer, a signed overflow, a division by zero, an access outside a buffer and
  a call of \<^verbatim>\<open>free\<close> for an object that was not allocated end the run; they are the values \<open>Fault f\<close>.  Return codes of the library are ordinary integers of an \<open>Ok\<close> result.

  \<^bold>\<open>Contiki.\<close> The list, memory-block and random-number modules are not part of the
  repository.  They are the argument \<open>ct\<close> of the definitions that call them; what Contiki
  documents about them is the hypothesis \<open>contiki_ok ct\<close>.
\<close>

section \<open>Results and faults\<close>

datatype fault =
    Assert_Failed
  | Null_Deref
  | Signed_Overflow
  | Div_By_Zero
  | Out_Of_Bounds
  | Invalid_Free
  | Diverges

datatype 'a result = Fault fault | Ok 'a

primrec bind :: "'a result \<Rightarrow> ('a \<Rightarrow> 'b result) \<Rightarrow> 'b result" where
  "bind (Fault f) k = Fault f"
| "bind (Ok x) k = k x"

text \<open>The C \<^verbatim>\<open>assert\<close> macro, and following a pointer that may be \<^verbatim>\<open>NULL\<close>.\<close>

definition c_assert :: "bool \<Rightarrow> unit result" where
  "c_assert b = (if b then Ok () else Fault Assert_Failed)"

definition deref :: "'a option \<Rightarrow> 'a result" where
  "deref p = (case p of None \<Rightarrow> Fault Null_Deref | Some x \<Rightarrow> Ok x)"

text \<open>
  The storage an object lives in, and \<^verbatim>\<open>free\<close>, which has a defined effect for allocated objects only.
\<close>

datatype storage = Static_Storage | Allocated_Storage

definition c_free :: "storage \<Rightarrow> unit result" where
  "c_free st = (case st of Static_Storage \<Rightarrow> Fault Invalid_Free | Allocated_Storage \<Rightarrow> Ok ())"

section \<open>C integers of the target\<close>

type_synonym u8 = "8 word"
type_synonym u16 = "16 word"

definition INT_MAX :: int where
  "INT_MAX = 32767"

definition INT_MIN :: int where
  "INT_MIN = - 32768"

definition in_int :: "int \<Rightarrow> bool" where
  "in_int i \<longleftrightarrow> INT_MIN \<le> i \<and> i \<le> INT_MAX"

text \<open>The value of a signed arithmetic expression.\<close>

definition c_int :: "int \<Rightarrow> int result" where
  "c_int i = (if in_int i then Ok i else Fault Signed_Overflow)"

text \<open>Signed division truncates towards zero.\<close>

definition c_div :: "int \<Rightarrow> int \<Rightarrow> int" where
  "c_div a b = sgn a * sgn b * (\<bar>a\<bar> div \<bar>b\<bar>)"

definition to_unsigned :: "int \<Rightarrow> u16" where
  "to_unsigned i = word_of_int i"

definition to_signed :: "u16 \<Rightarrow> int" where
  "to_signed w = sint w"

section \<open>The Contiki modules the sources call\<close>

text \<open>
  A Contiki list is represented by the addresses of its elements in the order in which
  \<^verbatim>\<open>list_head\<close> and \<^verbatim>\<open>list_item_next\<close> visit them; the traversal idiom
  \<^verbatim>\<open>for (x = list_head(l); x != NULL; x = list_item_next(x))\<close> is recursion over it.  A memory
  block pool is the set of its blocks in use.  \<open>ct_random_rand ct n\<close> is the value the
  \<open>n\<close>-th call of \<^verbatim>\<open>random_rand\<close> returns.
\<close>

record contiki =
  ct_list_init :: "nat list \<Rightarrow> nat list"
  ct_list_add :: "nat list \<Rightarrow> nat \<Rightarrow> nat list"
  ct_list_pop :: "nat list \<Rightarrow> nat option \<times> nat list"
  ct_list_remove :: "nat list \<Rightarrow> nat \<Rightarrow> nat list"
  ct_list_tail :: "nat list \<Rightarrow> nat option"
  ct_list_length :: "nat list \<Rightarrow> nat"
  ct_memb_alloc :: "nat \<Rightarrow> nat set \<Rightarrow> nat option \<times> nat set"
  ct_memb_free :: "nat \<Rightarrow> nat set \<Rightarrow> nat \<Rightarrow> nat set"
  ct_random_rand :: "nat \<Rightarrow> u16"

definition list_lib_ok :: "contiki \<Rightarrow> bool" where
  "list_lib_ok ct \<longleftrightarrow>
     (\<forall>xs. ct_list_init ct xs = []) \<and>
     (\<forall>xs x. x \<notin> set xs \<longrightarrow> ct_list_add ct xs x = xs @ [x]) \<and>
     (\<forall>xs. ct_list_pop ct xs = (case xs of [] \<Rightarrow> (None, []) | x # ys \<Rightarrow> (Some x, ys))) \<and>
     (\<forall>xs x. distinct xs \<longrightarrow> ct_list_remove ct xs x = filter (\<lambda>y. y \<noteq> x) xs) \<and>
     (\<forall>xs. ct_list_tail ct xs = (if xs = [] then None else Some (last xs))) \<and>
     (\<forall>xs. ct_list_length ct xs = length xs)"

definition memb_lib_ok :: "contiki \<Rightarrow> bool" where
  "memb_lib_ok ct \<longleftrightarrow>
     (\<forall>n used. {..<n} \<subseteq> used \<longrightarrow> ct_memb_alloc ct n used = (None, used)) \<and>
     (\<forall>n used. \<not> {..<n} \<subseteq> used \<longrightarrow>
        (\<exists>b. b < n \<and> b \<notin> used \<and> ct_memb_alloc ct n used = (Some b, insert b used))) \<and>
     (\<forall>n used b. b < n \<longrightarrow> ct_memb_free ct n used b = used - {b})"

definition contiki_ok :: "contiki \<Rightarrow> bool" where
  "contiki_ok ct \<longleftrightarrow> list_lib_ok ct \<and> memb_lib_ok ct"

section \<open>Lemmas on results\<close>

lemma bind_eq_Ok [simp]: "bind m k = Ok y \<longleftrightarrow> (\<exists>x. m = Ok x \<and> k x = Ok y)"
  by (cases m) auto

lemma bind_assoc: "bind (bind m k) h = bind m (\<lambda>x. bind (k x) h)"
  by (cases m) auto

lemma bind_if: "bind (if b then m else n) k = (if b then bind m k else bind n k)"
  by simp

lemma c_assert_Ok [simp]: "c_assert b = Ok u \<longleftrightarrow> b"
  by (simp add: c_assert_def)

lemma c_assert_True [simp]: "c_assert True = Ok ()"
  by (simp add: c_assert_def)

lemma c_assert_False [simp]: "c_assert False = Fault Assert_Failed"
  by (simp add: c_assert_def)

lemma deref_Ok [simp]: "deref p = Ok x \<longleftrightarrow> p = Some x"
  by (simp add: deref_def split: option.splits)

lemma deref_Some [simp]: "deref (Some x) = Ok x"
  by (simp add: deref_def)

lemma deref_None [simp]: "deref None = Fault Null_Deref"
  by (simp add: deref_def)

lemma c_int_Ok [simp]: "c_int i = Ok j \<longleftrightarrow> in_int i \<and> j = i"
  by (auto simp: c_int_def)

lemma c_int_in_int: "in_int i \<Longrightarrow> c_int i = Ok i"
  by simp

lemma result_cases [case_names Fault Ok]:
  assumes "\<And>f. m = Fault f \<Longrightarrow> P" and "\<And>x. m = Ok x \<Longrightarrow> P"
  shows P
  using assms by (cases m) auto

section \<open>Reasoning about runs\<close>

text \<open>
  \<open>post m Q\<close>: if the run does not fault, its result satisfies \<open>Q\<close>.  \<open>runs m Q\<close>: the run
  does not fault and its result satisfies \<open>Q\<close>.  The rules in \<open>wp\<close> compute both through the
  shape of an operation's body, so that a proof about an operation is about its calls.
\<close>

definition post :: "'a result \<Rightarrow> ('a \<Rightarrow> bool) \<Rightarrow> bool" where
  "post m Q \<longleftrightarrow> (\<forall>x. m = Ok x \<longrightarrow> Q x)"

definition runs :: "'a result \<Rightarrow> ('a \<Rightarrow> bool) \<Rightarrow> bool" where
  "runs m Q \<longleftrightarrow> (\<exists>x. m = Ok x \<and> Q x)"

named_theorems wp \<open>computation of postconditions\<close>

lemma post_Ok [wp]: "post (Ok x) Q \<longleftrightarrow> Q x"
  and post_Fault [wp]: "post (Fault f) Q"
  and post_bind [wp]: "post (bind m k) Q \<longleftrightarrow> post m (\<lambda>x. post (k x) Q)"
  and post_assert [wp]: "post (c_assert b) R \<longleftrightarrow> (b \<longrightarrow> R ())"
  and post_deref [wp]: "post (deref p) P \<longleftrightarrow> (\<forall>a. p = Some a \<longrightarrow> P a)"
  and post_c_int [wp]: "post (c_int i) S \<longleftrightarrow> (in_int i \<longrightarrow> S i)"
  by (auto simp: post_def)

lemma runs_Ok [wp]: "runs (Ok x) Q \<longleftrightarrow> Q x"
  and runs_Fault [wp]: "\<not> runs (Fault f) Q"
  and runs_bind [wp]: "runs (bind m k) Q \<longleftrightarrow> runs m (\<lambda>x. runs (k x) Q)"
  and runs_assert [wp]: "runs (c_assert b) R \<longleftrightarrow> b \<and> R ()"
  and runs_deref [wp]: "runs (deref p) P \<longleftrightarrow> (\<exists>a. p = Some a \<and> P a)"
  and runs_c_int [wp]: "runs (c_int i) S \<longleftrightarrow> in_int i \<and> S i"
  by (auto simp: runs_def)

lemma post_mono: "post m P \<Longrightarrow> (\<And>x. P x \<Longrightarrow> Q x) \<Longrightarrow> post m Q"
  by (auto simp: post_def)

lemma runs_mono: "runs m P \<Longrightarrow> (\<And>x. P x \<Longrightarrow> Q x) \<Longrightarrow> runs m Q"
  by (auto simp: runs_def)

lemma runs_post: "runs m (\<lambda>_. True) \<Longrightarrow> post m Q \<Longrightarrow> runs m Q"
  by (auto simp: runs_def post_def)

lemma runs_imp_post: "runs m Q \<Longrightarrow> post m Q"
  by (auto simp: runs_def post_def)

lemma post_conj: "post m P \<Longrightarrow> post m Q \<Longrightarrow> post m (\<lambda>x. P x \<and> Q x)"
  by (auto simp: post_def)

lemma postD: "post m Q \<Longrightarrow> m = Ok x \<Longrightarrow> Q x"
  by (simp add: post_def)

lemma postI: "(\<And>x. m = Ok x \<Longrightarrow> Q x) \<Longrightarrow> post m Q"
  by (simp add: post_def)

section \<open>Lemmas on integers\<close>

lemma in_int_iff: "in_int i \<longleftrightarrow> - 32768 \<le> i \<and> i \<le> 32767"
  by (simp add: in_int_def INT_MIN_def INT_MAX_def)

lemma c_div_2 [simp]: "0 \<le> a \<Longrightarrow> c_div a 2 = a div 2"
  by (cases "a = 0") (auto simp: c_div_def sgn_if)

lemma uint_to_unsigned [simp]: "0 \<le> i \<Longrightarrow> in_int i \<Longrightarrow> uint (to_unsigned i) = i"
  by (simp add: to_unsigned_def in_int_iff uint_word_of_int)

lemma to_unsigned_inj:
  assumes "0 \<le> i" "in_int i" "0 \<le> j" "in_int j"
  shows "to_unsigned i = to_unsigned j \<longleftrightarrow> i = j"
  by (metis assms uint_to_unsigned)

lemma to_unsigned_eq_iff:
  assumes "0 \<le> i" "in_int i"
  shows "w = to_unsigned i \<longleftrightarrow> uint w = i"
  using assms by (metis uint_to_unsigned word_uint_eqI)

lemma to_signed_to_unsigned [simp]: "in_int i \<Longrightarrow> to_signed (to_unsigned i) = i"
  unfolding to_signed_def to_unsigned_def in_int_iff
  by (simp add: sint_sbintrunc' signed_take_bit_int_eq_self)

lemma to_signed_small: "uint w \<le> 32767 \<Longrightarrow> to_signed w = uint w"
  using to_signed_to_unsigned [of "uint w"]
  by (simp add: in_int_iff to_unsigned_def order_trans [OF _ uint_ge_0])

section \<open>Lemmas on lists\<close>

lemma find_unique:
  assumes "k < length xs" "P (xs ! k)" "\<And>i. i < length xs \<Longrightarrow> P (xs ! i) \<Longrightarrow> i = k"
  shows "find P xs = Some (xs ! k)"
  unfolding find_Some_iff using assms by (metis less_trans nat_neq_iff)

lemma dropWhile_nth_distinct:
  assumes "distinct xs" "k < length xs"
  shows "dropWhile (\<lambda>y. y \<noteq> xs ! k) xs = drop k xs"
  using assms
proof (induction xs arbitrary: k)
  case (Cons x xs)
  then show ?case by (cases k) (auto dest: nth_mem)
qed simp

section \<open>Lemmas on Contiki\<close>

named_theorems contiki_simps \<open>what Contiki documents, as rewrite rules\<close>

lemma ct_list_init [contiki_simps]: "contiki_ok ct \<Longrightarrow> ct_list_init ct xs = []"
  by (simp add: contiki_ok_def list_lib_ok_def)

lemma ct_list_add [contiki_simps]:
  "contiki_ok ct \<Longrightarrow> x \<notin> set xs \<Longrightarrow> ct_list_add ct xs x = xs @ [x]"
  by (simp add: contiki_ok_def list_lib_ok_def)

lemma ct_list_pop [contiki_simps]:
  "contiki_ok ct \<Longrightarrow>
     ct_list_pop ct xs = (case xs of [] \<Rightarrow> (None, []) | x # ys \<Rightarrow> (Some x, ys))"
  by (simp add: contiki_ok_def list_lib_ok_def)

lemma ct_list_remove [contiki_simps]:
  "contiki_ok ct \<Longrightarrow> distinct xs \<Longrightarrow> ct_list_remove ct xs x = filter (\<lambda>y. y \<noteq> x) xs"
  by (simp add: contiki_ok_def list_lib_ok_def)

lemma ct_list_tail [contiki_simps]:
  "contiki_ok ct \<Longrightarrow> ct_list_tail ct xs = (if xs = [] then None else Some (last xs))"
  by (simp add: contiki_ok_def list_lib_ok_def)

lemma ct_list_length [contiki_simps]: "contiki_ok ct \<Longrightarrow> ct_list_length ct xs = length xs"
  by (simp add: contiki_ok_def list_lib_ok_def)

lemma ct_memb_free [contiki_simps]:
  "contiki_ok ct \<Longrightarrow> b < n \<Longrightarrow> ct_memb_free ct n used b = used - {b}"
  by (simp add: contiki_ok_def memb_lib_ok_def)

lemma ct_memb_alloc_full:
  "contiki_ok ct \<Longrightarrow> {..<n} \<subseteq> used \<Longrightarrow> ct_memb_alloc ct n used = (None, used)"
  by (simp add: contiki_ok_def memb_lib_ok_def)

lemma ct_memb_alloc_free:
  assumes "contiki_ok ct" "\<not> {..<n} \<subseteq> used"
  obtains b where "b < n" "b \<notin> used" "ct_memb_alloc ct n used = (Some b, insert b used)"
proof -
  from assms(1) have "\<forall>n used. \<not> {..<n} \<subseteq> used \<longrightarrow>
      (\<exists>b. b < n \<and> b \<notin> used \<and> ct_memb_alloc ct n used = (Some b, insert b used))"
    unfolding contiki_ok_def memb_lib_ok_def by (elim conjE)
  then have "\<exists>b. b < n \<and> b \<notin> used \<and> ct_memb_alloc ct n used = (Some b, insert b used)"
    using assms(2) by (elim allE impE) assumption+
  with that show ?thesis by blast
qed

lemma ct_memb_alloc_Some:
  assumes "contiki_ok ct" "ct_memb_alloc ct n used = (Some b, used')"
  shows "b < n \<and> b \<notin> used \<and> used' = insert b used"
proof (cases "{..<n} \<subseteq> used")
  case True
  then show ?thesis using assms ct_memb_alloc_full by fastforce
next
  case False
  with assms(1) obtain c where "c < n" "c \<notin> used" "ct_memb_alloc ct n used = (Some c, insert c used)"
    by (rule ct_memb_alloc_free)
  with assms(2) show ?thesis by auto
qed

lemma ct_memb_alloc_None:
  assumes "contiki_ok ct" "ct_memb_alloc ct n used = (None, used')"
  shows "{..<n} \<subseteq> used \<and> used' = used"
proof (cases "{..<n} \<subseteq> used")
  case True
  then show ?thesis using assms ct_memb_alloc_full by fastforce
next
  case False
  with assms(1) obtain c where "ct_memb_alloc ct n used = (Some c, insert c used)"
    by (rule ct_memb_alloc_free)
  with assms(2) show ?thesis by simp
qed

text \<open>A pool of \<open>n\<close> blocks of which fewer than \<open>n\<close> are in use has a free block.\<close>

lemma free_block_exists:
  assumes "finite used" "card used < n"
  shows "\<not> {..<n} \<subseteq> used"
proof
  assume "{..<n} \<subseteq> used"
  then have "card {..<n} \<le> card used" using assms(1) by (rule card_mono [rotated])
  with assms(2) show False by simp
qed

section \<open>A reference instance of Contiki\<close>

text \<open>
  One instance that has the documented behaviour, with the first free block allocated and a random
  sequence that is constant: the hypothesis \<open>contiki_ok\<close> can hold.
\<close>

definition ref_memb_alloc :: "nat \<Rightarrow> nat set \<Rightarrow> nat option \<times> nat set" where
  "ref_memb_alloc n used =
     (case find (\<lambda>b. b \<notin> used) [0..<n] of
        None \<Rightarrow> (None, used)
      | Some b \<Rightarrow> (Some b, insert b used))"

definition ref_contiki :: contiki where
  "ref_contiki =
     \<lparr>ct_list_init = (\<lambda>_. []),
      ct_list_add = (\<lambda>xs x. filter (\<lambda>y. y \<noteq> x) xs @ [x]),
      ct_list_pop = (\<lambda>xs. case xs of [] \<Rightarrow> (None, []) | x # ys \<Rightarrow> (Some x, ys)),
      ct_list_remove = (\<lambda>xs x. remove1 x xs),
      ct_list_tail = (\<lambda>xs. if xs = [] then None else Some (last xs)),
      ct_list_length = length,
      ct_memb_alloc = ref_memb_alloc,
      ct_memb_free = (\<lambda>n used b. used - {b}),
      ct_random_rand = (\<lambda>_. 7)\<rparr>"

lemma ref_contiki_fields [simp]:
  "ct_list_init ref_contiki xs = []"
  "ct_list_add ref_contiki xs x = filter (\<lambda>y. y \<noteq> x) xs @ [x]"
  "ct_list_pop ref_contiki xs = (case xs of [] \<Rightarrow> (None, []) | x # ys \<Rightarrow> (Some x, ys))"
  "ct_list_remove ref_contiki xs x = remove1 x xs"
  "ct_list_tail ref_contiki xs = (if xs = [] then None else Some (last xs))"
  "ct_list_length ref_contiki xs = length xs"
  "ct_memb_alloc ref_contiki = ref_memb_alloc"
  "ct_memb_free ref_contiki n used b = used - {b}"
  "ct_random_rand ref_contiki i = 7"
  by (simp_all add: ref_contiki_def)

lemma ref_memb_alloc_full: "{..<n} \<subseteq> used \<Longrightarrow> ref_memb_alloc n used = (None, used)"
  by (auto simp: ref_memb_alloc_def find_None_iff split: option.splits)

lemma ref_memb_alloc_free:
  assumes "\<not> {..<n} \<subseteq> used"
  shows "\<exists>b. b < n \<and> b \<notin> used \<and> ref_memb_alloc n used = (Some b, insert b used)"
proof -
  from assms obtain c where "c < n" "c \<notin> used" by auto
  then have "find (\<lambda>b. b \<notin> used) [0..<n] \<noteq> None" by (auto simp: find_None_iff)
  then obtain b where b: "find (\<lambda>b. b \<notin> used) [0..<n] = Some b" by auto
  then have "b < n" "b \<notin> used" by (auto simp: find_Some_iff)
  with b show ?thesis by (auto simp: ref_memb_alloc_def)
qed

lemma ref_contiki_ok [simp]: "contiki_ok ref_contiki"
  unfolding contiki_ok_def
proof
  show "list_lib_ok ref_contiki"
    by (auto simp: list_lib_ok_def distinct_remove1_removeAll
        removeAll_filter_not_eq filter_id_conv intro!: filter_cong)
  show "memb_lib_ok ref_contiki"
    using ref_memb_alloc_free
    by (auto simp: memb_lib_ok_def ref_memb_alloc_full)
qed

end
