(* ===== verification/Raft_Node.thy ===== *)
theory Raft_Node
  imports Raft_Prelude
begin

text \<open>
  The representation of a peer, \<^verbatim>\<open>src/raft_node.c\<close>: the node structure, its flag bits and
  its accessors.  An accessor takes the node the pointer refers to; the pool the nodes live in
  (\<^verbatim>\<open>raft_nodes_mem\<close>) is part of the server state, in theory \<open>Raft_Types\<close>.

  The lemmas show that the six flag bits are independent: each setter changes the reading of its own
  bit only, and leaves the indices and the identifier alone.
\<close>

section \<open>The node structure\<close>

abbreviation (input) RAFT_NODE_VOTED_FOR_ME :: u16 where "RAFT_NODE_VOTED_FOR_ME \<equiv> 1"
abbreviation (input) RAFT_NODE_VOTING :: u16 where "RAFT_NODE_VOTING \<equiv> 2"
abbreviation (input) RAFT_NODE_HAS_SUFFICIENT_LOG :: u16 where "RAFT_NODE_HAS_SUFFICIENT_LOG \<equiv> 4"
abbreviation (input) RAFT_NODE_INACTIVE :: u16 where "RAFT_NODE_INACTIVE \<equiv> 8"
abbreviation (input) RAFT_NODE_VOTING_COMMITTED :: u16 where "RAFT_NODE_VOTING_COMMITTED \<equiv> 16"
abbreviation (input) RAFT_NODE_ADDITION_COMMITTED :: u16 where "RAFT_NODE_ADDITION_COMMITTED \<equiv> 32"

definition MAX_NODES :: nat where
  "MAX_NODES = 7"

record raft_node =
  next_idx :: int
  match_idx :: int
  flags :: u16
  node_id :: int

text \<open>The fields \<^verbatim>\<open>raft_node_new\<close> writes into the block it was given.\<close>

definition raft_node_init :: "int \<Rightarrow> raft_node" where
  "raft_node_init i = \<lparr>next_idx = 1, match_idx = 0, flags = RAFT_NODE_VOTING, node_id = i\<rparr>"

section \<open>Accessors\<close>

definition raft_node_get_next_idx :: "raft_node \<Rightarrow> int" where
  "raft_node_get_next_idx n = next_idx n"

definition raft_node_set_next_idx :: "raft_node \<Rightarrow> int \<Rightarrow> raft_node" where
  "raft_node_set_next_idx n nextIdx = n\<lparr>next_idx := (if nextIdx < 1 then 1 else nextIdx)\<rparr>"

definition raft_node_get_match_idx :: "raft_node \<Rightarrow> int" where
  "raft_node_get_match_idx n = match_idx n"

definition raft_node_set_match_idx :: "raft_node \<Rightarrow> int \<Rightarrow> raft_node" where
  "raft_node_set_match_idx n matchIdx = n\<lparr>match_idx := matchIdx\<rparr>"

definition raft_node_vote_for_me :: "raft_node \<Rightarrow> bool \<Rightarrow> raft_node" where
  "raft_node_vote_for_me n vote =
     (if vote then n\<lparr>flags := flags n OR RAFT_NODE_VOTED_FOR_ME\<rparr>
      else n\<lparr>flags := flags n AND NOT RAFT_NODE_VOTED_FOR_ME\<rparr>)"

definition raft_node_has_vote_for_me :: "raft_node \<Rightarrow> bool" where
  "raft_node_has_vote_for_me n \<longleftrightarrow> flags n AND RAFT_NODE_VOTED_FOR_ME \<noteq> 0"

definition raft_node_is_voting :: "raft_node \<Rightarrow> bool" where
  "raft_node_is_voting n \<longleftrightarrow> flags n AND RAFT_NODE_VOTING \<noteq> 0"

definition raft_node_set_voting :: "raft_node \<Rightarrow> bool \<Rightarrow> raft_node result" where
  "raft_node_set_voting n voting =
     (if voting
      then bind (c_assert (\<not> raft_node_is_voting n)) (\<lambda>_.
           Ok (n\<lparr>flags := flags n OR RAFT_NODE_VOTING\<rparr>))
      else bind (c_assert (raft_node_is_voting n)) (\<lambda>_.
           Ok (n\<lparr>flags := flags n AND NOT RAFT_NODE_VOTING\<rparr>)))"

definition raft_node_has_sufficient_logs :: "raft_node \<Rightarrow> bool" where
  "raft_node_has_sufficient_logs n \<longleftrightarrow> flags n AND RAFT_NODE_HAS_SUFFICIENT_LOG \<noteq> 0"

definition raft_node_set_has_sufficient_logs :: "raft_node \<Rightarrow> raft_node" where
  "raft_node_set_has_sufficient_logs n = n\<lparr>flags := flags n OR RAFT_NODE_HAS_SUFFICIENT_LOG\<rparr>"

definition raft_node_set_active :: "raft_node \<Rightarrow> bool \<Rightarrow> raft_node" where
  "raft_node_set_active n active =
     (if \<not> active then n\<lparr>flags := flags n OR RAFT_NODE_INACTIVE\<rparr>
      else n\<lparr>flags := flags n AND NOT RAFT_NODE_INACTIVE\<rparr>)"

definition raft_node_is_active :: "raft_node \<Rightarrow> bool" where
  "raft_node_is_active n \<longleftrightarrow> flags n AND RAFT_NODE_INACTIVE = 0"

definition raft_node_set_voting_committed :: "raft_node \<Rightarrow> bool \<Rightarrow> raft_node" where
  "raft_node_set_voting_committed n voting =
     (if voting then n\<lparr>flags := flags n OR RAFT_NODE_VOTING_COMMITTED\<rparr>
      else n\<lparr>flags := flags n AND NOT RAFT_NODE_VOTING_COMMITTED\<rparr>)"

definition raft_node_is_voting_committed :: "raft_node \<Rightarrow> bool" where
  "raft_node_is_voting_committed n \<longleftrightarrow> flags n AND RAFT_NODE_VOTING_COMMITTED \<noteq> 0"

definition raft_node_get_id :: "raft_node \<Rightarrow> int" where
  "raft_node_get_id n = node_id n"

definition raft_node_set_addition_committed :: "raft_node \<Rightarrow> bool \<Rightarrow> raft_node" where
  "raft_node_set_addition_committed n committed =
     (if committed then n\<lparr>flags := flags n OR RAFT_NODE_ADDITION_COMMITTED\<rparr>
      else n\<lparr>flags := flags n AND NOT RAFT_NODE_ADDITION_COMMITTED\<rparr>)"

definition raft_node_is_addition_committed :: "raft_node \<Rightarrow> bool" where
  "raft_node_is_addition_committed n \<longleftrightarrow> flags n AND RAFT_NODE_ADDITION_COMMITTED \<noteq> 0"

section \<open>Flag bits\<close>

lemmas node_get_defs =
  raft_node_get_next_idx_def raft_node_get_match_idx_def raft_node_get_id_def

lemmas node_read_defs =
  raft_node_has_vote_for_me_def raft_node_is_voting_def raft_node_has_sufficient_logs_def
  raft_node_is_active_def raft_node_is_voting_committed_def raft_node_is_addition_committed_def

lemmas node_write_defs =
  raft_node_set_next_idx_def raft_node_set_match_idx_def raft_node_vote_for_me_def
  raft_node_set_has_sufficient_logs_def raft_node_set_active_def
  raft_node_set_voting_committed_def raft_node_set_addition_committed_def

text \<open>A masked reading is the bit of the mask.\<close>

lemma flag_and_bit:
  "(w :: u16) AND 1 = 0 \<longleftrightarrow> \<not> bit w 0"
  "w AND 2 = 0 \<longleftrightarrow> \<not> bit w 1"
  "w AND 4 = 0 \<longleftrightarrow> \<not> bit w 2"
  "w AND 8 = 0 \<longleftrightarrow> \<not> bit w 3"
  "w AND 16 = 0 \<longleftrightarrow> \<not> bit w 4"
  "w AND 32 = 0 \<longleftrightarrow> \<not> bit w 5"
  using and_exp_eq_0_iff_not_bit [of w 0] and_exp_eq_0_iff_not_bit [of w 1]
    and_exp_eq_0_iff_not_bit [of w 2] and_exp_eq_0_iff_not_bit [of w 3]
    and_exp_eq_0_iff_not_bit [of w 4] and_exp_eq_0_iff_not_bit [of w 5]
  by simp_all

lemmas flag_simps = flag_and_bit bit_simps

text \<open>
  Every reader after every writer, as rewrite rules: a reader sees its own writer and is unchanged by
  the writer of another flag or of an index.
\<close>

lemma raft_node_vote_for_me_reads [simp]:
  "raft_node_has_vote_for_me (raft_node_vote_for_me n b) = b"
  "raft_node_is_voting (raft_node_vote_for_me n b) = raft_node_is_voting n"
  "raft_node_has_sufficient_logs (raft_node_vote_for_me n b) = raft_node_has_sufficient_logs n"
  "raft_node_is_active (raft_node_vote_for_me n b) = raft_node_is_active n"
  "raft_node_is_voting_committed (raft_node_vote_for_me n b) = raft_node_is_voting_committed n"
  "raft_node_is_addition_committed (raft_node_vote_for_me n b) = raft_node_is_addition_committed n"
  "next_idx (raft_node_vote_for_me n b) = next_idx n"
  "match_idx (raft_node_vote_for_me n b) = match_idx n"
  "node_id (raft_node_vote_for_me n b) = node_id n"
  by (auto simp: node_read_defs node_write_defs flag_simps)

lemma raft_node_set_active_reads [simp]:
  "raft_node_has_vote_for_me (raft_node_set_active n b) = raft_node_has_vote_for_me n"
  "raft_node_is_voting (raft_node_set_active n b) = raft_node_is_voting n"
  "raft_node_has_sufficient_logs (raft_node_set_active n b) = raft_node_has_sufficient_logs n"
  "raft_node_is_active (raft_node_set_active n b) = b"
  "raft_node_is_voting_committed (raft_node_set_active n b) = raft_node_is_voting_committed n"
  "raft_node_is_addition_committed (raft_node_set_active n b) = raft_node_is_addition_committed n"
  "next_idx (raft_node_set_active n b) = next_idx n"
  "match_idx (raft_node_set_active n b) = match_idx n"
  "node_id (raft_node_set_active n b) = node_id n"
  by (auto simp: node_read_defs node_write_defs flag_simps)

lemma raft_node_set_voting_committed_reads [simp]:
  "raft_node_has_vote_for_me (raft_node_set_voting_committed n b) = raft_node_has_vote_for_me n"
  "raft_node_is_voting (raft_node_set_voting_committed n b) = raft_node_is_voting n"
  "raft_node_has_sufficient_logs (raft_node_set_voting_committed n b) = raft_node_has_sufficient_logs n"
  "raft_node_is_active (raft_node_set_voting_committed n b) = raft_node_is_active n"
  "raft_node_is_voting_committed (raft_node_set_voting_committed n b) = b"
  "raft_node_is_addition_committed (raft_node_set_voting_committed n b) = raft_node_is_addition_committed n"
  "next_idx (raft_node_set_voting_committed n b) = next_idx n"
  "match_idx (raft_node_set_voting_committed n b) = match_idx n"
  "node_id (raft_node_set_voting_committed n b) = node_id n"
  by (auto simp: node_read_defs node_write_defs flag_simps)

lemma raft_node_set_addition_committed_reads [simp]:
  "raft_node_has_vote_for_me (raft_node_set_addition_committed n b) = raft_node_has_vote_for_me n"
  "raft_node_is_voting (raft_node_set_addition_committed n b) = raft_node_is_voting n"
  "raft_node_has_sufficient_logs (raft_node_set_addition_committed n b) = raft_node_has_sufficient_logs n"
  "raft_node_is_active (raft_node_set_addition_committed n b) = raft_node_is_active n"
  "raft_node_is_voting_committed (raft_node_set_addition_committed n b) = raft_node_is_voting_committed n"
  "raft_node_is_addition_committed (raft_node_set_addition_committed n b) = b"
  "next_idx (raft_node_set_addition_committed n b) = next_idx n"
  "match_idx (raft_node_set_addition_committed n b) = match_idx n"
  "node_id (raft_node_set_addition_committed n b) = node_id n"
  by (auto simp: node_read_defs node_write_defs flag_simps)

lemma raft_node_set_has_sufficient_logs_reads [simp]:
  "raft_node_has_vote_for_me (raft_node_set_has_sufficient_logs n) = raft_node_has_vote_for_me n"
  "raft_node_is_voting (raft_node_set_has_sufficient_logs n) = raft_node_is_voting n"
  "raft_node_has_sufficient_logs (raft_node_set_has_sufficient_logs n) = True"
  "raft_node_is_active (raft_node_set_has_sufficient_logs n) = raft_node_is_active n"
  "raft_node_is_voting_committed (raft_node_set_has_sufficient_logs n) = raft_node_is_voting_committed n"
  "raft_node_is_addition_committed (raft_node_set_has_sufficient_logs n) = raft_node_is_addition_committed n"
  "next_idx (raft_node_set_has_sufficient_logs n) = next_idx n"
  "match_idx (raft_node_set_has_sufficient_logs n) = match_idx n"
  "node_id (raft_node_set_has_sufficient_logs n) = node_id n"
  by (auto simp: node_read_defs node_write_defs flag_simps)

lemma raft_node_set_next_idx_reads [simp]:
  "raft_node_has_vote_for_me (raft_node_set_next_idx n i) = raft_node_has_vote_for_me n"
  "raft_node_is_voting (raft_node_set_next_idx n i) = raft_node_is_voting n"
  "raft_node_has_sufficient_logs (raft_node_set_next_idx n i) = raft_node_has_sufficient_logs n"
  "raft_node_is_active (raft_node_set_next_idx n i) = raft_node_is_active n"
  "raft_node_is_voting_committed (raft_node_set_next_idx n i) = raft_node_is_voting_committed n"
  "raft_node_is_addition_committed (raft_node_set_next_idx n i) = raft_node_is_addition_committed n"
  "next_idx (raft_node_set_next_idx n i) = (if i < 1 then 1 else i)"
  "match_idx (raft_node_set_next_idx n i) = match_idx n"
  "node_id (raft_node_set_next_idx n i) = node_id n"
  by (auto simp: node_read_defs node_write_defs flag_simps)

lemma raft_node_set_match_idx_reads [simp]:
  "raft_node_has_vote_for_me (raft_node_set_match_idx n i) = raft_node_has_vote_for_me n"
  "raft_node_is_voting (raft_node_set_match_idx n i) = raft_node_is_voting n"
  "raft_node_has_sufficient_logs (raft_node_set_match_idx n i) = raft_node_has_sufficient_logs n"
  "raft_node_is_active (raft_node_set_match_idx n i) = raft_node_is_active n"
  "raft_node_is_voting_committed (raft_node_set_match_idx n i) = raft_node_is_voting_committed n"
  "raft_node_is_addition_committed (raft_node_set_match_idx n i) = raft_node_is_addition_committed n"
  "next_idx (raft_node_set_match_idx n i) = next_idx n"
  "match_idx (raft_node_set_match_idx n i) = i"
  "node_id (raft_node_set_match_idx n i) = node_id n"
  by (auto simp: node_read_defs node_write_defs flag_simps)

lemma flags_idx [simp]:
  "flags (raft_node_set_next_idx n i) = flags n"
  "flags (raft_node_set_match_idx n j) = flags n"
  by (simp_all add: node_write_defs)

lemma raft_node_init_reads [simp]:
  "raft_node_has_vote_for_me (raft_node_init i) = False"
  "raft_node_is_voting (raft_node_init i)"
  "raft_node_is_active (raft_node_init i)"
  "next_idx (raft_node_init i) = 1"
  "match_idx (raft_node_init i) = 0"
  "node_id (raft_node_init i) = i"
  by (auto simp: raft_node_init_def node_read_defs)

text \<open>
  \<^verbatim>\<open>raft_node_set_voting\<close> succeeds exactly when it changes the flag; the other readings stay.
\<close>

lemma raft_node_set_voting_iff:
  "(\<exists>n'. raft_node_set_voting n b = Ok n') \<longleftrightarrow> raft_node_is_voting n \<noteq> b"
  by (auto simp: raft_node_set_voting_def)

lemma raft_node_set_voting_reads:
  assumes "raft_node_set_voting n b = Ok n'"
  shows "raft_node_is_voting n' = b"
    and "raft_node_has_vote_for_me n' = raft_node_has_vote_for_me n"
    and "raft_node_has_sufficient_logs n' = raft_node_has_sufficient_logs n"
    and "raft_node_is_active n' = raft_node_is_active n"
    and "raft_node_is_voting_committed n' = raft_node_is_voting_committed n"
    and "raft_node_is_addition_committed n' = raft_node_is_addition_committed n"
    and "next_idx n' = next_idx n" and "match_idx n' = match_idx n" and "node_id n' = node_id n"
  using assms
  by (auto simp: raft_node_set_voting_def node_read_defs flag_simps split: if_splits)

section \<open>Properties\<close>

text \<open>What a node is to the rest of the library: six independent truth values and three numbers.\<close>

record node_abs =
  voted_me :: bool
  voting :: bool
  sufficient :: bool
  active :: bool
  voting_done :: bool
  addition_done :: bool
  nxt :: int
  mtch :: int
  ident :: int

definition node_view :: "raft_node \<Rightarrow> node_abs" where
  "node_view n =
     \<lparr>voted_me = raft_node_has_vote_for_me n, voting = raft_node_is_voting n,
      sufficient = raft_node_has_sufficient_logs n, active = raft_node_is_active n,
      voting_done = raft_node_is_voting_committed n,
      addition_done = raft_node_is_addition_committed n,
      nxt = raft_node_get_next_idx n, mtch = raft_node_get_match_idx n,
      ident = raft_node_get_id n\<rparr>"

text \<open>
  C21: The flag word refines a record of independent truth values: every writer of a node changes
  exactly the component it is named after.  \<^verbatim>\<open>raft_node_set_voting\<close> in addition asserts that the
  flag changes, and the next index never goes below 1.
\<close>

theorem node_writers_refine:
  "node_view (raft_node_init i) =
     \<lparr>voted_me = False, voting = True, sufficient = False, active = True, voting_done = False,
      addition_done = False, nxt = 1, mtch = 0, ident = i\<rparr> \<and>
   node_view (raft_node_vote_for_me n b) = (node_view n)\<lparr>voted_me := b\<rparr> \<and>
   node_view (raft_node_set_has_sufficient_logs n) = (node_view n)\<lparr>sufficient := True\<rparr> \<and>
   node_view (raft_node_set_active n b) = (node_view n)\<lparr>active := b\<rparr> \<and>
   node_view (raft_node_set_voting_committed n b) = (node_view n)\<lparr>voting_done := b\<rparr> \<and>
   node_view (raft_node_set_addition_committed n b) = (node_view n)\<lparr>addition_done := b\<rparr> \<and>
   node_view (raft_node_set_next_idx n k) = (node_view n)\<lparr>nxt := max 1 k\<rparr> \<and>
   node_view (raft_node_set_match_idx n k) = (node_view n)\<lparr>mtch := k\<rparr> \<and>
   (case raft_node_set_voting n b of
      Ok n' \<Rightarrow> voting (node_view n) \<noteq> b \<and> node_view n' = (node_view n)\<lparr>voting := b\<rparr>
    | Fault f \<Rightarrow> voting (node_view n) = b \<and> f = Assert_Failed)"
proof -
  have "case raft_node_set_voting n b of
      Ok n' \<Rightarrow> voting (node_view n) \<noteq> b \<and> node_view n' = (node_view n)\<lparr>voting := b\<rparr>
    | Fault f \<Rightarrow> voting (node_view n) = b \<and> f = Assert_Failed"
  proof (cases "raft_node_set_voting n b")
    case (Ok n')
    then show ?thesis
      using raft_node_set_voting_iff [of n b] raft_node_set_voting_reads [OF Ok]
      by (auto simp: node_view_def node_get_defs)
  next
    case (Fault f)
    then show ?thesis
      by (auto simp: raft_node_set_voting_def node_view_def c_assert_def split: if_splits)
  qed
  moreover have "node_view (raft_node_init i) =
     \<lparr>voted_me = False, voting = True, sufficient = False, active = True, voting_done = False,
      addition_done = False, nxt = 1, mtch = 0, ident = i\<rparr>"
    by (simp add: node_view_def node_get_defs) (simp add: node_read_defs raft_node_init_def)
  ultimately show ?thesis
    by (simp add: node_view_def node_get_defs max_def)
qed

end
