(* ===== verification/Raft_Types.thy ===== *)
theory Raft_Types
  imports Raft_Node
begin

text \<open>
  The data of the library: entries, messages and callbacks of \<^verbatim>\<open>include/raft.h\<close>, the log
  structure of \<^verbatim>\<open>src/raft_log.c\<close> and the server structure of
  \<^verbatim>\<open>include/raft_private.h\<close>.

  \<^bold>\<open>Pointers.\<close> Entries and nodes live in the two static block pools
  \<^verbatim>\<open>raft_entries_mem\<close> and \<^verbatim>\<open>raft_nodes_mem\<close>.  A pointer is the number of a block, a
  pointer that may be \<^verbatim>\<open>NULL\<close> an option of it, and the pools are the components
  \<open>entries_mem\<close> and \<open>nodes_mem\<close> of the state with the sets of blocks in use.
  Reading a block that was freed reads what was last written there, because the pools are static
  arrays.

  \<^bold>\<open>Callbacks.\<close> A callback is a state transformer on the user's data \<open>udata\<close> that returns
  an integer; \<open>None\<close> is a \<^verbatim>\<open>NULL\<close> function pointer.  It sees the node, message or entry it
  is given.  Callbacks do not call back into the library and do not write the objects they are
  given.  The debug callback \<^verbatim>\<open>log\<close> has no effect on the library and is left out.
\<close>

section \<open>Entries and messages\<close>

abbreviation (input) RAFT_ERR_NOT_LEADER :: int where "RAFT_ERR_NOT_LEADER \<equiv> -2"
abbreviation (input) RAFT_ERR_ONE_VOTING_CHANGE_ONLY :: int where "RAFT_ERR_ONE_VOTING_CHANGE_ONLY \<equiv> -3"
abbreviation (input) RAFT_ERR_SHUTDOWN :: int where "RAFT_ERR_SHUTDOWN \<equiv> -4"
abbreviation (input) RAFT_ERR_NEEDS_SNAPSHOT :: int where "RAFT_ERR_NEEDS_SNAPSHOT \<equiv> -6"
abbreviation (input) RAFT_ERR_SNAPSHOT_IN_PROGRESS :: int where "RAFT_ERR_SNAPSHOT_IN_PROGRESS \<equiv> -7"

abbreviation (input) RAFT_REQUESTVOTE_ERR_GRANTED :: int where
  "RAFT_REQUESTVOTE_ERR_GRANTED \<equiv> 1"
abbreviation (input) RAFT_REQUESTVOTE_ERR_NOT_GRANTED :: int where
  "RAFT_REQUESTVOTE_ERR_NOT_GRANTED \<equiv> 0"
abbreviation (input) RAFT_REQUESTVOTE_ERR_UNKNOWN_NODE :: int where
  "RAFT_REQUESTVOTE_ERR_UNKNOWN_NODE \<equiv> -1"

datatype raft_state_e =
    RAFT_STATE_NONE
  | RAFT_STATE_FOLLOWER
  | RAFT_STATE_CANDIDATE
  | RAFT_STATE_LEADER

text \<open>
  The type of an entry is an \<^verbatim>\<open>int\<close> in the source, so that users can add values above
  \<^verbatim>\<open>RAFT_LOGTYPE_NUM\<close>.
\<close>

abbreviation (input) RAFT_LOGTYPE_NORMAL :: int where "RAFT_LOGTYPE_NORMAL \<equiv> 0"
abbreviation (input) RAFT_LOGTYPE_ADD_NONVOTING_NODE :: int where "RAFT_LOGTYPE_ADD_NONVOTING_NODE \<equiv> 1"
abbreviation (input) RAFT_LOGTYPE_ADD_NODE :: int where "RAFT_LOGTYPE_ADD_NODE \<equiv> 2"
abbreviation (input) RAFT_LOGTYPE_DEMOTE_NODE :: int where "RAFT_LOGTYPE_DEMOTE_NODE \<equiv> 3"
abbreviation (input) RAFT_LOGTYPE_REMOVE_NODE :: int where "RAFT_LOGTYPE_REMOVE_NODE \<equiv> 4"

record raft_entry =
  ety_term :: u16
  ety_idx :: u16
  ety_id :: u16
  ety_type :: int
  ety_data :: "u8 \<times> u8"

record msg_entry_response =
  er_id :: u16
  er_term :: int
  er_idx :: int

record msg_requestvote =
  rv_term :: int
  candidate_id :: int
  last_log_idx :: int
  last_log_term :: int

record msg_requestvote_response =
  rvr_term :: int
  vote_granted :: int

text \<open>
  \<open>entries\<close> is the chain of entries that starts at the \<^verbatim>\<open>entries\<close> pointer and follows the
  \<^verbatim>\<open>next\<close> fields; it is empty for \<^verbatim>\<open>NULL\<close>.  \<open>n_entries\<close> is a field of its own and need
  not be the length of the chain.
\<close>

record msg_appendentries =
  ae_term :: int
  prev_log_idx :: int
  prev_log_term :: int
  leader_commit :: int
  n_entries :: int
  entries :: "raft_entry list"

record msg_appendentries_response =
  aer_term :: int
  success :: int
  aer_current_idx :: int
  first_idx :: int

section \<open>Callbacks\<close>

record 'u raft_cbs =
  cb_send_requestvote :: "('u \<Rightarrow> raft_node \<Rightarrow> msg_requestvote \<Rightarrow> int \<times> 'u) option"
  cb_send_appendentries :: "('u \<Rightarrow> raft_node \<Rightarrow> msg_appendentries \<Rightarrow> int \<times> 'u) option"
  cb_send_snapshot :: "('u \<Rightarrow> raft_node \<Rightarrow> int \<times> 'u) option"
  cb_applylog :: "('u \<Rightarrow> raft_entry \<Rightarrow> int \<Rightarrow> int \<times> 'u) option"
  cb_persist_vote :: "('u \<Rightarrow> int \<Rightarrow> int \<times> 'u) option"
  cb_persist_term :: "('u \<Rightarrow> int \<Rightarrow> int \<Rightarrow> int \<times> 'u) option"
  cb_log_offer :: "('u \<Rightarrow> raft_entry \<Rightarrow> int \<Rightarrow> int \<times> 'u) option"
  cb_log_poll :: "('u \<Rightarrow> raft_entry \<Rightarrow> int \<Rightarrow> int \<times> 'u) option"
  cb_log_pop :: "('u \<Rightarrow> raft_entry \<Rightarrow> int \<Rightarrow> int \<times> 'u) option"
  cb_log_get_node_id :: "('u \<Rightarrow> raft_entry \<Rightarrow> int \<Rightarrow> int \<times> 'u) option"
  cb_node_has_sufficient_logs :: "('u \<Rightarrow> raft_node \<Rightarrow> int \<times> 'u) option"

definition no_cbs :: "'u raft_cbs" where
  "no_cbs =
     \<lparr>cb_send_requestvote = None, cb_send_appendentries = None, cb_send_snapshot = None,
      cb_applylog = None, cb_persist_vote = None, cb_persist_term = None, cb_log_offer = None,
      cb_log_poll = None, cb_log_pop = None, cb_log_get_node_id = None,
      cb_node_has_sufficient_logs = None\<rparr>"

section \<open>The log and the server\<close>

text \<open>
  \<^verbatim>\<open>me->cb\<close> of the log is either \<^verbatim>\<open>NULL\<close> or the server's own callback table
  (\<^verbatim>\<open>raft_set_callbacks\<close>), together with \<^verbatim>\<open>me->raft\<close>: the flag \<open>log_cb\<close> says which.
\<close>

record log_private =
  log_size :: int
  count :: int
  base :: int
  entries_list :: "nat list"
  log_cb :: bool

datatype raft_node_status =
    RAFT_NODE_STATUS_DISCONNECTED
  | RAFT_NODE_STATUS_CONNECTED
  | RAFT_NODE_STATUS_CONNECTING
  | RAFT_NODE_STATUS_DISCONNECTING

record 'u raft_server =
  current_term :: int
  voted_for :: int
  me_log :: log_private
  commit_idx :: int
  last_applied_idx :: int
  me_state :: raft_state_e
  timeout_elapsed :: int
  nodes_list :: "nat list"
  num_nodes :: int
  election_timeout :: int
  election_timeout_rand :: int
  request_timeout :: int
  current_leader :: "nat option"
  me_cb :: "'u raft_cbs"
  udata :: 'u
  me_node :: "nat option"
  voting_cfg_change_log_idx :: int
  connected :: raft_node_status
  snapshot_in_progress :: bool
  snapshot_last_idx :: int
  snapshot_last_term :: int
  entries_mem :: "nat \<Rightarrow> raft_entry"
  entries_used :: "nat set"
  nodes_mem :: "nat \<Rightarrow> raft_node"
  nodes_used :: "nat set"
  rand_calls :: nat

text \<open>Writing a node through a pointer.\<close>

definition upd_node :: "'u raft_server \<Rightarrow> nat \<Rightarrow> (raft_node \<Rightarrow> raft_node) \<Rightarrow> 'u raft_server" where
  "upd_node s a f = s\<lparr>nodes_mem := (nodes_mem s)(a := f (nodes_mem s a))\<rparr>"

text \<open>A loop over a list whose body may fault.\<close>

fun foreach :: "('a \<Rightarrow> 's \<Rightarrow> 's result) \<Rightarrow> 'a list \<Rightarrow> 's \<Rightarrow> 's result" where
  "foreach f [] s = Ok s"
| "foreach f (x # xs) s = bind (f x s) (foreach f xs)"

section \<open>Storage at the start of the program\<close>

text \<open>
  The server, the log, the pools and the lists are static objects, which C initialises with zeros.
\<close>

definition static_storage :: "'u \<Rightarrow> 'u raft_server" where
  "static_storage u =
     \<lparr>current_term = 0, voted_for = 0,
      me_log = \<lparr>log_size = 0, count = 0, base = 0, entries_list = [], log_cb = False\<rparr>,
      commit_idx = 0, last_applied_idx = 0, me_state = RAFT_STATE_NONE, timeout_elapsed = 0,
      nodes_list = [], num_nodes = 0, election_timeout = 0, election_timeout_rand = 0,
      request_timeout = 0, current_leader = None, me_cb = no_cbs, udata = u, me_node = None,
      voting_cfg_change_log_idx = 0, connected = RAFT_NODE_STATUS_DISCONNECTED,
      snapshot_in_progress = False, snapshot_last_idx = 0, snapshot_last_term = 0,
      entries_mem = (\<lambda>_. \<lparr>ety_term = 0, ety_idx = 0, ety_id = 0, ety_type = 0, ety_data = (0, 0)\<rparr>),
      entries_used = {}, nodes_mem = (\<lambda>_. \<lparr>next_idx = 0, match_idx = 0, flags = 0, node_id = 0\<rparr>),
      nodes_used = {}, rand_calls = 0\<rparr>"

text \<open>
  A server in the middle of its work, for the examples of the development: three voting nodes with
  the identifiers 1, 2 and 3, this server being the first, and a log of two entries of term 1.  Its
  callbacks count the messages they are asked to send in the user's data.
\<close>

definition sample_entry :: "u16 \<Rightarrow> u16 \<Rightarrow> raft_entry" where
  "sample_entry t i = \<lparr>ety_term = t, ety_idx = i, ety_id = 9, ety_type = 0, ety_data = (3, 4)\<rparr>"

definition sample_cbs :: "nat raft_cbs" where
  "sample_cbs =
     no_cbs\<lparr>cb_send_requestvote := Some (\<lambda>u n m. (0, u + 1)),
             cb_send_appendentries := Some (\<lambda>u n m. (0, u + 1)),
             cb_applylog := Some (\<lambda>u e i. (0, u + 1)),
             cb_log_offer := Some (\<lambda>u e i. (0, u + 1)),
             cb_log_pop := Some (\<lambda>u e i. (0, u + 1))\<rparr>"

definition sample_server :: "nat raft_server" where
  "sample_server =
     (static_storage 0)\<lparr>current_term := 1, voted_for := -1,
       me_log := \<lparr>log_size = 10, count = 2, base = 0, entries_list = [0, 1], log_cb = True\<rparr>,
       me_state := RAFT_STATE_FOLLOWER, nodes_list := [0, 1, 2], num_nodes := 3,
       election_timeout := 1000, election_timeout_rand := 1500, request_timeout := 200,
       me_cb := sample_cbs, me_node := Some 0, voting_cfg_change_log_idx := -1,
       entries_mem := (\<lambda>a. sample_entry 1 (if a = 0 then 1 else 2)), entries_used := {0, 1},
       nodes_mem := (\<lambda>a. \<lparr>next_idx = 3, match_idx = 0, flags = 2, node_id = int a + 1\<rparr>),
       nodes_used := {0, 1, 2}\<rparr>"

section \<open>Views of the state\<close>

text \<open>
  Groups of fields that operations change together.  A frame lemma says which views an operation
  leaves alone; \<open>views\<close> unfolds them.
\<close>

named_theorems views \<open>the views of the server state\<close>

definition election_of :: "'u raft_server \<Rightarrow> int \<times> int" where
  [views]: "election_of s = (current_term s, voted_for s)"

definition log_of :: "'u raft_server \<Rightarrow> log_private \<times> (nat \<Rightarrow> raft_entry) \<times> nat set" where
  [views]: "log_of s = (me_log s, entries_mem s, entries_used s)"

definition progress_of :: "'u raft_server \<Rightarrow> int \<times> int" where
  [views]: "progress_of s = (commit_idx s, last_applied_idx s)"

definition members_of ::
  "'u raft_server \<Rightarrow> nat list \<times> (nat \<Rightarrow> raft_node) \<times> nat set \<times> int \<times> nat option" where
  [views]: "members_of s = (nodes_list s, nodes_mem s, nodes_used s, num_nodes s, me_node s)"

definition config_of ::
  "'u raft_server \<Rightarrow> 'u raft_cbs \<times> int \<times> int \<times> bool \<times> int \<times> int" where
  [views]: "config_of s =
     (me_cb s, election_timeout s, request_timeout s,
      snapshot_in_progress s, snapshot_last_idx s, snapshot_last_term s)"

section \<open>Lemmas\<close>

lemma sample_fields [simp]:
  "current_term sample_server = 1" "voted_for sample_server = -1"
  "me_log sample_server =
     \<lparr>log_size = 10, count = 2, base = 0, entries_list = [0, 1], log_cb = True\<rparr>"
  "commit_idx sample_server = 0" "last_applied_idx sample_server = 0"
  "me_state sample_server = RAFT_STATE_FOLLOWER" "timeout_elapsed sample_server = 0"
  "nodes_list sample_server = [0, 1, 2]" "num_nodes sample_server = 3"
  "election_timeout sample_server = 1000" "election_timeout_rand sample_server = 1500"
  "request_timeout sample_server = 200" "current_leader sample_server = None"
  "me_cb sample_server = sample_cbs" "udata sample_server = 0" "me_node sample_server = Some 0"
  "voting_cfg_change_log_idx sample_server = -1"
  "connected sample_server = RAFT_NODE_STATUS_DISCONNECTED"
  "snapshot_in_progress sample_server = False"
  "snapshot_last_idx sample_server = 0" "snapshot_last_term sample_server = 0"
  "entries_mem sample_server = (\<lambda>a. sample_entry 1 (if a = 0 then 1 else 2))"
  "entries_used sample_server = {0, 1}"
  "nodes_mem sample_server =
     (\<lambda>a. \<lparr>next_idx = 3, match_idx = 0, flags = 2, node_id = int a + 1\<rparr>)"
  "nodes_used sample_server = {0, 1, 2}" "rand_calls sample_server = 0"
  by (simp_all add: sample_server_def static_storage_def)

lemma sample_cbs_fields [simp]:
  "cb_send_requestvote sample_cbs = Some (\<lambda>u n m. (0, u + 1))"
  "cb_send_appendentries sample_cbs = Some (\<lambda>u n m. (0, u + 1))"
  "cb_applylog sample_cbs = Some (\<lambda>u e i. (0, u + 1))"
  "cb_log_offer sample_cbs = Some (\<lambda>u e i. (0, u + 1))"
  "cb_log_pop sample_cbs = Some (\<lambda>u e i. (0, u + 1))"
  "cb_persist_vote sample_cbs = None" "cb_persist_term sample_cbs = None"
  "cb_send_snapshot sample_cbs = None" "cb_log_get_node_id sample_cbs = None"
  "cb_node_has_sufficient_logs sample_cbs = None"
  by (simp_all add: sample_cbs_def no_cbs_def)

lemma sample_entry_fields [simp]:
  "ety_term (sample_entry t i) = t" "ety_idx (sample_entry t i) = i"
  "ety_id (sample_entry t i) = 9" "ety_type (sample_entry t i) = 0"
  "ety_data (sample_entry t i) = (3, 4)"
  by (simp_all add: sample_entry_def)

lemma upd_node_nodes_mem [simp]:
  "nodes_mem (upd_node s a f) = (nodes_mem s)(a := f (nodes_mem s a))"
  by (simp add: upd_node_def)

lemma upd_node_other [simp]:
  "current_term (upd_node s a f) = current_term s"
  "voted_for (upd_node s a f) = voted_for s"
  "me_log (upd_node s a f) = me_log s"
  "commit_idx (upd_node s a f) = commit_idx s"
  "last_applied_idx (upd_node s a f) = last_applied_idx s"
  "me_state (upd_node s a f) = me_state s"
  "timeout_elapsed (upd_node s a f) = timeout_elapsed s"
  "nodes_list (upd_node s a f) = nodes_list s"
  "num_nodes (upd_node s a f) = num_nodes s"
  "election_timeout (upd_node s a f) = election_timeout s"
  "election_timeout_rand (upd_node s a f) = election_timeout_rand s"
  "request_timeout (upd_node s a f) = request_timeout s"
  "current_leader (upd_node s a f) = current_leader s"
  "me_cb (upd_node s a f) = me_cb s"
  "udata (upd_node s a f) = udata s"
  "me_node (upd_node s a f) = me_node s"
  "voting_cfg_change_log_idx (upd_node s a f) = voting_cfg_change_log_idx s"
  "connected (upd_node s a f) = connected s"
  "snapshot_in_progress (upd_node s a f) = snapshot_in_progress s"
  "snapshot_last_idx (upd_node s a f) = snapshot_last_idx s"
  "snapshot_last_term (upd_node s a f) = snapshot_last_term s"
  "entries_mem (upd_node s a f) = entries_mem s"
  "entries_used (upd_node s a f) = entries_used s"
  "nodes_used (upd_node s a f) = nodes_used s"
  "election_of (upd_node s a f) = election_of s"
  "log_of (upd_node s a f) = log_of s"
  "progress_of (upd_node s a f) = progress_of s"
  "config_of (upd_node s a f) = config_of s"
  "rand_calls (upd_node s a f) = rand_calls s"
  by (simp_all add: upd_node_def views)

text \<open>
  What a loop keeps: a relation between states that is reflexive and transitive and holds of every
  turn of the loop holds of the whole loop.
\<close>

lemma foreach_rel:
  assumes "\<And>s. R s s"
    and "\<And>s t u. R s t \<Longrightarrow> R t u \<Longrightarrow> R s u"
    and "\<And>x s. x \<in> set xs \<Longrightarrow> post (f x s) (R s)"
  shows "post (foreach f xs s) (R s)"
  using assms(3)
proof (induction xs arbitrary: s)
  case Nil
  then show ?case by (simp add: assms(1) wp)
next
  case (Cons x xs)
  have "post (f x s) (R s)" using Cons.prems by simp
  then show ?case
    unfolding foreach.simps wp
  proof (rule post_mono)
    fix t assume "R s t"
    have "post (foreach f xs t) (R t)" using Cons by auto
    then show "post (foreach f xs t) (R s)"
      by (rule post_mono) (rule assms(2) [OF \<open>R s t\<close>])
  qed
qed

end
