(* ===== verification/Raft_Properties.thy ===== *)
theory Raft_Properties
  imports Raft_Types
begin

text \<open>
  The reading side of the log (\<^verbatim>\<open>src/raft_log.c\<close>: counts, lookup by index, the suffix from
  an index, the tail) and the server's properties (\<^verbatim>\<open>src/raft_server_properties.c\<close>: getters,
  setters, node lookup, the term and commit-index setters).  The lemmas are the frame rules the later
  proofs use: which fields a setter leaves alone.
\<close>

section \<open>Reading the log\<close>

definition INITIAL_CAPACITY :: int where
  "INITIAL_CAPACITY = 10"

definition MAX_ENTRIES :: nat where
  "MAX_ENTRIES = 50"

text \<open>\<^verbatim>\<open>mod\<close>: the remainder of C has the sign of the dividend.\<close>

definition c_mod :: "int \<Rightarrow> int \<Rightarrow> int result" where
  "c_mod a b =
     (if b = 0 then Fault Div_By_Zero
      else bind (c_int (c_div a b)) (\<lambda>q.
           let r = a - q * b in if r < 0 then c_int (r + b) else Ok r))"

definition log_count :: "log_private \<Rightarrow> int" where
  "log_count l = count l"

definition log_get_base :: "log_private \<Rightarrow> int" where
  "log_get_base l = base l"

definition log_get_current_idx :: "log_private \<Rightarrow> int" where
  "log_get_current_idx l = log_count l + base l"

text \<open>The first element of the list whose index field is \<open>i\<close>.\<close>

definition find_idx :: "(nat \<Rightarrow> raft_entry) \<Rightarrow> nat list \<Rightarrow> int \<Rightarrow> nat option" where
  "find_idx mem xs i = find (\<lambda>a. ety_idx (mem a) = to_unsigned i) xs"

definition log_get_at_idx :: "'u raft_server \<Rightarrow> int \<Rightarrow> nat option" where
  "log_get_at_idx s i =
     (let l = me_log s in
      if i = 0 then None
      else if i \<le> base l then None
      else if base l + count l < i then None
      else find_idx (entries_mem s) (entries_list l) i)"

text \<open>
  The pointer and the number of entries (\<^verbatim>\<open>*n_etys\<close>).  The subtraction of the two index
  fields is unsigned, and its value is stored in an \<^verbatim>\<open>int\<close>.
\<close>

definition log_get_from_idx ::
  "contiki \<Rightarrow> 'u raft_server \<Rightarrow> int \<Rightarrow> (nat option \<times> int) result" where
  "log_get_from_idx ct s i =
     (let l = me_log s in
      bind (c_assert (0 \<le> i - 1)) (\<lambda>_.
      if base l + count l < i \<or> i < base l then Ok (None, 0)
      else
        let first_match_ety = find_idx (entries_mem s) (entries_list l) i;
            last_ety = ct_list_tail ct (entries_list l)
        in bind (deref last_ety) (\<lambda>la.
           bind (deref first_match_ety) (\<lambda>fa.
             Ok (first_match_ety,
                 to_signed (ety_idx (entries_mem s la) - ety_idx (entries_mem s fa) + 1))))))"

definition log_peektail :: "contiki \<Rightarrow> 'u raft_server \<Rightarrow> nat option" where
  "log_peektail ct s =
     (if count (me_log s) = 0 then None else ct_list_tail ct (entries_list (me_log s)))"

text \<open>
  \<^verbatim>\<open>log_get_next_entry\<close> follows the \<^verbatim>\<open>next\<close> field: in a chain of entries, the rest of it.
\<close>

definition log_get_next_entry :: "raft_entry list \<Rightarrow> raft_entry list" where
  "log_get_next_entry chain = (case chain of [] \<Rightarrow> [] | _ # rest \<Rightarrow> rest)"

definition log_empty :: "'u raft_server \<Rightarrow> 'u raft_server" where
  "log_empty s = s\<lparr>me_log := (me_log s)\<lparr>count := 0\<rparr>\<rparr>"

section \<open>Getters\<close>

definition raft_get_current_idx :: "'u raft_server \<Rightarrow> int" where
  "raft_get_current_idx s = log_get_current_idx (me_log s)"

definition raft_get_log_count :: "'u raft_server \<Rightarrow> int" where
  "raft_get_log_count s = log_count (me_log s)"

definition raft_get_entry_from_idx :: "'u raft_server \<Rightarrow> int \<Rightarrow> nat option" where
  "raft_get_entry_from_idx s etyidx = log_get_at_idx s etyidx"

definition raft_get_entries_from_idx ::
  "contiki \<Rightarrow> 'u raft_server \<Rightarrow> int \<Rightarrow> (nat option \<times> int) result" where
  "raft_get_entries_from_idx ct s i = log_get_from_idx ct s i"

definition raft_get_nodeid :: "'u raft_server \<Rightarrow> int" where
  "raft_get_nodeid s = (case me_node s of None \<Rightarrow> -1 | Some a \<Rightarrow> raft_node_get_id (nodes_mem s a))"

definition raft_get_current_term :: "'u raft_server \<Rightarrow> int" where
  "raft_get_current_term s = current_term s"

definition raft_get_commit_idx :: "'u raft_server \<Rightarrow> int" where
  "raft_get_commit_idx s = commit_idx s"

definition raft_get_last_applied_idx :: "'u raft_server \<Rightarrow> int" where
  "raft_get_last_applied_idx s = last_applied_idx s"

definition raft_get_voted_for :: "'u raft_server \<Rightarrow> int" where
  "raft_get_voted_for s = voted_for s"

definition raft_get_state :: "'u raft_server \<Rightarrow> raft_state_e" where
  "raft_get_state s = me_state s"

definition raft_is_follower :: "'u raft_server \<Rightarrow> bool" where
  "raft_is_follower s \<longleftrightarrow> raft_get_state s = RAFT_STATE_FOLLOWER"

definition raft_is_leader :: "'u raft_server \<Rightarrow> bool" where
  "raft_is_leader s \<longleftrightarrow> raft_get_state s = RAFT_STATE_LEADER"

definition raft_is_candidate :: "'u raft_server \<Rightarrow> bool" where
  "raft_is_candidate s \<longleftrightarrow> raft_get_state s = RAFT_STATE_CANDIDATE"

definition raft_snapshot_is_in_progress :: "'u raft_server \<Rightarrow> bool" where
  "raft_snapshot_is_in_progress s \<longleftrightarrow> snapshot_in_progress s"

definition raft_get_num_voting_nodes :: "'u raft_server \<Rightarrow> int" where
  "raft_get_num_voting_nodes s =
     int (length (filter (\<lambda>a. raft_node_is_active (nodes_mem s a) \<and>
                              raft_node_is_voting (nodes_mem s a)) (nodes_list s)))"

definition raft_get_node :: "'u raft_server \<Rightarrow> int \<Rightarrow> nat option" where
  "raft_get_node s nodeid = find (\<lambda>a. nodeid = raft_node_get_id (nodes_mem s a)) (nodes_list s)"

definition raft_get_my_node :: "'u raft_server \<Rightarrow> nat option" where
  "raft_get_my_node s =
     find (\<lambda>a. raft_get_nodeid s = raft_node_get_id (nodes_mem s a)) (nodes_list s)"

text \<open>The loop stops at the end of the list or after \<^verbatim>\<open>num_nodes\<close> elements.\<close>

definition raft_get_node_from_idx :: "'u raft_server \<Rightarrow> int \<Rightarrow> nat option" where
  "raft_get_node_from_idx s i =
     (if 0 \<le> i \<and> i < num_nodes s \<and> i < int (length (nodes_list s))
      then Some (nodes_list s ! nat i) else None)"

definition raft_get_current_leader :: "'u raft_server \<Rightarrow> int" where
  "raft_get_current_leader s =
     (case current_leader s of Some a \<Rightarrow> raft_node_get_id (nodes_mem s a) | None \<Rightarrow> -1)"

definition raft_get_last_log_term :: "'u raft_server \<Rightarrow> int" where
  "raft_get_last_log_term s =
     (let cur = raft_get_current_idx s in
      if 0 < cur
      then (case raft_get_entry_from_idx s cur of
              Some a \<Rightarrow> to_signed (ety_term (entries_mem s a))
            | None \<Rightarrow> 0)
      else 0)"

definition raft_get_last_applied_entry :: "'u raft_server \<Rightarrow> nat option" where
  "raft_get_last_applied_entry s =
     (if raft_get_last_applied_idx s = 0 then None
      else log_get_at_idx s (raft_get_last_applied_idx s))"

definition raft_already_voted :: "'u raft_server \<Rightarrow> bool" where
  "raft_already_voted s \<longleftrightarrow> voted_for s \<noteq> -1"

definition raft_voting_change_is_in_progress :: "'u raft_server \<Rightarrow> bool" where
  "raft_voting_change_is_in_progress s \<longleftrightarrow> voting_cfg_change_log_idx s \<noteq> -1"

definition raft_get_num_snapshottable_logs :: "'u raft_server \<Rightarrow> int result" where
  "raft_get_num_snapshottable_logs s =
     (if raft_get_log_count s \<le> 1 then Ok 0
      else c_int (raft_get_commit_idx s - log_get_base (me_log s)))"

definition raft_get_first_entry_idx :: "'u raft_server \<Rightarrow> int result" where
  "raft_get_first_entry_idx s =
     bind (c_assert (0 < raft_get_current_idx s)) (\<lambda>_.
     Ok (if snapshot_last_idx s = 0 then 1 else snapshot_last_idx s))"

definition raft_get_udata :: "'u raft_server \<Rightarrow> 'u" where
  "raft_get_udata s = udata s"

definition raft_get_election_timeout :: "'u raft_server \<Rightarrow> int" where
  "raft_get_election_timeout s = election_timeout s"

definition raft_get_request_timeout :: "'u raft_server \<Rightarrow> int" where
  "raft_get_request_timeout s = request_timeout s"

definition raft_get_num_nodes :: "'u raft_server \<Rightarrow> int" where
  "raft_get_num_nodes s = num_nodes s"

definition raft_get_timeout_elapsed :: "'u raft_server \<Rightarrow> int" where
  "raft_get_timeout_elapsed s = timeout_elapsed s"

definition raft_is_connected :: "'u raft_server \<Rightarrow> raft_node_status" where
  "raft_is_connected s = connected s"

definition raft_get_snapshot_last_idx :: "'u raft_server \<Rightarrow> int" where
  "raft_get_snapshot_last_idx s = snapshot_last_idx s"

definition raft_get_snapshot_last_term :: "'u raft_server \<Rightarrow> int" where
  "raft_get_snapshot_last_term s = snapshot_last_term s"

definition raft_get_current_leader_node :: "'u raft_server \<Rightarrow> nat option" where
  "raft_get_current_leader_node s = current_leader s"

section \<open>Setters\<close>

text \<open>
  \<^verbatim>\<open>random_rand\<close> returns an \<^verbatim>\<open>unsigned short\<close>, which promotes to \<^verbatim>\<open>unsigned int\<close> on a
  target whose \<^verbatim>\<open>int\<close> has 16 bits; the remainder and the sum are therefore unsigned, and the sum
  is converted back when it is stored.
\<close>

definition raft_randomize_election_timeout ::
  "contiki \<Rightarrow> 'u raft_server \<Rightarrow> 'u raft_server result" where
  "raft_randomize_election_timeout ct s =
     (if election_timeout s = 0 then Fault Div_By_Zero
      else
        let et = to_unsigned (election_timeout s);
            r = ct_random_rand ct (rand_calls s)
        in Ok (s\<lparr>rand_calls := Suc (rand_calls s),
                 election_timeout_rand := to_signed (et + r mod et)\<rparr>))"

definition raft_set_election_timeout ::
  "contiki \<Rightarrow> 'u raft_server \<Rightarrow> int \<Rightarrow> 'u raft_server result" where
  "raft_set_election_timeout ct s millisec =
     raft_randomize_election_timeout ct (s\<lparr>election_timeout := millisec\<rparr>)"

definition raft_set_request_timeout :: "'u raft_server \<Rightarrow> int \<Rightarrow> 'u raft_server" where
  "raft_set_request_timeout s millisec = s\<lparr>request_timeout := millisec\<rparr>"

definition raft_set_current_term :: "'u raft_server \<Rightarrow> int \<Rightarrow> int \<times> 'u raft_server" where
  "raft_set_current_term s t =
     (if current_term s < t
      then case cb_persist_term (me_cb s) of
             Some persist_term \<Rightarrow>
               let (e, u) = persist_term (udata s) t (-1); s = s\<lparr>udata := u\<rparr>
               in if e \<noteq> 0 then (e, s) else (0, s\<lparr>current_term := t, voted_for := -1\<rparr>)
           | None \<Rightarrow> (0, s\<lparr>current_term := t, voted_for := -1\<rparr>)
      else (0, s))"

definition raft_set_commit_idx :: "'u raft_server \<Rightarrow> int \<Rightarrow> 'u raft_server result" where
  "raft_set_commit_idx s i =
     bind (c_assert (commit_idx s \<le> i)) (\<lambda>_.
     bind (c_assert (i \<le> raft_get_current_idx s)) (\<lambda>_.
     Ok (s\<lparr>commit_idx := i\<rparr>)))"

definition raft_set_last_applied_idx :: "'u raft_server \<Rightarrow> int \<Rightarrow> 'u raft_server" where
  "raft_set_last_applied_idx s i = s\<lparr>last_applied_idx := i\<rparr>"

definition raft_set_state :: "'u raft_server \<Rightarrow> raft_state_e \<Rightarrow> 'u raft_server" where
  "raft_set_state s st =
     (if st = RAFT_STATE_LEADER then s\<lparr>current_leader := me_node s, me_state := st\<rparr>
      else s\<lparr>me_state := st\<rparr>)"

definition raft_set_snapshot_metadata :: "'u raft_server \<Rightarrow> int \<Rightarrow> int \<Rightarrow> 'u raft_server" where
  "raft_set_snapshot_metadata s t i = s\<lparr>snapshot_last_term := t, snapshot_last_idx := i\<rparr>"

section \<open>Entries that change the configuration\<close>

definition raft_entry_is_voting_cfg_change :: "raft_entry \<Rightarrow> bool" where
  "raft_entry_is_voting_cfg_change ety \<longleftrightarrow>
     RAFT_LOGTYPE_ADD_NODE = ety_type ety \<or> RAFT_LOGTYPE_DEMOTE_NODE = ety_type ety"

definition raft_entry_is_cfg_change :: "raft_entry \<Rightarrow> bool" where
  "raft_entry_is_cfg_change ety \<longleftrightarrow>
     RAFT_LOGTYPE_ADD_NODE = ety_type ety \<or>
     RAFT_LOGTYPE_ADD_NONVOTING_NODE = ety_type ety \<or>
     RAFT_LOGTYPE_DEMOTE_NODE = ety_type ety \<or>
     RAFT_LOGTYPE_REMOVE_NODE = ety_type ety"

text \<open>Neither the index nor the term of an entry matters for its kind.\<close>

lemma cfg_change_upd [simp]:
  "raft_entry_is_cfg_change (e\<lparr>ety_idx := w\<rparr>) = raft_entry_is_cfg_change e"
  "raft_entry_is_cfg_change (e\<lparr>ety_term := w\<rparr>) = raft_entry_is_cfg_change e"
  "raft_entry_is_voting_cfg_change (e\<lparr>ety_idx := w\<rparr>) = raft_entry_is_voting_cfg_change e"
  "raft_entry_is_voting_cfg_change (e\<lparr>ety_term := w\<rparr>) = raft_entry_is_voting_cfg_change e"
  by (simp_all add: raft_entry_is_cfg_change_def raft_entry_is_voting_cfg_change_def)

end
