(* ===== verification/Raft_Membership.thy ===== *)
theory Raft_Membership
  imports Raft_Properties
begin

text \<open>
  Cluster membership: allocation of nodes (\<^verbatim>\<open>raft_node_new\<close>, \<^verbatim>\<open>raft_node_free\<close>), adding
  and removing them, and the two hooks by which a configuration entry changes the membership when it
  enters the log (\<^verbatim>\<open>raft_offer_log\<close>) and when it is taken back out (\<^verbatim>\<open>raft_pop_log\<close>).
\<close>

section \<open>Allocation\<close>

definition raft_node_new ::
  "contiki \<Rightarrow> 'u raft_server \<Rightarrow> int \<Rightarrow> nat option \<times> 'u raft_server" where
  "raft_node_new ct s i =
     (case ct_memb_alloc ct MAX_NODES (nodes_used s) of
        (None, used) \<Rightarrow> (None, s\<lparr>nodes_used := used\<rparr>)
      | (Some b, used) \<Rightarrow>
          (Some b, s\<lparr>nodes_used := used, nodes_mem := (nodes_mem s)(b := raft_node_init i)\<rparr>))"

definition raft_node_free :: "contiki \<Rightarrow> 'u raft_server \<Rightarrow> nat \<Rightarrow> 'u raft_server" where
  "raft_node_free ct s a = s\<lparr>nodes_used := ct_memb_free ct MAX_NODES (nodes_used s) a\<rparr>"

text \<open>\<^verbatim>\<open>raft_node_set_voting\<close> through a pointer.\<close>

definition set_voting_at :: "'u raft_server \<Rightarrow> nat \<Rightarrow> bool \<Rightarrow> 'u raft_server result" where
  "set_voting_at s a v =
     bind (raft_node_set_voting (nodes_mem s a) v) (\<lambda>n. Ok (upd_node s a (\<lambda>_. n)))"

section \<open>Adding and removing nodes\<close>

definition raft_add_node ::
  "contiki \<Rightarrow> 'u raft_server \<Rightarrow> int \<Rightarrow> bool \<Rightarrow> (nat option \<times> 'u raft_server) result" where
  "raft_add_node ct s i is_self =
     (case raft_get_node s i of
        Some a \<Rightarrow>
          if \<not> raft_node_is_voting (nodes_mem s a)
          then bind (set_voting_at s a True) (\<lambda>s. Ok (Some a, s))
          else Ok (None, s)
      | None \<Rightarrow>
          (case raft_node_new ct s i of
             (None, s) \<Rightarrow> Ok (None, s)
           | (Some a, s) \<Rightarrow>
               let s = s\<lparr>nodes_list := ct_list_add ct (nodes_list s) a\<rparr>
               in bind (c_int (num_nodes s + 1)) (\<lambda>nn.
                  let s = s\<lparr>num_nodes := nn\<rparr>;
                      s = (if is_self then s\<lparr>me_node := Some a\<rparr> else s)
                  in Ok (Some a, s))))"

definition raft_add_non_voting_node ::
  "contiki \<Rightarrow> 'u raft_server \<Rightarrow> int \<Rightarrow> bool \<Rightarrow> (nat option \<times> 'u raft_server) result" where
  "raft_add_non_voting_node ct s i is_self =
     (if raft_get_node s i \<noteq> None then Ok (None, s)
      else bind (raft_add_node ct s i is_self) (\<lambda>(p, s).
           case p of
             None \<Rightarrow> Ok (None, s)
           | Some a \<Rightarrow> bind (set_voting_at s a False) (\<lambda>s. Ok (Some a, s))))"

text \<open>
  The source removes from \<^verbatim>\<open>*(me->nodes_list)\<close>, one indirection too many: a list is a pointer to
  its head pointer and the first field of a node is its \<^verbatim>\<open>next\<close> pointer, so the argument denotes
  the list that starts \<^emph>\<open>after\<close> the first node.  For an empty list the argument is \<^verbatim>\<open>NULL\<close>.
\<close>

definition raft_remove_node ::
  "contiki \<Rightarrow> 'u raft_server \<Rightarrow> nat option \<Rightarrow> 'u raft_server result" where
  "raft_remove_node ct s p =
     (case p of
        None \<Rightarrow> Fault Assert_Failed
      | Some a \<Rightarrow>
          (case nodes_list s of
             [] \<Rightarrow> Fault Null_Deref
           | h # t \<Rightarrow>
               let s = s\<lparr>nodes_list := h # ct_list_remove ct t a\<rparr>
               in bind (c_int (num_nodes s - 1)) (\<lambda>nn.
                  Ok (raft_node_free ct (s\<lparr>num_nodes := nn\<rparr>) a))))"

section \<open>Configuration entries entering and leaving the log\<close>

definition call_log_get_node_id ::
  "'u raft_server \<Rightarrow> raft_entry \<Rightarrow> int \<Rightarrow> (int \<times> 'u raft_server) result" where
  "call_log_get_node_id s ety i =
     bind (deref (cb_log_get_node_id (me_cb s))) (\<lambda>log_get_node_id.
     let (nid, u) = log_get_node_id (udata s) ety i in Ok (nid, s\<lparr>udata := u\<rparr>))"

definition raft_offer_log ::
  "contiki \<Rightarrow> 'u raft_server \<Rightarrow> raft_entry \<Rightarrow> int \<Rightarrow> 'u raft_server result" where
  "raft_offer_log ct s ety i =
     (if \<not> raft_entry_is_cfg_change ety then Ok s
      else
        bind (call_log_get_node_id s ety i) (\<lambda>(nid, s).
        let node = raft_get_node s nid;
            is_self = (nid = raft_get_nodeid s);
            ty = ety_type ety
        in
        if ty = RAFT_LOGTYPE_ADD_NONVOTING_NODE then
          (if \<not> is_self then
             (case node of
                Some a \<Rightarrow>
                  if \<not> raft_node_is_active (nodes_mem s a)
                  then Ok (upd_node s a (\<lambda>n. raft_node_set_active n True))
                  else Ok s
              | None \<Rightarrow>
                  bind (raft_add_non_voting_node ct s nid is_self) (\<lambda>(p, s).
                  bind (c_assert (p \<noteq> None)) (\<lambda>_. Ok s)))
           else Ok s)
        else if ty = RAFT_LOGTYPE_ADD_NODE then
          bind (raft_add_node ct s nid is_self) (\<lambda>(p, s).
          case p of
            None \<Rightarrow> Fault Assert_Failed
          | Some a \<Rightarrow> bind (c_assert (raft_node_is_voting (nodes_mem s a))) (\<lambda>_. Ok s))
        else if ty = RAFT_LOGTYPE_DEMOTE_NODE then
          (case node of Some a \<Rightarrow> set_voting_at s a False | None \<Rightarrow> Ok s)
        else if ty = RAFT_LOGTYPE_REMOVE_NODE then
          (case node of
             Some a \<Rightarrow> Ok (upd_node s a (\<lambda>n. raft_node_set_active n False))
           | None \<Rightarrow> Ok s)
        else Fault Assert_Failed))"

definition raft_pop_log ::
  "contiki \<Rightarrow> 'u raft_server \<Rightarrow> raft_entry \<Rightarrow> int \<Rightarrow> 'u raft_server result" where
  "raft_pop_log ct s ety i =
     (if \<not> raft_entry_is_cfg_change ety then Ok s
      else
        bind (call_log_get_node_id s ety i) (\<lambda>(nid, s).
        let node = raft_get_node s nid;
            ty = ety_type ety
        in
        if ty = RAFT_LOGTYPE_DEMOTE_NODE then
          bind (deref node) (\<lambda>a. set_voting_at s a True)
        else if ty = RAFT_LOGTYPE_REMOVE_NODE then
          bind (deref node) (\<lambda>a. Ok (upd_node s a (\<lambda>n. raft_node_set_active n True)))
        else if ty = RAFT_LOGTYPE_ADD_NONVOTING_NODE then
          let is_self = (nid = raft_get_nodeid s) in
          bind (raft_remove_node ct s node) (\<lambda>s.
          bind (c_assert (\<not> is_self)) (\<lambda>_. Ok s))
        else if ty = RAFT_LOGTYPE_ADD_NODE then
          bind (deref node) (\<lambda>a. set_voting_at s a False)
        else Fault Assert_Failed))"

section \<open>Frame: membership changes nothing else\<close>

text \<open>
  A membership operation changes the nodes and the user's data; terms, votes, log, commit index,
  role and configuration stay.
\<close>

definition membership_step :: "'u raft_server \<Rightarrow> 'u raft_server \<Rightarrow> bool" where
  "membership_step s s' \<longleftrightarrow>
     election_of s' = election_of s \<and> log_of s' = log_of s \<and> progress_of s' = progress_of s \<and>
     config_of s' = config_of s \<and> me_state s' = me_state s \<and>
     current_leader s' = current_leader s \<and> timeout_elapsed s' = timeout_elapsed s \<and>
     election_timeout_rand s' = election_timeout_rand s \<and>
     voting_cfg_change_log_idx s' = voting_cfg_change_log_idx s"

lemma membership_step_refl [simp]: "membership_step s s"
  by (simp add: membership_step_def)

lemma membership_step_trans:
  "membership_step s t \<Longrightarrow> membership_step t u \<Longrightarrow> membership_step s u"
  by (simp add: membership_step_def)

lemma upd_node_step [simp]: "membership_step s (upd_node s a f)"
  by (simp add: membership_step_def)

lemma set_voting_at_frame: "post (set_voting_at s a v) (membership_step s)"
  by (auto simp: set_voting_at_def wp post_def)

lemma raft_add_node_frame:
  "post (raft_add_node ct s i is_self) (\<lambda>(p, s'). membership_step s s')"
  unfolding raft_add_node_def
  by (auto simp: Let_def wp raft_node_new_def membership_step_def views
      split: option.split prod.split intro!: post_mono [OF set_voting_at_frame])

lemma raft_add_non_voting_node_frame:
  "post (raft_add_non_voting_node ct s i is_self) (\<lambda>(p, s'). membership_step s s')"
  unfolding raft_add_non_voting_node_def
  by (auto simp: wp membership_step_def split: option.split
      intro!: post_mono [OF raft_add_node_frame] post_mono [OF set_voting_at_frame])

lemma raft_remove_node_frame: "post (raft_remove_node ct s p) (membership_step s)"
  by (auto simp: raft_remove_node_def raft_node_free_def Let_def wp membership_step_def views
      split: option.split list.split)

lemma call_log_get_node_id_frame:
  "post (call_log_get_node_id s ety i) (\<lambda>(nid, s'). membership_step s s' \<and> members_of s' = members_of s)"
  by (auto simp: call_log_get_node_id_def wp case_prod_beta membership_step_def views)

lemmas membership_posts =
  post_mono [OF set_voting_at_frame] post_mono [OF raft_add_node_frame]
  post_mono [OF raft_add_non_voting_node_frame] post_mono [OF raft_remove_node_frame]

lemma raft_offer_log_frame: "post (raft_offer_log ct s ety i) (membership_step s)"
  unfolding raft_offer_log_def
  by (auto simp: wp Let_def membership_step_def split: option.split
      intro!: post_mono [OF call_log_get_node_id_frame] membership_posts)

lemma raft_pop_log_frame: "post (raft_pop_log ct s ety i) (membership_step s)"
  unfolding raft_pop_log_def
  by (auto simp: wp Let_def membership_step_def split: option.split
      intro!: post_mono [OF call_log_get_node_id_frame] membership_posts)

section \<open>Well-formed membership\<close>

text \<open>
  The pool holds exactly the nodes of the list, the counter agrees with it, identifiers are unique and
  this server's own node is listed.
\<close>

definition node_ids :: "'u raft_server \<Rightarrow> int list" where
  "node_ids s = map (\<lambda>a. node_id (nodes_mem s a)) (nodes_list s)"

definition nodes_wf :: "'u raft_server \<Rightarrow> bool" where
  "nodes_wf s \<longleftrightarrow>
     distinct (nodes_list s) \<and> set (nodes_list s) \<subseteq> {..<MAX_NODES} \<and>
     nodes_used s = set (nodes_list s) \<and> num_nodes s = int (length (nodes_list s)) \<and>
     distinct (node_ids s) \<and> (\<forall>m. me_node s = Some m \<longrightarrow> m \<in> set (nodes_list s))"


lemma nodes_wf_length: "nodes_wf s \<Longrightarrow> length (nodes_list s) \<le> MAX_NODES"
proof -
  assume wf: "nodes_wf s"
  then have "card (set (nodes_list s)) \<le> card {..<MAX_NODES}"
    by (intro card_mono) (auto simp: nodes_wf_def)
  with wf show ?thesis by (simp add: nodes_wf_def distinct_card)
qed

lemma raft_get_node_Some:
  "raft_get_node s i = Some a \<Longrightarrow> a \<in> set (nodes_list s) \<and> node_id (nodes_mem s a) = i"
  by (auto simp: raft_get_node_def find_Some_iff node_get_defs in_set_conv_nth)

lemma raft_get_node_None:
  "raft_get_node s i = None \<longleftrightarrow> i \<notin> set (node_ids s)"
  by (auto simp: raft_get_node_def find_None_iff node_get_defs node_ids_def)

text \<open>In a well-formed membership the lookup finds the node with the identifier.\<close>

lemma raft_get_node_wf:
  assumes "nodes_wf s" "a \<in> set (nodes_list s)"
  shows "raft_get_node s (node_id (nodes_mem s a)) = Some a"
proof (cases "raft_get_node s (node_id (nodes_mem s a))")
  case None
  then show ?thesis using assms(2) by (auto simp: raft_get_node_None node_ids_def)
next
  case (Some b)
  then have "b \<in> set (nodes_list s)" "node_id (nodes_mem s b) = node_id (nodes_mem s a)"
    by (auto dest: raft_get_node_Some)
  moreover have "inj_on (\<lambda>a. node_id (nodes_mem s a)) (set (nodes_list s))"
    using assms(1) by (simp add: nodes_wf_def node_ids_def distinct_map)
  ultimately have "b = a" using assms(2) by (auto dest: inj_onD)
  with Some show ?thesis by simp
qed

lemma sample_nodes_wf [simp]: "nodes_wf sample_server"
  by (auto simp: nodes_wf_def node_ids_def MAX_NODES_def)

subsection \<open>Adding a node\<close>

lemma raft_add_node_new:
  assumes "contiki_ok ct" "nodes_wf s" "raft_get_node s i = None" "length (nodes_list s) < MAX_NODES"
  obtains a where "a \<notin> set (nodes_list s)" "a < MAX_NODES"
    "raft_add_node ct s i is_self =
       Ok (Some a, s\<lparr>nodes_used := insert a (nodes_used s),
                    nodes_mem := (nodes_mem s)(a := raft_node_init i),
                    nodes_list := nodes_list s @ [a], num_nodes := num_nodes s + 1,
                    me_node := (if is_self then Some a else me_node s)\<rparr>)"
proof -
  have fin: "finite (nodes_used s)" "card (nodes_used s) < MAX_NODES"
    using assms(2,4) by (auto simp: nodes_wf_def distinct_card)
  from ct_memb_alloc_free [OF assms(1) free_block_exists [OF fin]] obtain a where
    a: "a < MAX_NODES" "a \<notin> nodes_used s"
      "ct_memb_alloc ct MAX_NODES (nodes_used s) = (Some a, insert a (nodes_used s))" .
  have "in_int (num_nodes s + 1)"
    using assms(2,4) by (simp add: nodes_wf_def in_int_iff MAX_NODES_def)
  with a assms show ?thesis
    by (intro that [of a])
       (auto simp: raft_add_node_def raft_node_new_def contiki_simps nodes_wf_def Let_def)
qed

lemma add_node_wf:
  assumes "nodes_wf s" "a \<notin> set (nodes_list s)" "a < MAX_NODES" "raft_get_node s i = None"
  shows "nodes_wf (s\<lparr>nodes_used := insert a (nodes_used s),
                    nodes_mem := (nodes_mem s)(a := raft_node_init i),
                    nodes_list := nodes_list s @ [a], num_nodes := num_nodes s + 1,
                    me_node := (if is_self then Some a else me_node s)\<rparr>)" (is "nodes_wf ?s'")
proof -
  have "node_ids ?s' = node_ids s @ [i]"
    using assms(2) by (auto simp: node_ids_def)
  with assms show ?thesis
    by (auto simp: nodes_wf_def raft_get_node_None)
qed

text \<open>
  C17: Adding a node, on every branch.  A known voting node is refused and nothing changes; a known
  non-voting node becomes voting; with the pool full the call returns \<^verbatim>\<open>NULL\<close> and nothing changes;
  otherwise a fresh voting node with the identifier is appended to the list, is found by its
  identifier, and becomes this server's own node when \<^verbatim>\<open>is_self\<close> is set.  The membership stays
  well-formed.
\<close>

theorem raft_add_node_spec:
  assumes "contiki_ok ct" "nodes_wf s"
  shows "\<exists>p s'. raft_add_node ct s i is_self = Ok (p, s') \<and> nodes_wf s' \<and>
    (case raft_get_node s i of
       Some a \<Rightarrow>
         if raft_node_is_voting (nodes_mem s a) then p = None \<and> s' = s
         else p = Some a \<and> nodes_list s' = nodes_list s \<and>
              node_view (nodes_mem s' a) = (node_view (nodes_mem s a))\<lparr>voting := True\<rparr> \<and>
              (\<forall>b. b \<noteq> a \<longrightarrow> nodes_mem s' b = nodes_mem s b)
     | None \<Rightarrow>
         if length (nodes_list s) = MAX_NODES then p = None \<and> s' = s
         else \<exists>a. p = Some a \<and> a \<notin> set (nodes_list s) \<and> nodes_list s' = nodes_list s @ [a] \<and>
                  nodes_mem s' = (nodes_mem s)(a := raft_node_init i) \<and>
                  raft_get_node s' i = Some a \<and>
                  me_node s' = (if is_self then Some a else me_node s))"
proof (cases "raft_get_node s i")
  case (Some a)
  show ?thesis
  proof (cases "raft_node_is_voting (nodes_mem s a)")
    case True
    then show ?thesis using Some assms by (simp add: raft_add_node_def)
  next
    case False
    then obtain n where n: "raft_node_set_voting (nodes_mem s a) True = Ok n"
      using raft_node_set_voting_iff [of "nodes_mem s a" True] by auto
    have "node_view n = (node_view (nodes_mem s a))\<lparr>voting := True\<rparr>" "node_id n = node_id (nodes_mem s a)"
      using raft_node_set_voting_reads [OF n] by (simp_all add: node_view_def node_get_defs)
    moreover from this(2) have "node_ids (upd_node s a (\<lambda>_. n)) = node_ids s"
      by (simp add: node_ids_def)
    ultimately show ?thesis
      using Some False n assms(2) by (auto simp: raft_add_node_def set_voting_at_def nodes_wf_def)
  qed
next
  case None
  show ?thesis
  proof (cases "length (nodes_list s) = MAX_NODES")
    case True
    have "{..<MAX_NODES} \<subseteq> nodes_used s"
      using assms(2) True card_subset_eq [of "{..<MAX_NODES}" "set (nodes_list s)"]
      by (simp add: nodes_wf_def distinct_card)
    then show ?thesis
      using None True assms
      by (simp add: raft_add_node_def raft_node_new_def ct_memb_alloc_full)
  next
    case False
    then have "length (nodes_list s) < MAX_NODES" using nodes_wf_length [OF assms(2)] by simp
    from raft_add_node_new [OF assms None this, of is_self] obtain a where
      a: "a \<notin> set (nodes_list s)" "a < MAX_NODES"
      "raft_add_node ct s i is_self =
         Ok (Some a, s\<lparr>nodes_used := insert a (nodes_used s),
                      nodes_mem := (nodes_mem s)(a := raft_node_init i),
                      nodes_list := nodes_list s @ [a], num_nodes := num_nodes s + 1,
                      me_node := (if is_self then Some a else me_node s)\<rparr>)" (is "_ = Ok (_, ?s')") .
    have wf': "nodes_wf ?s'" using add_node_wf [OF assms(2) a(1,2) None, of is_self] by simp
    moreover have "raft_get_node ?s' i = Some a"
      using raft_get_node_wf [OF wf', of a] by simp
    ultimately show ?thesis using None False a by auto
  qed
qed

theorem raft_add_node_spec_witness:
  "\<exists>a s'. raft_add_node ref_contiki sample_server 4 False = Ok (Some a, s') \<and>
     nodes_list s' = [0, 1, 2, a] \<and> raft_get_node s' 4 = Some a"
proof -
  have "raft_get_node sample_server 4 = None" by (simp add: raft_get_node_None node_ids_def)
  with raft_add_node_spec [OF ref_contiki_ok sample_nodes_wf, of 4 False] show ?thesis
    by (auto simp: MAX_NODES_def)
qed

subsection \<open>Removing a node\<close>

lemma raft_remove_node_run:
  assumes "contiki_ok ct" "nodes_wf s" "a \<in> set (nodes_list s)"
  shows "raft_remove_node ct s (Some a) =
    Ok (s\<lparr>nodes_list := hd (nodes_list s) # filter (\<lambda>b. b \<noteq> a) (tl (nodes_list s)),
          num_nodes := num_nodes s - 1, nodes_used := nodes_used s - {a}\<rparr>)"
proof -
  obtain h t where ht: "nodes_list s = h # t" using assms(3) by (cases "nodes_list s") auto
  have "in_int (num_nodes s - 1)" "a < MAX_NODES" "distinct t"
    using assms nodes_wf_length [OF assms(2)] ht
    by (auto simp: nodes_wf_def in_int_iff MAX_NODES_def)
  with ht assms(1) show ?thesis
    by (simp add: raft_remove_node_def raft_node_free_def contiki_simps Let_def)
qed

text \<open>
  C26: Removing a listed node other than this server's own frees its block and decrements the
  counter.  Any node but the first is taken out of the list, is not found any more, and the membership
  stays well-formed.  The first node stays in the list although its block was freed, and the
  membership is not well-formed any more.
\<close>

theorem raft_remove_node_spec:
  assumes "contiki_ok ct" "nodes_wf s" "a \<in> set (nodes_list s)" "me_node s \<noteq> Some a"
  shows "\<exists>s'. raft_remove_node ct s (Some a) = Ok s' \<and>
    nodes_used s' = nodes_used s - {a} \<and> num_nodes s' = num_nodes s - 1 \<and>
    nodes_mem s' = nodes_mem s \<and>
    (if a = hd (nodes_list s) then nodes_list s' = nodes_list s \<and> \<not> nodes_wf s'
     else nodes_list s' = filter (\<lambda>b. b \<noteq> a) (nodes_list s) \<and> nodes_wf s' \<and>
          raft_get_node s' (node_id (nodes_mem s a)) = None)"
proof -
  obtain h t where ht: "nodes_list s = h # t" using assms(3) by (cases "nodes_list s") auto
  let ?s' = "s\<lparr>nodes_list := h # filter (\<lambda>b. b \<noteq> a) t,
               num_nodes := num_nodes s - 1, nodes_used := nodes_used s - {a}\<rparr>"
  have run: "raft_remove_node ct s (Some a) = Ok ?s'"
    using raft_remove_node_run [OF assms(1-3)] ht by simp
  show ?thesis
  proof (cases "a = h")
    case True
    then have "a \<notin> set t" using assms(2) ht by (simp add: nodes_wf_def)
    then have "filter (\<lambda>b. b \<noteq> a) t = t" by (simp add: filter_id_conv) metis
    with True show ?thesis using run ht assms(3) by (auto simp: nodes_wf_def)
  next
    case False
    with assms(3) ht have "a \<in> set t" by simp
    then have "0 < length t" by (auto intro: length_pos_if_in_set)
    moreover have "length (filter (\<lambda>b. b \<noteq> a) t) = length t - 1"
      using assms(2) ht length_remove1 [of a t] \<open>a \<in> set t\<close>
      by (simp add: nodes_wf_def distinct_remove1_removeAll removeAll_filter_not_eq eq_commute [of a])
    ultimately have len: "int (length (filter (\<lambda>b. b \<noteq> a) t)) = int (length t) - 1"
      by linarith
    have inj: "inj_on (\<lambda>a. node_id (nodes_mem s a)) (insert h (set t))"
      using assms(2) ht by (auto simp: nodes_wf_def node_ids_def distinct_map)
    have "nodes_wf ?s'"
      using assms(2,4) ht False len inj
      by (auto simp: nodes_wf_def node_ids_def distinct_map intro: inj_on_subset)
    moreover have "node_id (nodes_mem s a) \<notin> set (node_ids ?s')"
      using inj [unfolded inj_on_def] False \<open>a \<in> set t\<close> by (auto simp: node_ids_def)
    ultimately show ?thesis using run ht False by (auto simp: raft_get_node_None)
  qed
qed

theorem raft_remove_node_spec_witness:
  "(\<exists>s'. raft_remove_node ref_contiki sample_server (Some 2) = Ok s' \<and> nodes_wf s' \<and>
      nodes_list s' = [0, 1]) \<and>
   (\<exists>s'. raft_remove_node ref_contiki (sample_server\<lparr>me_node := Some 1\<rparr>) (Some 0) = Ok s' \<and>
      \<not> nodes_wf s' \<and> nodes_list s' = [0, 1, 2])"
proof -
  have wf: "nodes_wf (sample_server\<lparr>me_node := Some 1\<rparr>)"
    by (auto simp: nodes_wf_def node_ids_def MAX_NODES_def)
  show ?thesis
    using raft_remove_node_spec [OF ref_contiki_ok sample_nodes_wf, of 2]
      raft_remove_node_spec [OF ref_contiki_ok wf, of 0]
    by auto
qed

subsection \<open>Configuration entries entering and leaving the log\<close>



lemma udata_reads [simp]:
  "raft_get_node (s\<lparr>udata := u\<rparr>) = raft_get_node s"
  "raft_get_nodeid (s\<lparr>udata := u\<rparr>) = raft_get_nodeid s"
  "nodes_wf (s\<lparr>udata := u\<rparr>) = nodes_wf s"
  by (simp_all add: raft_get_node_def [abs_def] raft_get_nodeid_def nodes_wf_def node_ids_def
      cong: option.case_cong)













end
