(* ===== verification/Raft_Log.thy ===== *)
theory Raft_Log
  imports Raft_Membership
begin

text \<open>
  The writing side of the log, \<^verbatim>\<open>src/raft_log.c\<close>: creation, append, delete, clear.  Append and
  delete call the user's callbacks and the server's membership hooks, so they act on the whole server
  state.
\<close>

section \<open>Operations\<close>

definition log_alloc :: "contiki \<Rightarrow> 'u raft_server \<Rightarrow> int \<Rightarrow> log_private" where
  "log_alloc ct s initial_size =
     \<lparr>log_size = initial_size, count = 0, base = 0,
      entries_list = ct_list_init ct (entries_list (me_log s)), log_cb = False\<rparr>"

definition log_new :: "contiki \<Rightarrow> 'u raft_server \<Rightarrow> log_private" where
  "log_new ct s = log_alloc ct s INITIAL_CAPACITY"

definition log_set_callbacks :: "log_private \<Rightarrow> log_private" where
  "log_set_callbacks l = l\<lparr>log_cb := True\<rparr>"

text \<open>
  \<^verbatim>\<open>list_pop\<close> followed by \<^verbatim>\<open>memb_free\<close> of what was popped, the step that both the loop of
  \<^verbatim>\<open>log_clear\<close> and a full \<^verbatim>\<open>log_append_entry\<close> take.
\<close>

definition pop_and_free :: "contiki \<Rightarrow> 'u raft_server \<Rightarrow> 'u raft_server" where
  "pop_and_free ct s =
     (let (p, xs) = ct_list_pop ct (entries_list (me_log s));
          s = s\<lparr>me_log := (me_log s)\<lparr>entries_list := xs\<rparr>\<rparr>
      in case p of
           Some a \<Rightarrow> s\<lparr>entries_used := ct_memb_free ct MAX_ENTRIES (entries_used s) a\<rparr>
         | None \<Rightarrow> s)"

text \<open>
  The loop of \<^verbatim>\<open>log_clear\<close>.  Whether it ends depends on \<^verbatim>\<open>list_pop\<close>, so it carries fuel;
  \<open>log_clear_total\<close> below shows that the length of the list is enough.
\<close>

fun clear_loop :: "contiki \<Rightarrow> nat \<Rightarrow> 'u raft_server \<Rightarrow> 'u raft_server result" where
  "clear_loop ct 0 s =
     (if ct_list_length ct (entries_list (me_log s)) \<noteq> 0 then Fault Diverges else Ok s)"
| "clear_loop ct (Suc fuel) s =
     (if ct_list_length ct (entries_list (me_log s)) \<noteq> 0
      then clear_loop ct fuel (pop_and_free ct s) else Ok s)"

definition log_clear :: "contiki \<Rightarrow> 'u raft_server \<Rightarrow> 'u raft_server result" where
  "log_clear ct s =
     bind (clear_loop ct (length (entries_list (me_log s))) s) (\<lambda>s.
     Ok (s\<lparr>me_log := (me_log s)\<lparr>count := 0, base := 0\<rparr>\<rparr>))"

text \<open>
  The log structure and the head of its list are static objects, from \<^verbatim>\<open>log_private\<close> and
  \<^verbatim>\<open>LIST(raft_entries_list)\<close>; \<^verbatim>\<open>log_free\<close> passes both to \<^verbatim>\<open>free\<close>.
\<close>

definition log_private_storage :: storage where
  "log_private_storage = Static_Storage"

definition raft_entries_list_storage :: storage where
  "raft_entries_list_storage = Static_Storage"

definition log_free :: "'u raft_server \<Rightarrow> unit result" where
  "log_free s =
     bind (c_free raft_entries_list_storage) (\<lambda>_.
     bind (c_free log_private_storage) (\<lambda>_. Ok ()))"

text \<open>A full list gives up its first element before an append.\<close>

definition log_make_room :: "contiki \<Rightarrow> 'u raft_server \<Rightarrow> 'u raft_server" where
  "log_make_room ct s =
     (if ct_list_length ct (entries_list (me_log s)) = MAX_ENTRIES then pop_and_free ct s else s)"

text \<open>
  The result is the return code, the caller's entry (whose index field is written) and the server.
\<close>

definition log_append_entry ::
  "contiki \<Rightarrow> 'u raft_server \<Rightarrow> raft_entry \<Rightarrow> (int \<times> raft_entry \<times> 'u raft_server) result" where
  "log_append_entry ct s ety =
     bind (c_int (base (me_log s) + count (me_log s) + 1)) (\<lambda>i.
     let ety = ety\<lparr>ety_idx := to_unsigned i\<rparr>;
         s = log_make_room ct s
     in case ct_memb_alloc ct MAX_ENTRIES (entries_used s) of
          (None, used) \<Rightarrow> Ok (1, ety, s\<lparr>entries_used := used\<rparr>)
        | (Some new_ety, used) \<Rightarrow>
            let s = s\<lparr>entries_used := used, entries_mem := (entries_mem s)(new_ety := ety),
                      me_log := (me_log s)\<lparr>entries_list :=
                        ct_list_add ct (entries_list (me_log s)) new_ety\<rparr>\<rparr>;
                finish = (\<lambda>s. bind (c_int (count (me_log s) + 1)) (\<lambda>c.
                              Ok (0, ety, s\<lparr>me_log := (me_log s)\<lparr>count := c\<rparr>\<rparr>)))
            in if log_cb (me_log s) \<and> cb_log_offer (me_cb s) \<noteq> None
               then let (e, u) = the (cb_log_offer (me_cb s)) (udata s) (entries_mem s new_ety) i;
                        s = s\<lparr>udata := u\<rparr>
                    in if e \<noteq> 0 then Ok (e, ety, s)
                       else bind (raft_offer_log ct s (entries_mem s new_ety) i) finish
               else finish s)"

text \<open>
  The loop stops at the first entry with the index; the callback is called through the log's callback
  pointer, which faults when no callbacks were set.
\<close>

definition log_delete ::
  "contiki \<Rightarrow> 'u raft_server \<Rightarrow> int \<Rightarrow> (int \<times> 'u raft_server) result" where
  "log_delete ct s i =
     (if i = 0 then Ok (-1, s)
      else
        let i = (if i < base (me_log s) then base (me_log s) else i) in
        case find_idx (entries_mem s) (entries_list (me_log s)) i of
          None \<Rightarrow> Ok (-1, s)
        | Some a \<Rightarrow>
            bind (deref (if log_cb (me_log s) then cb_log_pop (me_cb s) else None)) (\<lambda>log_pop.
            let (e, u) = log_pop (udata s) (entries_mem s a) i; s = s\<lparr>udata := u\<rparr>
            in if e \<noteq> 0 then Ok (e, s)
               else bind (raft_pop_log ct s (entries_mem s a) i) (\<lambda>s.
                    bind (c_int (count (me_log s) - 1)) (\<lambda>c.
                    Ok (0, s\<lparr>me_log := (me_log s)\<lparr>count := c,
                               entries_list := ct_list_remove ct (entries_list (me_log s)) a\<rparr>,
                             entries_used := ct_memb_free ct MAX_ENTRIES (entries_used s) a\<rparr>)))))"

section \<open>The window the log holds\<close>

text \<open>
  A well-formed log holds the most recent entries: the list contains the indices
  \<open>dropped s + 1\<close> to \<open>raft_get_current_idx s\<close> in order, and the pool holds exactly the blocks
  of the list.  \<open>dropped s\<close> counts the entries given up when the list was full.
\<close>

definition window :: "'u raft_server \<Rightarrow> raft_entry list" where
  "window s = map (entries_mem s) (entries_list (me_log s))"

definition dropped :: "'u raft_server \<Rightarrow> int" where
  "dropped s = count (me_log s) - int (length (entries_list (me_log s)))"

definition log_wf :: "'u raft_server \<Rightarrow> bool" where
  "log_wf s \<longleftrightarrow>
     base (me_log s) = 0 \<and>
     distinct (entries_list (me_log s)) \<and>
     entries_used s = set (entries_list (me_log s)) \<and>
     set (entries_list (me_log s)) \<subseteq> {..<MAX_ENTRIES} \<and>
     0 \<le> dropped s \<and> in_int (count (me_log s)) \<and>
     (\<forall>k < length (window s). uint (ety_idx (window s ! k)) = dropped s + int k + 1)"

text \<open>The part of it that concerns the memory of the entries only.\<close>

definition pool_ok :: "'u raft_server \<Rightarrow> bool" where
  "pool_ok s \<longleftrightarrow>
     distinct (entries_list (me_log s)) \<and> entries_used s = set (entries_list (me_log s)) \<and>
     set (entries_list (me_log s)) \<subseteq> {..<MAX_ENTRIES}"

text \<open>The entry at an index, read through the pointer the lookup returns.\<close>

definition log_lookup :: "'u raft_server \<Rightarrow> int \<Rightarrow> raft_entry option" where
  "log_lookup s i = map_option (entries_mem s) (log_get_at_idx s i)"

lemma length_window [simp]: "length (window s) = length (entries_list (me_log s))"
  by (simp add: window_def)

lemma window_Nil [simp]: "window s = [] \<longleftrightarrow> entries_list (me_log s) = []"
  by (simp add: window_def)

lemma log_of_window:
  "log_of s' = log_of s \<Longrightarrow> window s' = window s \<and> dropped s' = dropped s \<and>
     raft_get_current_idx s' = raft_get_current_idx s \<and> log_wf s' = log_wf s \<and>
     log_get_at_idx s' = log_get_at_idx s \<and> log_lookup s' = log_lookup s"
  by (simp add: views window_def dropped_def raft_get_current_idx_def log_wf_def
      log_get_at_idx_def [abs_def] log_lookup_def [abs_def] Let_def cong: if_cong)

lemma current_idx_window:
  "log_wf s \<Longrightarrow> raft_get_current_idx s = dropped s + int (length (window s))"
  by (simp add: log_wf_def dropped_def raft_get_current_idx_def log_get_current_idx_def
      log_count_def)

lemma current_idx_range:
  assumes "log_wf s"
  shows "0 \<le> raft_get_current_idx s" "in_int (raft_get_current_idx s)"
    "count (me_log s) = raft_get_current_idx s" "base (me_log s) = 0"
    "0 \<le> dropped s" "dropped s \<le> raft_get_current_idx s"
  using assms
  by (auto simp: log_wf_def dropped_def raft_get_current_idx_def log_get_current_idx_def
      log_count_def)

lemma log_wf_pool: "log_wf s \<Longrightarrow> pool_ok s"
  by (simp add: log_wf_def pool_ok_def)

lemma pool_bound:
  assumes "pool_ok s" shows "length (entries_list (me_log s)) \<le> MAX_ENTRIES"
proof -
  have "card (set (entries_list (me_log s))) \<le> card {..<MAX_ENTRIES}"
    using assms by (intro card_mono) (auto simp: pool_ok_def)
  then show ?thesis
    using assms by (simp add: pool_ok_def distinct_card)
qed

lemma window_full_bound: "log_wf s \<Longrightarrow> length (window s) \<le> MAX_ENTRIES"
  by (simp add: pool_bound [OF log_wf_pool])

lemma window_idx:
  assumes "log_wf s" "k < length (window s)"
  shows "ety_idx (window s ! k) = to_unsigned (dropped s + int k + 1)"
proof -
  have "in_int (dropped s + int k + 1)" "0 \<le> dropped s + int k + 1"
    using assms current_idx_range [OF assms(1)] current_idx_window [OF assms(1)]
    by (auto simp: in_int_iff)
  with assms show ?thesis by (simp add: to_unsigned_eq_iff log_wf_def)
qed

lemma last_window_idx:
  assumes "log_wf s" "window s \<noteq> []"
  shows "uint (ety_idx (last (window s))) = raft_get_current_idx s"
proof -
  have "length (window s) - 1 < length (window s)" using assms(2) by (simp del: window_Nil length_window)
  then have "uint (ety_idx (window s ! (length (window s) - 1))) =
      dropped s + int (length (window s) - 1) + 1"
    using assms(1) unfolding log_wf_def by blast
  then show ?thesis
    using assms(2) current_idx_window [OF assms(1)]
    by (simp add: last_conv_nth of_nat_diff Suc_le_eq del: length_window)
qed

section \<open>Lookup\<close>

lemma find_idx_window:
  assumes "log_wf s" "0 \<le> i" "in_int i"
  shows "find_idx (entries_mem s) (entries_list (me_log s)) i =
    (if dropped s < i \<and> i \<le> raft_get_current_idx s
     then Some (entries_list (me_log s) ! nat (i - dropped s - 1)) else None)"
proof -
  let ?xs = "entries_list (me_log s)"
  let ?P = "\<lambda>a. ety_idx (entries_mem s a) = to_unsigned i"
  have P: "?P (?xs ! k) \<longleftrightarrow> dropped s + int k + 1 = i" if "k < length ?xs" for k
    using that assms to_unsigned_eq_iff [OF assms(2,3)] by (simp add: log_wf_def window_def)
  show ?thesis
  proof (cases "dropped s < i \<and> i \<le> raft_get_current_idx s")
    case True
    let ?k = "nat (i - dropped s - 1)"
    have k: "?k < length ?xs"
      using True current_idx_window [OF assms(1)] by (simp add: nat_less_iff)
    then have "find ?P ?xs = Some (?xs ! ?k)"
      using True by (intro find_unique) (auto simp: P)
    with True show ?thesis by (simp add: find_idx_def)
  next
    case False
    have "find ?P ?xs = None"
      unfolding find_None_iff using False current_idx_window [OF assms(1)] P
      by (auto simp: in_set_conv_nth)
    with False show ?thesis by (simp add: find_idx_def)
  qed
qed

lemma log_get_at_idx_wf:
  assumes "log_wf s"
  shows "log_get_at_idx s i =
    (if dropped s < i \<and> i \<le> raft_get_current_idx s
     then Some (entries_list (me_log s) ! nat (i - dropped s - 1)) else None)"
proof (cases "0 < i \<and> i \<le> raft_get_current_idx s")
  case True
  then have "in_int i" using current_idx_range [OF assms] by (simp add: in_int_iff)
  with True show ?thesis
    using find_idx_window [OF assms, of i] current_idx_range [OF assms]
    by (simp add: log_get_at_idx_def Let_def)
next
  case False
  then show ?thesis
    using current_idx_range [OF assms] by (auto simp: log_get_at_idx_def Let_def)
qed

lemma log_lookup_wf:
  assumes "log_wf s"
  shows "log_lookup s i =
    (if dropped s < i \<and> i \<le> raft_get_current_idx s
     then Some (window s ! nat (i - dropped s - 1)) else None)"
  using current_idx_window [OF assms]
  by (auto simp: log_lookup_def log_get_at_idx_wf [OF assms] window_def)

lemma log_get_from_idx_wf:
  assumes "contiki_ok ct" "log_wf s" "dropped s < i" "i \<le> raft_get_current_idx s"
  shows "log_get_from_idx ct s i =
    Ok (Some (entries_list (me_log s) ! nat (i - dropped s - 1)), raft_get_current_idx s - i + 1)"
proof -
  let ?xs = "entries_list (me_log s)" and ?k = "nat (i - dropped s - 1)"
  note range = current_idx_range [OF assms(2)]
  have k: "?k < length ?xs"
    using assms(3,4) current_idx_window [OF assms(2)] by (simp add: nat_less_iff)
  then have ne: "?xs \<noteq> []" by auto
  have i: "0 < i" "in_int i" using assms(3,4) range by (auto simp: in_int_iff)
  have "ety_idx (entries_mem s (?xs ! ?k)) = to_unsigned i"
    using window_idx [OF assms(2), of ?k] k assms(3) by (simp add: window_def)
  moreover have "ety_idx (entries_mem s (last ?xs)) = to_unsigned (raft_get_current_idx s)"
    using window_idx [OF assms(2), of "length ?xs - 1"] ne current_idx_window [OF assms(2)]
    by (simp add: window_def last_conv_nth of_nat_diff Suc_le_eq)
  moreover have "to_signed (to_unsigned (raft_get_current_idx s) - to_unsigned i + 1) =
      raft_get_current_idx s - i + 1"
    using to_signed_to_unsigned [of "raft_get_current_idx s - i + 1"] i assms(4) range(2)
    by (simp add: to_unsigned_def in_int_iff)
  ultimately show ?thesis
    using find_idx_window [OF assms(2), of i] i assms range ne
    by (simp add: log_get_from_idx_def Let_def contiki_simps)
qed

text \<open>
  The chain that starts at the returned pointer is the suffix of the window from the index on.
\<close>

lemma chain_from_window:
  assumes "log_wf s" "dropped s < i" "i \<le> raft_get_current_idx s"
  shows "map (entries_mem s) (dropWhile (\<lambda>b. b \<noteq> entries_list (me_log s) ! nat (i - dropped s - 1))
           (entries_list (me_log s))) = drop (nat (i - dropped s - 1)) (window s)"
proof -
  have "nat (i - dropped s - 1) < length (entries_list (me_log s))"
    using assms current_idx_window [OF assms(1)] by (simp add: nat_less_iff)
  with assms(1) show ?thesis
    by (simp add: dropWhile_nth_distinct log_wf_def window_def drop_map)
qed

lemma log_get_from_idx_beyond:
  assumes "log_wf s" "0 < i" "raft_get_current_idx s < i"
  shows "log_get_from_idx ct s i = Ok (None, 0)"
  using assms current_idx_range [OF assms(1)] by (simp add: log_get_from_idx_def Let_def)

text \<open>An index whose entry was given up passes the range check and is then not found.\<close>

lemma log_get_from_idx_dropped:
  assumes "contiki_ok ct" "log_wf s" "0 < i" "i \<le> dropped s"
  shows "log_get_from_idx ct s i = Fault Null_Deref"
proof -
  note range = current_idx_range [OF assms(2)]
  have "in_int i" using assms(3,4) range by (simp add: in_int_iff)
  then show ?thesis
    using find_idx_window [OF assms(2), of i] assms range
    by (auto simp: log_get_from_idx_def Let_def contiki_simps)
qed

section \<open>Append\<close>

lemma pop_and_free_wf:
  assumes "contiki_ok ct" "pool_ok s" "entries_list (me_log s) = x # xs"
  shows "pop_and_free ct s =
    s\<lparr>me_log := (me_log s)\<lparr>entries_list := xs\<rparr>, entries_used := set xs\<rparr>"
  using assms by (auto simp: pop_and_free_def contiki_simps pool_ok_def MAX_ENTRIES_def)

definition room :: "'a list \<Rightarrow> 'a list" where
  "room xs = (if length xs = MAX_ENTRIES then tl xs else xs)"

lemma room_props:
  "set (room xs) \<subseteq> set xs" "distinct xs \<Longrightarrow> distinct (room xs)"
  "length xs \<le> MAX_ENTRIES \<Longrightarrow> length (room xs) < MAX_ENTRIES"
  "map f (room xs) = room (map f xs)"
  "int (length (room xs)) = int (length xs) - (if length xs = MAX_ENTRIES then 1 else 0)"
  by (auto simp: room_def MAX_ENTRIES_def map_tl distinct_tl neq_Nil_conv
      dest: in_set_takeD split: list.splits) (cases xs; simp)+

lemma log_make_room_wf:
  assumes "contiki_ok ct" "pool_ok s"
  shows "log_make_room ct s =
    s\<lparr>me_log := (me_log s)\<lparr>entries_list := room (entries_list (me_log s))\<rparr>,
      entries_used := set (room (entries_list (me_log s)))\<rparr>"
proof (cases "entries_list (me_log s)")
  case Nil
  then show ?thesis using assms
    by (simp add: log_make_room_def room_def contiki_simps MAX_ENTRIES_def pool_ok_def)
next
  case (Cons x xs)
  then show ?thesis using assms pop_and_free_wf [OF assms Cons]
    by (auto simp: log_make_room_def room_def contiki_simps pool_ok_def)
qed

text \<open>After making room the pool has a free block.\<close>

lemma append_block:
  assumes "contiki_ok ct" "pool_ok s"
  obtains b where "b < MAX_ENTRIES" "b \<notin> set (room (entries_list (me_log s)))"
    "ct_memb_alloc ct MAX_ENTRIES (set (room (entries_list (me_log s)))) =
       (Some b, insert b (set (room (entries_list (me_log s)))))"
proof -
  let ?xs = "entries_list (me_log s)"
  have "length (room ?xs) < MAX_ENTRIES"
    using pool_bound [OF assms(2)] by (simp add: room_props(3))
  then have "card (set (room ?xs)) < MAX_ENTRIES"
    using card_length [of "room ?xs"] by linarith
  then have "\<not> {..<MAX_ENTRIES} \<subseteq> set (room ?xs)" by (intro free_block_exists) auto
  with assms(1) show ?thesis by (rule ct_memb_alloc_free) (rule that)
qed

text \<open>
  What a successful append means: the entry is at the end of the window, and when the window was full
  its first entry is gone.
\<close>

definition appended :: "'u raft_server \<Rightarrow> raft_entry \<Rightarrow> 'u raft_server \<Rightarrow> bool" where
  "appended s e s' \<longleftrightarrow>
     log_wf s' \<and> window s' = room (window s) @ [e] \<and>
     raft_get_current_idx s' = raft_get_current_idx s + 1"

lemma room_nth:
  assumes "k < length (room xs)"
  shows "room xs ! k = xs ! (k + (if length xs = MAX_ENTRIES then 1 else 0))"
  using assms by (auto simp: room_def nth_tl)

lemma appended_intro:
  assumes "log_wf s" "b \<notin> set (room (entries_list (me_log s)))" "b < MAX_ENTRIES"
    and "in_int (raft_get_current_idx s + 1)"
    and "ety_idx e = to_unsigned (raft_get_current_idx s + 1)"
    and log': "me_log s' = (me_log s)\<lparr>entries_list := room (entries_list (me_log s)) @ [b],
                 count := count (me_log s) + 1\<rparr>"
    and mem': "entries_mem s' = (entries_mem s)(b := e)"
    and used': "entries_used s' = insert b (set (room (entries_list (me_log s))))"
  shows "appended s e s'"
proof -
  let ?xs = "entries_list (me_log s)"
  let ?d = "if length ?xs = MAX_ENTRIES then 1 else 0 :: nat"
  note wf = assms(1)
  have win: "window s' = room (window s) @ [e]"
    using assms(2) by (simp add: window_def log' mem' room_props(4) [symmetric])
  have drop': "dropped s' = dropped s + int ?d"
    by (simp add: dropped_def log' room_props)
  have cur': "raft_get_current_idx s' = raft_get_current_idx s + 1"
    by (simp add: raft_get_current_idx_def log_get_current_idx_def log_count_def log')
  have "uint (ety_idx (window s' ! k)) = dropped s' + int k + 1" if k: "k < length (window s')" for k
  proof (cases "k < length (room (window s))")
    case True
    then have lt: "k + ?d < length (window s)"
      by (auto simp: room_def split: if_splits)
    have "window s' ! k = window s ! (k + ?d)"
      using True by (simp add: win nth_append room_nth)
    with lt wf show ?thesis by (auto simp: log_wf_def drop')
  next
    case False
    then have k_eq: "k = length (room (window s))" using k by (simp add: win)
    then have "dropped s' + int k + 1 = raft_get_current_idx s + 1"
      using current_idx_window [OF wf] room_props(5) [of "window s"] by (simp add: drop')
    with k_eq show ?thesis
      using assms(4,5) current_idx_range(1) [OF wf] by (simp add: win)
  qed
  moreover have "distinct (room ?xs)" "set (room ?xs) \<subseteq> {..<MAX_ENTRIES}"
    using wf room_props(1) [of ?xs] by (auto simp: log_wf_def intro: room_props(2))
  moreover have "in_int (count (me_log s'))" "base (me_log s') = 0"
    using assms(4) current_idx_range [OF wf] by (simp_all add: log')
  moreover have "0 \<le> dropped s'" using current_idx_range(5) [OF wf] by (simp add: drop')
  ultimately have "log_wf s'"
    unfolding log_wf_def used' using assms(2,3) by (auto simp: log')
  with win cur' show ?thesis by (simp add: appended_def)
qed

text \<open>An append leaves terms, votes, commit index, role and configuration alone.\<close>

definition append_step :: "'u raft_server \<Rightarrow> 'u raft_server \<Rightarrow> bool" where
  "append_step s s' \<longleftrightarrow>
     election_of s' = election_of s \<and> progress_of s' = progress_of s \<and>
     config_of s' = config_of s \<and> me_state s' = me_state s \<and>
     current_leader s' = current_leader s \<and> timeout_elapsed s' = timeout_elapsed s \<and>
     election_timeout_rand s' = election_timeout_rand s"

lemma append_step_refl [simp]: "append_step s s"
  by (simp add: append_step_def)

lemma append_step_trans: "append_step s t \<Longrightarrow> append_step t u \<Longrightarrow> append_step s u"
  by (simp add: append_step_def)

lemma pop_and_free_frame: "append_step s (pop_and_free ct s) \<and> members_of (pop_and_free ct s) = members_of s"
  by (auto simp: pop_and_free_def append_step_def views Let_def split: prod.split option.split)

lemma log_make_room_frame:
  "append_step s (log_make_room ct s) \<and> members_of (log_make_room ct s) = members_of s"
  by (simp add: log_make_room_def pop_and_free_frame)

lemma log_append_entry_frame:
  "post (log_append_entry ct s e) (\<lambda>(c, e', s'). append_step s s')"
  using log_make_room_frame [of s ct]
  unfolding log_append_entry_def
  by (auto simp: wp Let_def append_step_def membership_step_def views case_prod_beta
      split: option.split intro!: post_mono [OF raft_offer_log_frame])

lemma log_append_entry_post:
  assumes "contiki_ok ct" "log_wf s"
  shows "post (log_append_entry ct s e) (\<lambda>(c, e', s').
    e' = e\<lparr>ety_idx := to_unsigned (raft_get_current_idx s + 1)\<rparr> \<and> (c = 0 \<longrightarrow> appended s e' s'))"
proof -
  let ?xs = "entries_list (me_log s)"
  let ?e = "e\<lparr>ety_idx := to_unsigned (raft_get_current_idx s + 1)\<rparr>"
  from assms(1) log_wf_pool [OF assms(2)] obtain b where b: "b < MAX_ENTRIES" "b \<notin> set (room ?xs)"
    "ct_memb_alloc ct MAX_ENTRIES (set (room ?xs)) = (Some b, insert b (set (room ?xs)))"
    by (rule append_block)
  note range = current_idx_range [OF assms(2)]
  show ?thesis
    unfolding log_append_entry_def
    using b
    by (auto simp: wp Let_def log_make_room_wf [OF assms(1) log_wf_pool [OF assms(2)]] range contiki_simps assms(1)
        membership_step_def views case_prod_beta
        intro!: appended_intro [OF assms(2) b(2,1)] post_mono [OF raft_offer_log_frame])
qed

text \<open>
  For an entry that does not change the configuration, and an offer callback that reports success as
  documented, an append below the largest index does not fault and returns 0.
\<close>

definition offer_ok :: "'u raft_cbs \<Rightarrow> bool" where
  "offer_ok cbs \<longleftrightarrow> (\<forall>f. cb_log_offer cbs = Some f \<longrightarrow> (\<forall>u e i. fst (f u e i) = 0))"

lemma log_append_entry_pool_runs:
  assumes "contiki_ok ct" "pool_ok s" "offer_ok (me_cb s)" "\<not> raft_entry_is_cfg_change e"
    and "in_int (base (me_log s) + count (me_log s) + 1)" "in_int (count (me_log s) + 1)"
  shows "runs (log_append_entry ct s e) (\<lambda>(c, e', s'). c = 0)"
proof -
  let ?xs = "entries_list (me_log s)"
  from assms(1,2) obtain b where b:
    "ct_memb_alloc ct MAX_ENTRIES (set (room ?xs)) = (Some b, insert b (set (room ?xs)))"
    by (rule append_block)
  show ?thesis
    unfolding log_append_entry_def
    using assms(3-6)
    by (auto simp: wp Let_def log_make_room_wf [OF assms(1,2)] b raft_offer_log_def offer_ok_def
        case_prod_beta)
qed

lemma log_append_entry_runs:
  assumes "contiki_ok ct" "log_wf s" "offer_ok (me_cb s)" "\<not> raft_entry_is_cfg_change e"
    and "raft_get_current_idx s < INT_MAX"
  shows "runs (log_append_entry ct s e) (\<lambda>(c, e', s'). c = 0)"
  using assms(5) current_idx_range [OF assms(2)]
  by (intro log_append_entry_pool_runs [OF assms(1) log_wf_pool [OF assms(2)] assms(3,4)])
     (auto simp: in_int_iff INT_MAX_def)

section \<open>Without the order of indices\<close>

text \<open>
  What appends and deletions keep even when the indices in the list are not consecutive: the pool
  agrees with the list, and a log in which no entry changes the configuration stays such a log and
  leaves the members alone.
\<close>

lemma log_append_entry_pool:
  assumes "contiki_ok ct" "pool_ok s"
  shows "post (log_append_entry ct s e) (\<lambda>(c, e', s').
    pool_ok s' \<and> e' = e\<lparr>ety_idx := to_unsigned (raft_get_current_idx s + 1)\<rparr> \<and>
    (\<exists>b. b \<notin> set (room (entries_list (me_log s))) \<and>
         entries_list (me_log s') = room (entries_list (me_log s)) @ [b] \<and>
         entries_mem s' = (entries_mem s)(b := e')) \<and>
    base (me_log s') = base (me_log s) \<and>
    count (me_log s') = count (me_log s) + (if c = 0 then 1 else 0))"
proof -
  let ?xs = "entries_list (me_log s)"
  from assms obtain b where b: "b < MAX_ENTRIES" "b \<notin> set (room ?xs)"
    "ct_memb_alloc ct MAX_ENTRIES (set (room ?xs)) = (Some b, insert b (set (room ?xs)))"
    by (rule append_block)
  have room: "distinct (room ?xs)" "set (room ?xs) \<subseteq> {..<MAX_ENTRIES}"
    using assms(2) room_props(1) [of ?xs] by (auto simp: pool_ok_def intro: room_props(2))
  have idx: "base (me_log s) + count (me_log s) = raft_get_current_idx s"
    by (simp add: raft_get_current_idx_def log_get_current_idx_def log_count_def)
  show ?thesis
    unfolding log_append_entry_def
    using b room
    by (auto simp: wp Let_def log_make_room_wf [OF assms] contiki_simps assms(1) idx pool_ok_def
        membership_step_def views case_prod_beta intro!: post_mono [OF raft_offer_log_frame])
qed

lemma log_append_entry_members:
  assumes "\<not> raft_entry_is_cfg_change e"
  shows "post (log_append_entry ct s e) (\<lambda>(c, e', s'). members_of s' = members_of s)"
  using assms log_make_room_frame [of s ct]
  unfolding log_append_entry_def
  by (auto simp: wp Let_def raft_offer_log_def views case_prod_beta split: option.split)

definition plain_log :: "'u raft_server \<Rightarrow> bool" where
  "plain_log s \<longleftrightarrow>
     pool_ok s \<and> (\<forall>a \<in> set (entries_list (me_log s)). \<not> raft_entry_is_cfg_change (entries_mem s a))"

lemma plain_log_cong: "log_of s' = log_of s \<Longrightarrow> plain_log s' = plain_log s"
  by (simp add: plain_log_def pool_ok_def views)

lemma log_append_entry_plain:
  assumes "contiki_ok ct" "plain_log s" "\<not> raft_entry_is_cfg_change e"
  shows "post (log_append_entry ct s e) (\<lambda>(c, e', s'). plain_log s' \<and> members_of s' = members_of s)"
proof (rule post_mono [OF post_conj [OF log_append_entry_pool log_append_entry_members]])
  show "contiki_ok ct" "pool_ok s" "\<not> raft_entry_is_cfg_change e"
    using assms by (simp_all add: plain_log_def)
qed (use assms room_props(1) [of "entries_list (me_log s)"] in
      \<open>auto simp: plain_log_def split: if_splits\<close>)

section \<open>Delete\<close>

text \<open>
  Deleting takes one entry out of the window, the one with the index, and the log counts one entry
  fewer.
\<close>

definition remove_nth :: "nat \<Rightarrow> 'a list \<Rightarrow> 'a list" where
  "remove_nth k xs = take k xs @ drop (Suc k) xs"

lemma filter_neq_nth:
  assumes "distinct xs" "k < length xs"
  shows "filter (\<lambda>y. y \<noteq> xs ! k) xs = remove_nth k xs"
  using assms
proof (induction xs arbitrary: k)
  case (Cons x xs)
  then show ?case
    by (cases k) (auto simp: remove_nth_def filter_id_conv)
qed simp

lemma remove_nth_map: "map f (remove_nth k xs) = remove_nth k (map f xs)"
  by (simp add: remove_nth_def take_map drop_map)

lemma remove_nth_last: "xs \<noteq> [] \<Longrightarrow> remove_nth (length xs - 1) xs = butlast xs"
  by (simp add: remove_nth_def butlast_conv_take)

lemma log_delete_frame: "post (log_delete ct s i) (\<lambda>(c, s'). append_step s s')"
  unfolding log_delete_def
  by (auto simp: wp Let_def append_step_def membership_step_def views case_prod_beta
      split: option.split intro!: post_mono [OF raft_pop_log_frame])

lemma log_delete_error_log:
  "post (log_delete ct s i) (\<lambda>(c, s'). c \<noteq> 0 \<longrightarrow> log_of s' = log_of s)"
  unfolding log_delete_def
  by (auto simp: wp Let_def views case_prod_beta split: option.split intro!: postI)

lemma log_delete_post:
  assumes "contiki_ok ct" "log_wf s" "dropped s < i" "i \<le> raft_get_current_idx s"
  shows "post (log_delete ct s i) (\<lambda>(c, s').
    c = 0 \<longrightarrow>
      window s' = remove_nth (nat (i - dropped s - 1)) (window s) \<and>
      raft_get_current_idx s' = raft_get_current_idx s - 1 \<and>
      entries_list (me_log s') = remove_nth (nat (i - dropped s - 1)) (entries_list (me_log s)) \<and>
      base (me_log s') = 0 \<and> entries_used s' = set (entries_list (me_log s')))"
proof -
  let ?xs = "entries_list (me_log s)" and ?k = "nat (i - dropped s - 1)"
  have k: "?k < length ?xs"
    using assms(3,4) current_idx_window [OF assms(2)] by (simp add: nat_less_iff)
  note range = current_idx_range [OF assms(2)]
  have i: "0 < i" "in_int i" using assms(3,4) range by (auto simp: in_int_iff)
  have fnd: "find_idx (entries_mem s) ?xs i = Some (?xs ! ?k)"
    using find_idx_window [OF assms(2), of i] i assms(3,4) by simp
  have xs: "distinct ?xs" "?xs ! ?k < MAX_ENTRIES" "entries_used s = set ?xs"
    using assms(2) nth_mem [OF k] by (auto simp: log_wf_def)
  have rem: "ct_list_remove ct ?xs (?xs ! ?k) = remove_nth ?k ?xs"
    using assms(1) xs(1) k by (simp add: contiki_simps filter_neq_nth)
  have set_rem: "set ?xs - {?xs ! ?k} = set (remove_nth ?k ?xs)"
    using arg_cong [OF filter_neq_nth [OF xs(1) k], of set] by auto
  show ?thesis
    unfolding log_delete_def
    using i range(4) xs fnd rem set_rem
    by (auto simp: wp Let_def membership_step_def views case_prod_beta contiki_simps assms(1)
        window_def remove_nth_map raft_get_current_idx_def log_get_current_idx_def log_count_def
        intro!: post_mono [OF raft_pop_log_frame])
qed

text \<open>Deleting the last entry keeps the log well-formed.\<close>

lemma log_delete_last:
  assumes "contiki_ok ct" "log_wf s" "window s \<noteq> []"
  shows "post (log_delete ct s (raft_get_current_idx s)) (\<lambda>(c, s').
    c = 0 \<longrightarrow> log_wf s' \<and> window s' = butlast (window s) \<and> dropped s' = dropped s)"
proof -
  let ?cur = "raft_get_current_idx s"
  have cur: "?cur = dropped s + int (length (window s))" by (rule current_idx_window [OF assms(2)])
  have len: "0 < length (window s)" using assms(3) by simp
  have k: "nat (?cur - dropped s - 1) = length (window s) - 1" using cur len by simp
  have lt: "dropped s < ?cur" using cur len by simp
  show ?thesis
  proof (rule post_mono [OF log_delete_post [OF assms(1,2) lt order_refl]], split prod.split, intro allI impI)
    fix x c and s' :: "'a raft_server"
    assume x: "x = (c, s')" "c = 0" and "case x of (c, s') \<Rightarrow> c = 0 \<longrightarrow>
      window s' = remove_nth (nat (?cur - dropped s - 1)) (window s) \<and>
      raft_get_current_idx s' = ?cur - 1 \<and>
      entries_list (me_log s') = remove_nth (nat (?cur - dropped s - 1)) (entries_list (me_log s)) \<and>
      base (me_log s') = 0 \<and> entries_used s' = set (entries_list (me_log s'))"
    then have win: "window s' = remove_nth (length (window s) - 1) (window s)"
      and cur': "raft_get_current_idx s' = ?cur - 1"
      and xs': "entries_list (me_log s') = remove_nth (length (window s) - 1) (entries_list (me_log s))"
      and base': "base (me_log s') = 0"
      and used': "entries_used s' = set (entries_list (me_log s'))"
      by (auto simp: k)
    have ne: "entries_list (me_log s) \<noteq> []" using assms(3) by simp
    have xs2: "entries_list (me_log s') = butlast (entries_list (me_log s))"
      using remove_nth_last [OF ne] xs' by simp
    have win2: "window s' = butlast (window s)"
      using remove_nth_last [OF assms(3)] win by simp
    have cnt': "count (me_log s') = ?cur - 1"
      using cur' base' by (simp add: raft_get_current_idx_def log_get_current_idx_def log_count_def)
    have drop': "dropped s' = dropped s"
      using cur len ne by (simp add: dropped_def cnt' xs2 of_nat_diff Suc_le_eq)
    have "log_wf s'"
      using assms(2) ne len current_idx_range [OF assms(2)] cur
      by (auto simp: log_wf_def drop' win2 xs2 used' base' cnt' in_int_iff
          nth_butlast distinct_butlast dest: in_set_butlastD)
    with win2 drop' show "log_wf s' \<and> window s' = butlast (window s) \<and> dropped s' = dropped s"
      by simp
  qed
qed

lemma log_delete_plain:
  assumes "contiki_ok ct" "plain_log s"
  shows "post (log_delete ct s i) (\<lambda>(c, s'). plain_log s' \<and> members_of s' = members_of s)"
proof -
  let ?i = "if i < base (me_log s) then base (me_log s) else i"
  have cfg: "\<not> raft_entry_is_cfg_change (entries_mem s a)" "a < MAX_ENTRIES"
    if "find_idx (entries_mem s) (entries_list (me_log s)) ?i = Some a" for a
    using that assms(2)
    by (auto simp: find_idx_def find_Some_iff plain_log_def pool_ok_def simp del: if_split)
  have pool: "distinct (entries_list (me_log s))" "entries_used s = set (entries_list (me_log s))"
    using assms(2) by (simp_all add: plain_log_def pool_ok_def)
  show ?thesis
    unfolding log_delete_def
    using assms(2) cfg pool
    by (auto simp: wp Let_def case_prod_beta raft_pop_log_def contiki_simps assms(1) plain_log_def
        pool_ok_def views split: option.split)
qed

section \<open>Clear\<close>

lemma clear_loop_runs:
  assumes "contiki_ok ct" "entries_list (me_log s) = xs" "set xs \<subseteq> {..<MAX_ENTRIES}"
  shows "clear_loop ct (length xs) s =
    Ok (s\<lparr>me_log := (me_log s)\<lparr>entries_list := []\<rparr>, entries_used := entries_used s - set xs\<rparr>)"
  using assms(2,3)
proof (induction xs arbitrary: s)
  case Nil
  then show ?case using assms(1) by (simp add: contiki_simps)
next
  case (Cons x xs)
  have pop: "pop_and_free ct s =
      s\<lparr>me_log := (me_log s)\<lparr>entries_list := xs\<rparr>, entries_used := entries_used s - {x}\<rparr>"
    using assms(1) Cons.prems by (simp add: pop_and_free_def contiki_simps)
  show ?case
    using Cons.IH [of "pop_and_free ct s"] Cons.prems assms(1)
    by (simp add: pop contiki_simps Diff_insert2 [symmetric])
qed

lemma log_clear_wf:
  assumes "contiki_ok ct" "log_wf s"
  shows "log_clear ct s =
    Ok (s\<lparr>me_log := (me_log s)\<lparr>entries_list := [], count := 0, base := 0\<rparr>, entries_used := {}\<rparr>)"
  using clear_loop_runs [OF assms(1) refl, of s] assms(2)
  by (simp add: log_clear_def log_wf_def)

lemma empty_log_wf:
  assumes "count (me_log s) = 0" "base (me_log s) = 0" "entries_list (me_log s) = []"
    "entries_used s = {}"
  shows "log_wf s \<and> window s = [] \<and> raft_get_current_idx s = 0"
  using assms
  by (simp add: log_wf_def dropped_def window_def in_int_iff raft_get_current_idx_def
      log_get_current_idx_def log_count_def)

section \<open>The interface the server relies on\<close>

text \<open>
  A window log as its clients see it: an append adds the entry at the next index and may drop the
  oldest one, an index is found exactly when it is in the window.  The lemmas about sequences of
  appends are proved from these laws alone.
\<close>

locale window_log =
  fixes invar :: "'s \<Rightarrow> bool"
    and contents :: "'s \<Rightarrow> raft_entry list"
    and last_idx :: "'s \<Rightarrow> int"
    and lookup :: "'s \<Rightarrow> int \<Rightarrow> raft_entry option"
    and append :: "'s \<Rightarrow> raft_entry \<Rightarrow> 's \<Rightarrow> bool"
    and cap :: nat
  assumes cap_pos: "0 < cap"
    and contents_bound: "invar s \<Longrightarrow> length (contents s) \<le> cap"
    and lookup_spec: "invar s \<Longrightarrow> lookup s i =
      (if last_idx s - int (length (contents s)) < i \<and> i \<le> last_idx s
       then Some (contents s ! nat (i - (last_idx s - int (length (contents s))) - 1)) else None)"
    and append_invar: "invar s \<Longrightarrow> append s e s' \<Longrightarrow> invar s'"
    and append_last: "invar s \<Longrightarrow> append s e s' \<Longrightarrow> last_idx s' = last_idx s + 1"
    and append_contents: "invar s \<Longrightarrow> append s e s' \<Longrightarrow>
      contents s' =
        (if length (contents s) = cap then tl (contents s) else contents s) @ [e]"
begin

inductive appends :: "'s \<Rightarrow> raft_entry list \<Rightarrow> 's \<Rightarrow> bool" where
  none: "appends s [] s"
| more: "append s e t \<Longrightarrow> appends t es u \<Longrightarrow> appends s (e # es) u"

lemma appends_invar: "appends s es s' \<Longrightarrow> invar s \<Longrightarrow> invar s'"
  by (induction rule: appends.induct) (auto intro: append_invar)

lemma appends_last: "appends s es s' \<Longrightarrow> invar s \<Longrightarrow> last_idx s' = last_idx s + int (length es)"
proof (induction rule: appends.induct)
  case (more s e t es u)
  then show ?case using append_invar [of s e t] append_last [of s e t] by simp
qed simp

text \<open>The newest entry is found at the new last index.\<close>

lemma lookup_append_new:
  assumes "invar s" "append s e s'"
  shows "lookup s' (last_idx s') = Some e"
proof -
  have "invar s'" using assms by (rule append_invar)
  moreover have "contents s' \<noteq> []" "last (contents s') = e"
    using append_contents [OF assms] by auto
  ultimately show ?thesis
    by (simp add: lookup_spec last_conv_nth nat_minus_as_int)
qed

text \<open>An index that is still in the window keeps its entry.\<close>

lemma lookup_append_old:
  assumes "invar s" "append s e s'" "i \<le> last_idx s"
    and "last_idx s' - int (length (contents s')) < i"
  shows "lookup s' i = lookup s i"
proof -
  have inv': "invar s'" using assms(1,2) by (rule append_invar)
  let ?d = "if length (contents s) = cap then 1 else 0 :: int"
  have len: "int (length (contents s')) = int (length (contents s)) + 1 - ?d"
    using append_contents [OF assms(1,2)] cap_pos
    by (cases "contents s") auto
  have last: "last_idx s' = last_idx s + 1" using assms(1,2) by (rule append_last)
  define k' where "k' = nat (i - (last_idx s' - int (length (contents s'))) - 1)"
  define k where "k = nat (i - (last_idx s - int (length (contents s))) - 1)"
  have k: "k = k' + nat ?d" and k': "k' < length (contents s) - nat ?d"
    and low: "last_idx s - int (length (contents s)) < i"
    unfolding k_def k'_def
    using assms(3,4) len last by (cases "length (contents s) = cap"; simp)+
  have "contents s' ! k' = contents s ! k"
    using k' append_contents [OF assms(1,2)] by (auto simp: k nth_append nth_tl)
  then show ?thesis
    using assms(3,4) last low by (simp add: lookup_spec [OF assms(1)] lookup_spec [OF inv'] k_def k'_def)
qed

text \<open>The window holds the most recent entries of everything that was appended.\<close>

lemma appends_contents:
  assumes "appends s es s'" "invar s"
  shows "contents s' =
    drop (length (contents s @ es) - min cap (length (contents s @ es))) (contents s @ es)"
  using assms
proof (induction rule: appends.induct)
  case (none s)
  then show ?case using contents_bound [of s] by (simp add: min_absorb2)
next
  case (more s e t es u)
  have t: "invar t" using more.prems more.hyps(1) by (rule append_invar)
  have ct: "contents t = (if length (contents s) = cap then tl (contents s) else contents s) @ [e]"
    using more.prems more.hyps(1) by (rule append_contents)
  show ?case
  proof (cases "length (contents s) = cap")
    case False
    with ct more.IH [OF t] show ?thesis by simp
  next
    case True
    then obtain x xs where xs: "contents s = x # xs" using cap_pos by (cases "contents s") auto
    then have "contents t = xs @ [e]" "length xs + 1 = cap" using ct True by auto
    with xs more.IH [OF t] show ?thesis by (auto simp: min_def)
  qed
qed

end

text \<open>The log of \<^verbatim>\<open>src/raft_log.c\<close> is a window log of capacity \<^verbatim>\<open>MAX_ENTRIES\<close>.\<close>

definition log_append_ok :: "contiki \<Rightarrow> 'u raft_server \<Rightarrow> raft_entry \<Rightarrow> 'u raft_server \<Rightarrow> bool" where
  "log_append_ok ct s e s' \<longleftrightarrow> (\<exists>e0. log_append_entry ct s e0 = Ok (0, e, s'))"

definition log_ready :: "contiki \<Rightarrow> 'u raft_server \<Rightarrow> bool" where
  "log_ready ct s \<longleftrightarrow> contiki_ok ct \<and> log_wf s"

lemma log_append_okD:
  "log_ready ct s \<Longrightarrow> log_append_ok ct s e s' \<Longrightarrow> appended s e s'"
  using log_append_entry_post [of ct s] unfolding log_ready_def log_append_ok_def
  by (auto dest!: postD)

interpretation lg: window_log "log_ready ct" window raft_get_current_idx log_lookup
  "log_append_ok ct" MAX_ENTRIES for ct
proof unfold_locales
  show "0 < MAX_ENTRIES" by (simp add: MAX_ENTRIES_def)
next
  fix s :: "'a raft_server"
  assume "log_ready ct s"
  then have wf: "log_wf s" by (simp add: log_ready_def)
  then show "length (window s) \<le> MAX_ENTRIES" by (rule window_full_bound)
  fix i
  show "log_lookup s i =
    (if raft_get_current_idx s - int (length (window s)) < i \<and> i \<le> raft_get_current_idx s
     then Some (window s ! nat (i - (raft_get_current_idx s - int (length (window s))) - 1)) else None)"
    using log_lookup_wf [OF wf] current_idx_window [OF wf] by simp
next
  fix s s' :: "'a raft_server" and e
  assume *: "log_ready ct s" "log_append_ok ct s e s'"
  from log_append_okD [OF this] have "appended s e s'" .
  with * show "log_ready ct s'" "raft_get_current_idx s' = raft_get_current_idx s + 1"
    "window s' = (if length (window s) = MAX_ENTRIES then tl (window s) else window s) @ [e]"
    by (simp_all add: appended_def log_ready_def room_def)
qed


section \<open>Properties\<close>

lemma sample_window [simp]:
  "window sample_server = [sample_entry 1 1, sample_entry 1 2]"
  "raft_get_current_idx sample_server = 2" "dropped sample_server = 0"
  by (simp_all add: window_def raft_get_current_idx_def log_get_current_idx_def
      log_count_def dropped_def)

lemma sample_log_wf [simp]: "log_wf sample_server"
  by (auto simp: log_wf_def MAX_ENTRIES_def in_int_iff less_Suc_eq)

text \<open>
  After a successful append the new entry is found at the new last index, and every index that
  is still inside the window is found with the entry it had before.
\<close>

lemma log_append_lookup:
  assumes "contiki_ok ct" "log_wf s" "log_append_entry ct s e = Ok (0, e', s')"
  shows "log_lookup s' (raft_get_current_idx s') = Some e' \<and>
    (\<forall>i. i \<le> raft_get_current_idx s \<and>
         raft_get_current_idx s' - int (length (window s')) < i \<longrightarrow>
         log_lookup s' i = log_lookup s i)"
proof -
  have ok: "log_ready ct s" "log_append_ok ct s e' s'"
    using assms by (auto simp: log_ready_def log_append_ok_def)
  show ?thesis
    using lg.lookup_append_new [OF ok] lg.lookup_append_old [OF ok] by blast
qed

text \<open>A sequence of appends, as far as they return 0.\<close>

fun append_all ::
  "contiki \<Rightarrow> 'u raft_server \<Rightarrow> raft_entry list \<Rightarrow> (int \<times> 'u raft_server) result" where
  "append_all ct s [] = Ok (0, s)"
| "append_all ct s (e # es) =
     bind (log_append_entry ct s e) (\<lambda>(c, _, s). if c \<noteq> 0 then Ok (c, s) else append_all ct s es)"

text \<open>The entries as they are stored, with consecutive indices from \<open>i\<close> on.\<close>

fun numbered :: "int \<Rightarrow> raft_entry list \<Rightarrow> raft_entry list" where
  "numbered i [] = []"
| "numbered i (e # es) = e\<lparr>ety_idx := to_unsigned i\<rparr> # numbered (i + 1) es"

lemma length_numbered [simp]: "length (numbered i es) = length es"
  by (induction es arbitrary: i) auto

lemma append_all_runs:
  assumes "contiki_ok ct" "log_wf s" "offer_ok (me_cb s)"
    and "\<forall>e \<in> set es. \<not> raft_entry_is_cfg_change e"
    and "raft_get_current_idx s + int (length es) \<le> INT_MAX"
  shows "runs (append_all ct s es) (\<lambda>(c, s'). c = 0 \<and>
    lg.appends ct s (numbered (raft_get_current_idx s + 1) es) s')"
  using assms(2-)
proof (induction es arbitrary: s)
  case Nil
  then show ?case by (auto simp: wp intro: lg.appends.none)
next
  case (Cons e es)
  let ?e = "e\<lparr>ety_idx := to_unsigned (raft_get_current_idx s + 1)\<rparr>"
  have "runs (log_append_entry ct s e) (\<lambda>(c, e', s'). c = 0)"
    using Cons.prems by (intro log_append_entry_runs [OF assms(1)]) auto
  then obtain e1 s1 where run: "log_append_entry ct s e = Ok (0, e1, s1)"
    by (auto simp: runs_def)
  have ap: "e1 = ?e" "appended s ?e s1"
    using postD [OF log_append_entry_post [OF assms(1) Cons.prems(1)] run] by auto
  have "append_step s s1" using postD [OF log_append_entry_frame run] by simp
  then have "me_cb s1 = me_cb s" by (simp add: append_step_def views)
  with ap Cons.prems have "runs (append_all ct s1 es) (\<lambda>(c, s'). c = 0 \<and>
      lg.appends ct s1 (numbered (raft_get_current_idx s1 + 1) es) s')"
    by (intro Cons.IH) (auto simp: appended_def)
  moreover have "log_append_ok ct s ?e s1" using run ap by (auto simp: log_append_ok_def)
  ultimately show ?case
    using ap(2) run
    by (auto simp: wp appended_def elim!: runs_mono intro: lg.appends.more)
qed

text \<open>The last \<open>MAX_ENTRIES\<close> elements of a list.\<close>

definition most_recent :: "'a list \<Rightarrow> 'a list" where
  "most_recent xs = drop (length xs - min MAX_ENTRIES (length xs)) xs"

lemma append_all_spec:
  assumes "contiki_ok ct" "log_wf s" "offer_ok (me_cb s)"
    and "\<forall>e \<in> set es. \<not> raft_entry_is_cfg_change e"
    and "raft_get_current_idx s + int (length es) \<le> INT_MAX"
  shows "runs (append_all ct s es) (\<lambda>(c, s'). c = 0 \<and> log_wf s' \<and>
    raft_get_current_idx s' = raft_get_current_idx s + int (length es) \<and>
    window s' = most_recent (window s @ numbered (raft_get_current_idx s + 1) es))"
proof -
  have rdy: "log_ready ct s" using assms(1,2) by (simp add: log_ready_def)
  show ?thesis
    by (rule runs_mono [OF append_all_runs [OF assms]])
       (auto simp: most_recent_def log_ready_def dest: lg.appends_last [OF _ rdy]
         lg.appends_contents [OF _ rdy] lg.appends_invar [OF _ rdy])
qed

text \<open>
  C13: A sequence of appends of entries that do not change the configuration does not fault as long as
  the indices stay in the range of \<^verbatim>\<open>int\<close>, every append returns 0, and afterwards the log is
  well-formed and holds exactly the last \<^verbatim>\<open>MAX_ENTRIES\<close> of all entries, each numbered with its
  index.
\<close>

theorem appends_keep_most_recent:
  assumes "contiki_ok ct" "log_wf s" "offer_ok (me_cb s)"
    and "\<forall>e \<in> set es. \<not> raft_entry_is_cfg_change e"
    and "raft_get_current_idx s + int (length es) \<le> INT_MAX"
  shows "\<exists>s'. append_all ct s es = Ok (0, s') \<and> log_wf s' \<and>
    raft_get_current_idx s' = raft_get_current_idx s + int (length es) \<and>
    window s' = most_recent (window s @ numbered (raft_get_current_idx s + 1) es)"
  using append_all_spec [OF assms] by (auto simp: runs_def)

theorem appends_keep_most_recent_witness:
  "\<exists>s'. append_all ref_contiki sample_server (replicate 60 (sample_entry 2 0)) = Ok (0, s') \<and>
     log_wf s' \<and> raft_get_current_idx s' = 62 \<and>
     window s' = drop 10 (numbered 3 (replicate 60 (sample_entry 2 0)))"
proof -
  have "offer_ok (me_cb sample_server)" by (simp add: offer_ok_def)
  from appends_keep_most_recent [OF ref_contiki_ok sample_log_wf this,
      of "replicate 60 (sample_entry 2 0)"]
  show ?thesis
    by (simp add: raft_entry_is_cfg_change_def INT_MAX_def MAX_ENTRIES_def most_recent_def)
qed

text \<open>
  Reading from an index on.  Beyond the last index the answer is empty.  Inside the window it is
  the pointer to the entry with that index, the chain from there is the suffix of the window, and the
  count is the length of that suffix.  For an index whose entry was given up the call dereferences
  \<^verbatim>\<open>NULL\<close>.
\<close>

theorem log_get_from_idx_spec:
  assumes "contiki_ok ct" "log_wf s" "0 < i"
  shows "log_get_from_idx ct s i =
    (if raft_get_current_idx s < i then Ok (None, 0)
     else if i \<le> dropped s then Fault Null_Deref
     else Ok (log_get_at_idx s i, raft_get_current_idx s - i + 1)) \<and>
    (dropped s < i \<and> i \<le> raft_get_current_idx s \<longrightarrow>
      (\<exists>a. log_get_at_idx s i = Some a \<and>
        map (entries_mem s) (dropWhile (\<lambda>b. b \<noteq> a) (entries_list (me_log s))) =
          drop (nat (i - dropped s - 1)) (window s) \<and>
        int (length (drop (nat (i - dropped s - 1)) (window s))) = raft_get_current_idx s - i + 1))"
proof (cases "dropped s < i \<and> i \<le> raft_get_current_idx s")
  case True
  then show ?thesis
    using log_get_from_idx_wf [OF assms(1,2), of i] log_get_at_idx_wf [OF assms(2), of i]
      chain_from_window [OF assms(2), of i] current_idx_window [OF assms(2)]
    by (auto simp: of_nat_diff nat_le_iff)
next
  case False
  then show ?thesis
    using log_get_from_idx_beyond [OF assms(2,3)] log_get_from_idx_dropped [OF assms]
    by auto
qed

theorem log_get_from_idx_spec_witness:
  "log_get_from_idx ref_contiki sample_server 2 = Ok (Some 1, 1) \<and>
   log_get_from_idx ref_contiki sample_server 3 = Ok (None, 0)"
  using log_get_from_idx_spec [OF ref_contiki_ok sample_log_wf, of 2]
    log_get_from_idx_spec [OF ref_contiki_ok sample_log_wf, of 3]
  by (simp add: log_get_at_idx_wf)

text \<open>Deleting with a callback that reports success, for an entry that changes no configuration.\<close>

definition pop_ok :: "'u raft_cbs \<Rightarrow> bool" where
  "pop_ok cbs \<longleftrightarrow> (\<exists>f. cb_log_pop cbs = Some f \<and> (\<forall>u e i. fst (f u e i) = 0))"

lemma log_delete_run:
  assumes "contiki_ok ct" "log_wf s" "log_cb (me_log s)" "pop_ok (me_cb s)"
    and "log_lookup s i = Some e" "\<not> raft_entry_is_cfg_change e"
  defines "k \<equiv> nat (i - dropped s - 1)"
  shows "\<exists>u. log_delete ct s i =
    Ok (0, s\<lparr>udata := u,
            me_log := (me_log s)\<lparr>count := count (me_log s) - 1,
                        entries_list := remove_nth k (entries_list (me_log s))\<rparr>,
            entries_used := set (remove_nth k (entries_list (me_log s)))\<rparr>)"
proof -
  let ?xs = "entries_list (me_log s)"
  note range = current_idx_range [OF assms(2)]
  have i: "dropped s < i" "i \<le> raft_get_current_idx s" and e: "e = entries_mem s (?xs ! k)"
    using assms(5) unfolding k_def
    by (auto simp: log_lookup_def log_get_at_idx_wf [OF assms(2)] split: if_splits)
  then have i': "0 < i" "in_int i" using range by (auto simp: in_int_iff)
  have k: "k < length ?xs"
    using i current_idx_window [OF assms(2)] by (simp add: k_def nat_less_iff)
  have xs: "distinct ?xs" "?xs ! k < MAX_ENTRIES" "entries_used s = set ?xs"
    using assms(2) nth_mem [OF k] by (auto simp: log_wf_def)
  have "find_idx (entries_mem s) ?xs i = Some (?xs ! k)"
    using find_idx_window [OF assms(2), of i] i i' by (simp add: k_def)
  moreover have "in_int (count (me_log s) - 1)" using range(1-3) i i' by (simp add: in_int_iff)
  moreover have "set ?xs - {?xs ! k} = set (remove_nth k ?xs)"
    using arg_cong [OF filter_neq_nth [OF xs(1) k], of set] by auto
  moreover have "\<not> raft_entry_is_cfg_change (entries_mem s (?xs ! k))" using assms(6) e by simp
  moreover have "ct_list_remove ct ?xs (?xs ! k) = remove_nth k ?xs"
    using assms(1) xs(1) k by (simp add: contiki_simps filter_neq_nth)
  moreover obtain f where "cb_log_pop (me_cb s) = Some f" "fst (f u a j) = 0" for u a j
    using assms(4) by (auto simp: pop_ok_def)
  ultimately show ?thesis
    using assms(3) i' range(4) xs(2,3) ct_memb_free [OF assms(1) xs(2)]
    by (intro exI [of _ "snd (f (udata s) (entries_mem s (?xs ! k)) i)"])
       (simp add: log_delete_def raft_pop_log_def case_prod_beta c_int_in_int)
qed

lemma log_delete_runs:
  assumes "contiki_ok ct" "log_wf s" "log_cb (me_log s)" "pop_ok (me_cb s)"
    and "log_lookup s i = Some e" "\<not> raft_entry_is_cfg_change e"
  shows "runs (log_delete ct s i) (\<lambda>(c, s'). c = 0)"
  using log_delete_run [OF assms] by (auto simp: runs_def)

lemma remove_nth_idx:
  assumes "log_wf s" "dropped s < i" "i \<le> raft_get_current_idx s"
    and "a \<in> set (remove_nth (nat (i - dropped s - 1)) (entries_list (me_log s)))"
  shows "ety_idx (entries_mem s a) \<noteq> to_unsigned i"
proof -
  let ?xs = "entries_list (me_log s)" and ?k = "nat (i - dropped s - 1)"
  note range = current_idx_range [OF assms(1)]
  have i: "0 < i" "in_int i" using assms(2,3) range by (auto simp: in_int_iff)
  have k: "?k < length ?xs"
    using assms(2,3) current_idx_window [OF assms(1)] by (simp add: nat_less_iff)
  have dis: "distinct ?xs" using assms(1) by (simp add: log_wf_def)
  have "a \<in> set ?xs" "a \<noteq> ?xs ! ?k"
    using assms(4) arg_cong [OF filter_neq_nth [OF dis k], of set] by auto
  then obtain j where "j < length ?xs" "a = ?xs ! j" "j \<noteq> ?k" by (metis in_set_conv_nth)
  moreover have "uint (ety_idx (window s ! j)) = dropped s + int j + 1" if "j < length ?xs" for j
    using that assms(1) by (simp add: log_wf_def)
  ultimately have "uint (ety_idx (entries_mem s a)) \<noteq> i" using assms(2) by (auto simp: window_def)
  then show ?thesis using to_unsigned_eq_iff [of i] i by simp
qed

text \<open>Deleting an entry before the last one and appending another: the index of the deleted one is lost.\<close>

lemma log_delete_append:
  assumes "contiki_ok ct" "log_wf s" "log_cb (me_log s)" "pop_ok (me_cb s)" "offer_ok (me_cb s)"
    and "log_lookup s i = Some x" "\<not> raft_entry_is_cfg_change x" "\<not> raft_entry_is_cfg_change e"
    and "i < raft_get_current_idx s"
  shows "\<exists>t e' s'. log_delete ct s i = Ok (0, t) \<and> log_append_entry ct t e = Ok (0, e', s') \<and>
    log_lookup s' i = None \<and> raft_get_current_idx s' = raft_get_current_idx s"
proof -
  let ?k = "nat (i - dropped s - 1)" and ?xs = "entries_list (me_log s)"
  let ?ys = "remove_nth ?k ?xs"
  note range = current_idx_range [OF assms(2)]
  from log_delete_run [OF assms(1-4,6,7)] obtain t where del: "log_delete ct s i = Ok (0, t)"
    and t: "me_log t = (me_log s)\<lparr>count := count (me_log s) - 1, entries_list := ?ys\<rparr>"
      "entries_used t = set ?ys" "entries_mem t = entries_mem s" "me_cb t = me_cb s"
    by auto
  have i: "dropped s < i"
    using assms(6) by (simp add: log_lookup_wf [OF assms(2)] split: if_splits)
  have len: "length ?ys < MAX_ENTRIES"
  proof -
    have "?k < length ?xs" using i assms(9) current_idx_window [OF assms(2)] by (simp add: nat_less_iff)
    then have "length ?ys < length ?xs" by (simp add: remove_nth_def)
    with pool_bound [OF log_wf_pool [OF assms(2)]] show ?thesis by simp
  qed
  have "set ?ys \<subseteq> set ?xs" "distinct ?ys"
    using assms(2) by (auto simp: remove_nth_def log_wf_def set_take_disj_set_drop_if_distinct
        dest: in_set_takeD in_set_dropD)
  then have pool: "pool_ok t" using assms(2) t by (auto simp: pool_ok_def log_wf_def)
  have cur: "raft_get_current_idx t = raft_get_current_idx s - 1" "in_int (raft_get_current_idx s)"
    "base (me_log t) = 0" "count (me_log t) + 1 = raft_get_current_idx s"
    using t(1) assms(2) by (simp_all add: log_wf_def raft_get_current_idx_def log_get_current_idx_def log_count_def)
  from log_append_entry_pool_runs [OF assms(1) pool _ assms(8)] obtain e' s'
    where app: "log_append_entry ct t e = Ok (0, e', s')"
    using assms(5) t(4) cur(2-4) by (auto simp: runs_def)
  from postD [OF log_append_entry_pool [OF assms(1) pool] app] obtain b
    where e': "e' = e\<lparr>ety_idx := to_unsigned (raft_get_current_idx s)\<rparr>"
      and b: "b \<notin> set ?ys" "entries_list (me_log s') = ?ys @ [b]" "entries_mem s' = (entries_mem s)(b := e')"
      and cnt: "base (me_log s') = 0" "count (me_log s') = raft_get_current_idx s"
    using len t cur by (auto simp: room_def)
  have "to_unsigned (raft_get_current_idx s) \<noteq> to_unsigned i"
    using to_unsigned_inj [of "raft_get_current_idx s" i] range(1,2,5) i assms(9) by (auto simp: in_int_iff)
  then have "find_idx (entries_mem s') (?ys @ [b]) i = None"
    using remove_nth_idx [OF assms(2) i] assms(9) b e' by (auto simp: find_idx_def find_None_iff)
  then have "log_lookup s' i = None" using b(2) by (simp add: log_lookup_def log_get_at_idx_def Let_def)
  moreover have "raft_get_current_idx s' = raft_get_current_idx s"
    unfolding raft_get_current_idx_def [of s'] log_get_current_idx_def log_count_def cnt by simp
  ultimately show ?thesis using del app by blast
qed

lemma log_append_keeps_cb:
  "post (log_append_entry ct s e) (\<lambda>(c, e', s'). log_cb (me_log s') = log_cb (me_log s))"
proof -
  have "log_cb (me_log (log_make_room ct s)) = log_cb (me_log s)"
    by (simp add: log_make_room_def pop_and_free_def Let_def case_prod_beta split: option.split)
  then show ?thesis
    unfolding log_append_entry_def
    by (auto simp: wp Let_def case_prod_beta membership_step_def views split: option.split
        intro!: post_mono [OF raft_offer_log_frame])
qed

text \<open>
  Appending an entry that changes no configuration and deleting it again succeeds and restores
  the log: the last index is the old one, and so are the entries, except that an append to a full
  window has given up the oldest one.
\<close>

theorem log_append_delete_roundtrip:
  assumes "contiki_ok ct" "log_wf s" "offer_ok (me_cb s)" "pop_ok (me_cb s)" "log_cb (me_log s)"
    and "\<not> raft_entry_is_cfg_change e" "raft_get_current_idx s < INT_MAX"
  shows "\<exists>e' s1 s2. log_append_entry ct s e = Ok (0, e', s1) \<and>
    log_delete ct s1 (raft_get_current_idx s1) = Ok (0, s2) \<and> log_wf s2 \<and>
    raft_get_current_idx s2 = raft_get_current_idx s \<and>
    window s2 = (if length (window s) = MAX_ENTRIES then tl (window s) else window s)"
proof -
  from log_append_entry_runs [OF assms(1-3,6,7)] obtain e' s1
    where ap: "log_append_entry ct s e = Ok (0, e', s1)" by (auto simp: runs_def)
  have e': "e' = e\<lparr>ety_idx := to_unsigned (raft_get_current_idx s + 1)\<rparr>" "appended s e' s1"
    using postD [OF log_append_entry_post [OF assms(1,2)] ap] by auto
  then have wf1: "log_wf s1" and win: "window s1 = room (window s) @ [e']"
    and cur1: "raft_get_current_idx s1 = raft_get_current_idx s + 1"
    by (simp_all add: appended_def)
  have "append_step s s1" using postD [OF log_append_entry_frame ap] by simp
  then have cb: "me_cb s1 = me_cb s" by (simp add: append_step_def views)
  have "log_lookup s1 (raft_get_current_idx s1) = Some e'"
    using lg.lookup_append_new [of ct s e' s1] ap assms
    by (auto simp: log_ready_def log_append_ok_def)
  moreover have "log_cb (me_log s1)" using postD [OF log_append_keeps_cb ap] assms(5) by simp
  moreover have "\<not> raft_entry_is_cfg_change e'"
    using assms(6) e'(1) by (simp add: raft_entry_is_cfg_change_def)
  ultimately have "runs (log_delete ct s1 (raft_get_current_idx s1)) (\<lambda>(c, s'). c = 0)"
    using log_delete_runs [OF assms(1) wf1] assms(4) cb by simp
  then obtain s2 where del: "log_delete ct s1 (raft_get_current_idx s1) = Ok (0, s2)"
    by (auto simp: runs_def)
  have "window s1 \<noteq> []" by (simp add: win del: window_Nil)
  from postD [OF log_delete_last [OF assms(1) wf1 this] del]
  have s2: "log_wf s2" "window s2 = butlast (window s1)" "dropped s2 = dropped s1" by auto
  then have win2: "window s2 = room (window s)" by (simp add: win)
  have "raft_get_current_idx s2 = raft_get_current_idx s"
    using current_idx_window [OF wf1] current_idx_window [OF s2(1)] cur1 arg_cong [OF win, of length]
      arg_cong [OF win2, of length] s2(3) by simp
  with ap del s2(1) win2 show ?thesis unfolding room_def by blast
qed

theorem log_append_delete_roundtrip_witness:
  "\<exists>e' s1 s2. log_append_entry ref_contiki sample_server (sample_entry 1 0) = Ok (0, e', s1) \<and>
    log_delete ref_contiki s1 (raft_get_current_idx s1) = Ok (0, s2) \<and> log_wf s2 \<and>
    raft_get_current_idx s2 = 2 \<and> window s2 = [sample_entry 1 1, sample_entry 1 2]"
proof -
  have "offer_ok (me_cb sample_server)" "pop_ok (me_cb sample_server)"
    by (simp_all add: offer_ok_def pop_ok_def)
  from log_append_delete_roundtrip [OF ref_contiki_ok sample_log_wf this, of "sample_entry 1 0"]
  show ?thesis
    by (simp add: raft_entry_is_cfg_change_def INT_MAX_def MAX_ENTRIES_def)
qed

text \<open>
  C24: Deleting at an index takes out that one entry only, and the count goes down by one.  When the
  index is the last one the log stays well-formed; otherwise entries beyond the new last index remain
  and the log is not well-formed any more.
\<close>

theorem log_delete_one_entry:
  assumes "contiki_ok ct" "log_wf s" "dropped s < i" "i \<le> raft_get_current_idx s"
    and "log_delete ct s i = Ok (0, s')"
  shows "window s' = take (nat (i - dropped s - 1)) (window s) @ drop (nat (i - dropped s)) (window s) \<and>
    raft_get_current_idx s' = raft_get_current_idx s - 1 \<and>
    (log_wf s' \<longleftrightarrow> i = raft_get_current_idx s)"
proof -
  let ?k = "nat (i - dropped s - 1)"
  from postD [OF log_delete_post [OF assms(1-4)] assms(5)]
  have win: "window s' = remove_nth ?k (window s)"
    and cur: "raft_get_current_idx s' = raft_get_current_idx s - 1" by auto
  have k: "?k < length (window s)" and len: "raft_get_current_idx s = dropped s + int (length (window s))"
    using assms(3,4) current_idx_window [OF assms(2)] by (simp_all add: nat_less_iff)
  have "log_wf s' \<longleftrightarrow> i = raft_get_current_idx s"
  proof
    assume "i = raft_get_current_idx s"
    moreover have "window s \<noteq> []" using k by auto
    ultimately show "log_wf s'" using postD [OF log_delete_last [OF assms(1,2)]] assms(5) by auto
  next
    assume wf': "log_wf s'"
    show "i = raft_get_current_idx s"
    proof (rule ccontr)
      assume "i \<noteq> raft_get_current_idx s"
      then have k': "Suc ?k < length (window s)" using assms(3,4) len by linarith
      have "last (window s') = last (window s)" "window s' \<noteq> []"
        using k' by (simp_all add: win remove_nth_def del: window_Nil)
      moreover have "window s \<noteq> []" using k' by auto
      ultimately show False
        using last_window_idx [OF assms(2)] last_window_idx [OF wf'] cur by simp
    qed
  qed
  with win cur show ?thesis
    using assms(3) by (simp add: remove_nth_def nat_diff_distrib' flip: Suc_nat_eq_nat_zadd1)
qed

theorem log_delete_one_entry_witness:
  "\<exists>s'. log_delete ref_contiki sample_server 1 = Ok (0, s') \<and>
     window s' = [sample_entry 1 2] \<and> raft_get_current_idx s' = 1 \<and> \<not> log_wf s'"
proof -
  have "pop_ok (me_cb sample_server)" by (simp add: pop_ok_def)
  from log_delete_runs [OF ref_contiki_ok sample_log_wf _ this, of 1 "sample_entry 1 1"]
  obtain s' where del: "log_delete ref_contiki sample_server 1 = Ok (0, s')"
    by (auto simp: log_lookup_wf raft_entry_is_cfg_change_def runs_def)
  show ?thesis
    using log_delete_one_entry [OF ref_contiki_ok sample_log_wf _ _ del] del by simp
qed

text \<open>
  C23: Clearing a well-formed log ends, frees every block and leaves a well-formed empty log.
\<close>

theorem log_clear_total:
  assumes "contiki_ok ct" "log_wf s"
  shows "\<exists>s'. log_clear ct s = Ok s' \<and> log_wf s' \<and> window s' = [] \<and> entries_used s' = {} \<and>
    raft_get_current_idx s' = 0 \<and> election_of s' = election_of s \<and> members_of s' = members_of s"
  using log_clear_wf [OF assms]
    empty_log_wf [of "s\<lparr>me_log := (me_log s)\<lparr>entries_list := [], count := 0, base := 0\<rparr>,
      entries_used := {}\<rparr>"]
  by (simp add: views)

theorem log_clear_total_witness:
  "\<exists>s'. log_clear ref_contiki sample_server = Ok s' \<and> window s' = [] \<and> entries_used s' = {}"
  using log_clear_total [OF ref_contiki_ok sample_log_wf] by auto

text \<open>
  C25: When the \<^verbatim>\<open>log_offer\<close> callback refuses an entry, the append returns the callback's code, but
  the entry is already in the list and stays there without being counted: the log is no longer
  well-formed.
\<close>

theorem log_append_refused_keeps_entry:
  assumes "contiki_ok ct" "log_wf s" "log_cb (me_log s)" "cb_log_offer (me_cb s) = Some f"
    and "\<forall>u e i. fst (f u e i) \<noteq> 0" "raft_get_current_idx s < INT_MAX"
  shows "\<exists>c e' s'. log_append_entry ct s e = Ok (c, e', s') \<and> c \<noteq> 0 \<and>
    window s' = (if length (window s) = MAX_ENTRIES then tl (window s) else window s) @ [e'] \<and>
    raft_get_current_idx s' = raft_get_current_idx s \<and> \<not> log_wf s'"
proof -
  let ?xs = "entries_list (me_log s)"
  from assms(1) log_wf_pool [OF assms(2)] obtain b where b: "b < MAX_ENTRIES" "b \<notin> set (room ?xs)"
    "ct_memb_alloc ct MAX_ENTRIES (set (room ?xs)) = (Some b, insert b (set (room ?xs)))"
    by (rule append_block)
  let ?e = "e\<lparr>ety_idx := to_unsigned (raft_get_current_idx s + 1)\<rparr>"
  note range = current_idx_range [OF assms(2)]
  have in1: "in_int (raft_get_current_idx s + 1)"
    using range(1) assms(6) by (simp add: in_int_iff INT_MAX_def)
  let ?r = "f (udata s) ?e (raft_get_current_idx s + 1)"
  define s' where "s' = s\<lparr>me_log := (me_log s)\<lparr>entries_list := room ?xs @ [b]\<rparr>,
      entries_used := insert b (set (room ?xs)), entries_mem := (entries_mem s)(b := ?e),
      udata := snd ?r\<rparr>"
  have run: "log_append_entry ct s e = Ok (fst ?r, ?e, s')"
    using assms(3-5) b(2)
    by (simp add: log_append_entry_def log_make_room_wf [OF assms(1) log_wf_pool [OF assms(2)]] range b(3) in1 c_int_in_int
        Let_def contiki_simps assms(1) case_prod_beta s'_def)
  have win: "window s' = room (window s) @ [?e]"
    using b(2) by (simp add: window_def s'_def room_props(4) [symmetric])
  have cur: "raft_get_current_idx s' = raft_get_current_idx s"
    by (simp add: s'_def raft_get_current_idx_def log_get_current_idx_def log_count_def)
  have "\<not> log_wf s'"
    using last_window_idx [of s'] win cur in1 range(1) by auto
  with run win cur assms(5) show ?thesis unfolding room_def by blast
qed

theorem log_append_refused_keeps_entry_witness:
  "\<exists>c e' s'. log_append_entry ref_contiki
       (sample_server\<lparr>me_cb := sample_cbs\<lparr>cb_log_offer := Some (\<lambda>u e i. (-4, u))\<rparr>\<rparr>)
       (sample_entry 1 0) = Ok (c, e', s') \<and> c \<noteq> 0 \<and>
     window s' = [sample_entry 1 1, sample_entry 1 2, e'] \<and> raft_get_current_idx s' = 2 \<and> \<not> log_wf s'"
proof -
  let ?s = "sample_server\<lparr>me_cb := sample_cbs\<lparr>cb_log_offer := Some (\<lambda>u e i. (-4, u))\<rparr>\<rparr>"
  have "log_of ?s = log_of sample_server" by (simp add: views)
  note same = log_of_window [OF this]
  have wf: "log_wf ?s" using same sample_log_wf by blast
  show ?thesis
    using log_append_refused_keeps_entry [OF ref_contiki_ok wf, of "\<lambda>u e i. (-4, u)"] same
    by (simp add: INT_MAX_def MAX_ENTRIES_def)
qed

end
