(* ===== verification/Raft_Send.thy ===== *)
theory Raft_Send
  imports Raft_Log
begin

text \<open>
  The outgoing side of \<^verbatim>\<open>src/raft_server.c\<close>: entries into and out of the log with the
  bookkeeping of voting changes, and the messages a server sends.  A node argument is the address of a
  node, so the sources' \<^verbatim>\<open>assert(node)\<close> holds of it.
\<close>

section \<open>Entries\<close>

definition raft_append_entry ::
  "contiki \<Rightarrow> 'u raft_server \<Rightarrow> raft_entry \<Rightarrow> (int \<times> raft_entry \<times> 'u raft_server) result" where
  "raft_append_entry ct s ety =
     (let s = (if raft_entry_is_voting_cfg_change ety
               then s\<lparr>voting_cfg_change_log_idx := raft_get_current_idx s\<rparr> else s)
      in log_append_entry ct s ety)"

definition raft_delete_entry_from_idx ::
  "contiki \<Rightarrow> 'u raft_server \<Rightarrow> int \<Rightarrow> (int \<times> 'u raft_server) result" where
  "raft_delete_entry_from_idx ct s i =
     bind (c_assert (raft_get_commit_idx s < i)) (\<lambda>_.
     let s = (if i \<le> voting_cfg_change_log_idx s
              then s\<lparr>voting_cfg_change_log_idx := -1\<rparr> else s)
     in log_delete ct s i)"

text \<open>
  \<^verbatim>\<open>raft_get_next_log_entry\<close> delegates to the log.  The chain that starts at a pointer into the
  log is the rest of the list from there.
\<close>

definition raft_get_next_log_entry :: "raft_entry list \<Rightarrow> raft_entry list" where
  "raft_get_next_log_entry chain = log_get_next_entry chain"

definition entry_chain :: "'u raft_server \<Rightarrow> nat option \<Rightarrow> raft_entry list" where
  "entry_chain s p =
     (case p of
        None \<Rightarrow> []
      | Some a \<Rightarrow> map (entries_mem s) (dropWhile (\<lambda>b. b \<noteq> a) (entries_list (me_log s))))"

section \<open>Messages\<close>

definition raft_send_requestvote ::
  "'u raft_server \<Rightarrow> nat \<Rightarrow> (int \<times> 'u raft_server) result" where
  "raft_send_requestvote s a =
     bind (c_assert (me_node s \<noteq> Some a)) (\<lambda>_.
     let rv = \<lparr>rv_term = current_term s,
               candidate_id = raft_get_nodeid s,
               last_log_idx = raft_get_current_idx s,
               last_log_term = raft_get_last_log_term s\<rparr>
     in case cb_send_requestvote (me_cb s) of
          Some send_requestvote \<Rightarrow>
            let (e, u) = send_requestvote (udata s) (nodes_mem s a) rv
            in Ok (e, s\<lparr>udata := u\<rparr>)
        | None \<Rightarrow> Ok (0, s))"

definition raft_send_appendentries ::
  "contiki \<Rightarrow> 'u raft_server \<Rightarrow> nat \<Rightarrow> (int \<times> 'u raft_server) result" where
  "raft_send_appendentries ct s a =
     bind (c_assert (me_node s \<noteq> Some a)) (\<lambda>_.
     case cb_send_appendentries (me_cb s) of
       None \<Rightarrow> Ok (-1, s)
     | Some send_appendentries \<Rightarrow>
         let nxt = raft_node_get_next_idx (nodes_mem s a) in
         if 0 < snapshot_last_idx s \<and> nxt < snapshot_last_idx s
         then (case cb_send_snapshot (me_cb s) of
                 Some send_snapshot \<Rightarrow>
                   let (_, u) = send_snapshot (udata s) (nodes_mem s a)
                   in Ok (RAFT_ERR_NEEDS_SNAPSHOT, s\<lparr>udata := u\<rparr>)
               | None \<Rightarrow> Ok (RAFT_ERR_NEEDS_SNAPSHOT, s))
         else
           bind (raft_get_entries_from_idx ct s nxt) (\<lambda>(etys, n).
           bind (c_assert ((etys = None \<and> n = 0) \<or> (etys \<noteq> None \<and> 0 < n))) (\<lambda>_.
           let ae = \<lparr>ae_term = current_term s,
                     prev_log_idx = (if 1 < nxt then nxt - 1 else 0),
                     prev_log_term =
                       (if 1 < nxt
                        then (case raft_get_entry_from_idx s (nxt - 1) of
                                Some p \<Rightarrow> to_signed (ety_term (entries_mem s p))
                              | None \<Rightarrow> snapshot_last_term s)
                        else 0),
                     leader_commit = raft_get_commit_idx s,
                     n_entries = n,
                     entries = entry_chain s etys\<rparr>;
               (e, u) = send_appendentries (udata s) (nodes_mem s a) ae
           in Ok (e, s\<lparr>udata := u\<rparr>))))"

text \<open>The loop of \<^verbatim>\<open>raft_send_appendentries_all\<close> returns at the first error.\<close>

fun send_all_loop ::
  "contiki \<Rightarrow> nat list \<Rightarrow> 'u raft_server \<Rightarrow> (int \<times> 'u raft_server) result" where
  "send_all_loop ct [] s = Ok (0, s)"
| "send_all_loop ct (a # as) s =
     (if me_node s = Some a \<or> \<not> raft_node_is_active (nodes_mem s a) then send_all_loop ct as s
      else bind (raft_send_appendentries ct s a) (\<lambda>(e, s).
           if e \<noteq> 0 then Ok (e, s) else send_all_loop ct as s))"

definition raft_send_appendentries_all ::
  "contiki \<Rightarrow> 'u raft_server \<Rightarrow> (int \<times> 'u raft_server) result" where
  "raft_send_appendentries_all ct s =
     (let s = s\<lparr>timeout_elapsed := 0\<rparr> in send_all_loop ct (nodes_list s) s)"

section \<open>Frames\<close>

text \<open>Sending changes the user's data only.\<close>

definition send_step :: "'u raft_server \<Rightarrow> 'u raft_server \<Rightarrow> bool" where
  "send_step s s' \<longleftrightarrow> (\<exists>u. s' = s\<lparr>udata := u\<rparr>)"

lemma send_step_refl [simp]: "send_step s s"
  unfolding send_step_def by (rule exI [of _ "udata s"]) simp

lemma send_step_udata [simp]: "send_step s (s\<lparr>udata := u\<rparr>)"
  by (auto simp: send_step_def)

lemma send_step_trans: "send_step s t \<Longrightarrow> send_step t u \<Longrightarrow> send_step s u"
  by (auto simp: send_step_def)

lemma send_step_same:
  assumes "send_step s s'"
  shows "election_of s' = election_of s" "log_of s' = log_of s" "progress_of s' = progress_of s"
    "members_of s' = members_of s" "config_of s' = config_of s" "me_state s' = me_state s"
    "current_leader s' = current_leader s" "timeout_elapsed s' = timeout_elapsed s"
    "election_timeout_rand s' = election_timeout_rand s" "rand_calls s' = rand_calls s"
    "voting_cfg_change_log_idx s' = voting_cfg_change_log_idx s" "connected s' = connected s"
  using assms by (auto simp: send_step_def views)

lemma raft_send_requestvote_frame:
  "post (raft_send_requestvote s a) (\<lambda>(e, s'). send_step s s')"
  by (auto simp: raft_send_requestvote_def wp Let_def case_prod_beta split: option.split)

lemma raft_send_appendentries_frame:
  "post (raft_send_appendentries ct s a) (\<lambda>(e, s'). send_step s s')"
  by (auto simp: raft_send_appendentries_def wp Let_def case_prod_beta split: option.split
      intro!: postI)

lemma send_all_loop_frame: "post (send_all_loop ct as s) (\<lambda>(e, s'). send_step s s')"
proof (induction as arbitrary: s)
  case Nil
  then show ?case by (simp add: wp)
next
  case (Cons a as)
  then show ?case
    by (auto simp: wp intro!: post_mono [OF raft_send_appendentries_frame] post_mono [OF Cons.IH]
        intro: send_step_trans)
qed

lemma raft_send_appendentries_all_frame:
  "post (raft_send_appendentries_all ct s) (\<lambda>(e, s'). send_step (s\<lparr>timeout_elapsed := 0\<rparr>) s')"
  unfolding raft_send_appendentries_all_def Let_def by (rule send_all_loop_frame)

lemma raft_append_entry_frame:
  "post (raft_append_entry ct s e) (\<lambda>(c, e', s'). append_step s s')"
  unfolding raft_append_entry_def Let_def
  by (rule post_mono [OF log_append_entry_frame]) (simp split: if_splits add: append_step_def views case_prod_beta)

lemma raft_append_entry_post:
  assumes "contiki_ok ct" "log_wf s"
  shows "post (raft_append_entry ct s e) (\<lambda>(c, e', s').
    e' = e\<lparr>ety_idx := to_unsigned (raft_get_current_idx s + 1)\<rparr> \<and> (c = 0 \<longrightarrow> appended s e' s'))"
proof -
  define s1 where "s1 = (if raft_entry_is_voting_cfg_change e
    then s\<lparr>voting_cfg_change_log_idx := raft_get_current_idx s\<rparr> else s)"
  have "log_of s1 = log_of s" by (simp add: s1_def views)
  note same = log_of_window [OF this]
  then have "post (log_append_entry ct s1 e) (\<lambda>(c, e', s').
      e' = e\<lparr>ety_idx := to_unsigned (raft_get_current_idx s1 + 1)\<rparr> \<and> (c = 0 \<longrightarrow> appended s1 e' s'))"
    using assms by (intro log_append_entry_post) auto
  then show ?thesis
    using same by (simp add: raft_append_entry_def s1_def [symmetric] appended_def)
qed

lemma raft_append_entry_runs:
  assumes "contiki_ok ct" "log_wf s" "offer_ok (me_cb s)" "\<not> raft_entry_is_cfg_change e"
    and "raft_get_current_idx s < INT_MAX"
  shows "runs (raft_append_entry ct s e) (\<lambda>(c, e', s'). c = 0)"
proof -
  have "\<not> raft_entry_is_voting_cfg_change e"
    using assms(4) by (auto simp: raft_entry_is_cfg_change_def raft_entry_is_voting_cfg_change_def)
  then show ?thesis
    using log_append_entry_runs [OF assms] by (simp add: raft_append_entry_def)
qed

lemma raft_delete_entry_frame:
  "post (raft_delete_entry_from_idx ct s i) (\<lambda>(c, s'). append_step s s')"
  unfolding raft_delete_entry_from_idx_def Let_def wp
  by (rule impI, rule post_mono [OF log_delete_frame]) (simp split: if_splits add: append_step_def views case_prod_beta)

section \<open>The entries a message carries\<close>

text \<open>
  The appendentries message for a node: everything from the node's next index on, with the index and
  term of the entry before it.
\<close>

definition ae_for :: "'u raft_server \<Rightarrow> nat \<Rightarrow> msg_appendentries" where
  "ae_for s a =
     (let nxt = next_idx (nodes_mem s a) in
      \<lparr>ae_term = current_term s,
       prev_log_idx = (if 1 < nxt then nxt - 1 else 0),
       prev_log_term =
         (if 1 < nxt
          then (case log_lookup s (nxt - 1) of
                  Some p \<Rightarrow> to_signed (ety_term p)
                | None \<Rightarrow> snapshot_last_term s)
          else 0),
       leader_commit = commit_idx s,
       n_entries = (if nxt \<le> raft_get_current_idx s then raft_get_current_idx s - nxt + 1 else 0),
       entries = (if nxt \<le> raft_get_current_idx s
                  then drop (nat (nxt - dropped s - 1)) (window s) else [])\<rparr>)"

lemma raft_send_appendentries_message:
  assumes "contiki_ok ct" "log_wf s" "me_node s \<noteq> Some a"
    and "snapshot_last_idx s = 0" "dropped s < next_idx (nodes_mem s a)"
    and "cb_send_appendentries (me_cb s) = Some f"
  shows "raft_send_appendentries ct s a =
    (let (e, u) = f (udata s) (nodes_mem s a) (ae_for s a) in Ok (e, s\<lparr>udata := u\<rparr>))"
proof (cases "next_idx (nodes_mem s a) \<le> raft_get_current_idx s")
  case True
  then show ?thesis
    using assms log_get_from_idx_wf [OF assms(1,2,5) True] chain_from_window [OF assms(2,5) True]
    by (auto simp: raft_send_appendentries_def ae_for_def Let_def node_get_defs entry_chain_def
        raft_get_entries_from_idx_def raft_get_entry_from_idx_def raft_get_commit_idx_def
        log_lookup_def case_prod_beta split: option.split)
next
  case False
  have "0 < next_idx (nodes_mem s a)" using assms(5) current_idx_range [OF assms(2)] by simp
  with False show ?thesis
    using assms log_get_from_idx_beyond [OF assms(2), of "next_idx (nodes_mem s a)" ct]
    by (auto simp: raft_send_appendentries_def ae_for_def Let_def node_get_defs entry_chain_def
        raft_get_entries_from_idx_def raft_get_entry_from_idx_def raft_get_commit_idx_def
        log_lookup_def case_prod_beta split: option.split)
qed

text \<open>The user's data after a message has been handed to the callback, if there is one.\<close>

definition hand_over :: "'u raft_server \<Rightarrow> 'u \<Rightarrow> raft_node \<Rightarrow> msg_appendentries \<Rightarrow> 'u" where
  "hand_over s u n m =
     (case cb_send_appendentries (me_cb s) of Some f \<Rightarrow> snd (f u n m) | None \<Rightarrow> u)"

lemma raft_send_appendentries_hands_over:
  assumes "contiki_ok ct" "log_wf s" "me_node s \<noteq> Some a"
    and "snapshot_last_idx s = 0" "dropped s < next_idx (nodes_mem s a)"
  shows "\<exists>e. raft_send_appendentries ct s a =
    Ok (e, s\<lparr>udata := hand_over s (udata s) (nodes_mem s a) (ae_for s a)\<rparr>)"
proof (cases "cb_send_appendentries (me_cb s)")
  case None
  then show ?thesis using assms(3) by (simp add: raft_send_appendentries_def hand_over_def)
next
  case (Some f)
  from raft_send_appendentries_message [OF assms Some] Some show ?thesis
    by (simp add: hand_over_def case_prod_beta)
qed

text \<open>The peers a leader keeps up to date.\<close>

definition is_peer :: "'u raft_server \<Rightarrow> nat \<Rightarrow> bool" where
  "is_peer s a \<longleftrightarrow> me_node s \<noteq> Some a \<and> raft_node_is_active (nodes_mem s a)"

lemma ae_for_cong:
  fixes s s' :: "'u raft_server"
  assumes "election_of s' = election_of s" "log_of s' = log_of s" "members_of s' = members_of s"
    and "progress_of s' = progress_of s" "config_of s' = config_of s"
  shows "ae_for s' = ae_for s" "is_peer s' = is_peer s"
proof -
  have same: "window s' = window s" "dropped s' = dropped s" "log_lookup s' = log_lookup s"
    "raft_get_current_idx s' = raft_get_current_idx s"
    using log_of_window [OF assms(2)] by simp_all
  have fields: "current_term s' = current_term s" "commit_idx s' = commit_idx s"
    "snapshot_last_term s' = snapshot_last_term s" "nodes_mem s' = nodes_mem s" "me_node s' = me_node s"
    using assms(1,3-5) by (simp_all add: views)
  show "ae_for s' = ae_for s"
    by (simp add: fun_eq_iff ae_for_def same fields Let_def cong: option.case_cong)
  show "is_peer s' = is_peer s" by (simp add: fun_eq_iff is_peer_def fields)
qed

lemma send_all_loop_run:
  assumes "contiki_ok ct" "log_wf s" "snapshot_last_idx s = 0"
    and "cb_send_appendentries (me_cb s) = Some f" "\<forall>u n m. fst (f u n m) = 0"
    and "\<forall>a \<in> set xs. is_peer s a \<longrightarrow> dropped s < next_idx (nodes_mem s a)"
  shows "send_all_loop ct xs s =
    Ok (0, s\<lparr>udata := fold (\<lambda>a u. snd (f u (nodes_mem s a) (ae_for s a)))
                        (filter (is_peer s) xs) (udata s)\<rparr>)"
  using assms(2-4,6)
proof (induction xs arbitrary: s)
  case (Cons x xs)
  show ?case
  proof (cases "is_peer s x")
    case False
    then show ?thesis using Cons by (auto simp: is_peer_def)
  next
    case True
    let ?s = "s\<lparr>udata := snd (f (udata s) (nodes_mem s x) (ae_for s x))\<rparr>"
    have lg: "log_of ?s = log_of s" by (simp add: views)
    note same = log_of_window [OF lg]
    have ae: "ae_for ?s = ae_for s" "is_peer ?s = is_peer s"
      by (rule ae_for_cong; simp add: views)+
    have "log_wf ?s" using same Cons.prems(1) by blast
    moreover have "\<forall>a \<in> set xs. is_peer ?s a \<longrightarrow> dropped ?s < next_idx (nodes_mem ?s a)"
      using same Cons.prems(4) ae(2) by simp
    ultimately have "send_all_loop ct xs ?s =
        Ok (0, ?s\<lparr>udata := fold (\<lambda>a u. snd (f u (nodes_mem ?s a) (ae_for ?s a)))
                            (filter (is_peer ?s) xs) (udata ?s)\<rparr>)"
      using Cons.prems(2,3) by (intro Cons.IH) simp_all
    moreover have "raft_send_appendentries ct s x = Ok (0, ?s)"
      using raft_send_appendentries_message [OF assms(1) Cons.prems(1), of x f] Cons.prems True assms(5)
      by (simp add: is_peer_def case_prod_beta)
    ultimately show ?thesis using True by (simp add: is_peer_def [of s x] ae)
  qed
qed simp

lemma raft_send_appendentries_all_at:
  assumes "contiki_ok ct" "log_wf s" "snapshot_last_idx s = 0"
    and "cb_send_appendentries (me_cb s) = Some f" "\<forall>u n m. fst (f u n m) = 0"
    and "\<forall>a \<in> set (nodes_list s). is_peer s a \<longrightarrow> dropped s < next_idx (nodes_mem s a)"
  shows "raft_send_appendentries_all ct (s\<lparr>timeout_elapsed := t\<rparr>) =
    Ok (0, s\<lparr>timeout_elapsed := 0,
            udata := fold (\<lambda>a u. snd (f u (nodes_mem s a) (ae_for s a)))
                       (filter (is_peer s) (nodes_list s)) (udata s)\<rparr>)"
proof -
  let ?s = "s\<lparr>timeout_elapsed := 0\<rparr>"
  have lg: "log_of ?s = log_of s" by (simp add: views)
  note same = log_of_window [OF lg]
  have ae: "ae_for ?s = ae_for s" "is_peer ?s = is_peer s"
    by (rule ae_for_cong; simp add: views)+
  have "log_wf ?s" using same assms(2) by blast
  moreover have "\<forall>a \<in> set (nodes_list s). is_peer ?s a \<longrightarrow> dropped ?s < next_idx (nodes_mem ?s a)"
    using same assms(6) ae(2) by simp
  ultimately have "send_all_loop ct (nodes_list s) ?s =
      Ok (0, ?s\<lparr>udata := fold (\<lambda>a u. snd (f u (nodes_mem ?s a) (ae_for ?s a)))
                          (filter (is_peer ?s) (nodes_list s)) (udata ?s)\<rparr>)"
    using assms(3-5) by (intro send_all_loop_run [OF assms(1)]) simp_all
  then show ?thesis by (simp add: raft_send_appendentries_all_def ae)
qed

text \<open>
  C12: A heartbeat round, with a transport that reports success and no peer behind the window: the run
  does not fault, restarts the timer and sends every active node but this server exactly one message,
  in list order.  The message for a node carries all entries of the log from that node's next index
  on, their number, the index and term of the entry before them, and the leader's term and commit
  index.
\<close>

theorem raft_send_appendentries_all_spec:
  assumes "contiki_ok ct" "log_wf s" "snapshot_last_idx s = 0"
    and "cb_send_appendentries (me_cb s) = Some f" "\<forall>u n m. fst (f u n m) = 0"
    and "\<forall>a \<in> set (nodes_list s). is_peer s a \<longrightarrow> dropped s < next_idx (nodes_mem s a)"
  shows "raft_send_appendentries_all ct s =
    Ok (0, s\<lparr>timeout_elapsed := 0,
            udata := fold (\<lambda>a u. snd (f u (nodes_mem s a) (ae_for s a)))
                       (filter (is_peer s) (nodes_list s)) (udata s)\<rparr>)"
  using raft_send_appendentries_all_at [OF assms, of "timeout_elapsed s"] by simp

theorem raft_send_appendentries_all_spec_witness:
  "\<exists>s'. raft_send_appendentries_all ref_contiki sample_server = Ok (0, s') \<and> udata s' = 2"
  using raft_send_appendentries_all_spec [OF ref_contiki_ok sample_log_wf, of "\<lambda>u n m. (0, u + 1)"]
  by (simp add: is_peer_def node_read_defs)

text \<open>
  C27: A peer whose next index was given up by the full window cannot be served: building its message
  dereferences \<^verbatim>\<open>NULL\<close>.
\<close>

theorem raft_send_appendentries_behind_window:
  assumes "contiki_ok ct" "log_wf s" "snapshot_last_idx s = 0" "me_node s \<noteq> Some a"
    and "cb_send_appendentries (me_cb s) \<noteq> None"
    and "0 < next_idx (nodes_mem s a)" "next_idx (nodes_mem s a) \<le> dropped s"
  shows "raft_send_appendentries ct s a = Fault Null_Deref"
  using assms log_get_from_idx_dropped [OF assms(1,2,6,7)]
  by (auto simp: raft_send_appendentries_def node_get_defs raft_get_entries_from_idx_def Let_def)

text \<open>A log that has given up its first entry, and a peer that still needs it.\<close>

definition sample_behind :: "nat raft_server" where
  "sample_behind =
     sample_server\<lparr>me_log := (me_log sample_server)\<lparr>count := 3\<rparr>,
       entries_mem := (\<lambda>a. sample_entry 1 (if a = 0 then 2 else 3)),
       nodes_mem := (\<lambda>a. \<lparr>next_idx = 1, match_idx = 0, flags = 2, node_id = int a + 1\<rparr>)\<rparr>"

lemma sample_behind_wf: "log_wf sample_behind" "dropped sample_behind = 1"
proof -
  have "window sample_behind = [sample_entry 1 2, sample_entry 1 3]"
    by (simp add: window_def sample_behind_def)
  then show "log_wf sample_behind" "dropped sample_behind = 1"
    by (auto simp: log_wf_def dropped_def sample_behind_def MAX_ENTRIES_def in_int_iff less_Suc_eq)
qed

theorem raft_send_appendentries_behind_window_witness:
  "raft_send_appendentries ref_contiki sample_behind 1 = Fault Null_Deref"
proof -
  have "snapshot_last_idx sample_behind = 0" "me_node sample_behind \<noteq> Some 1"
    "cb_send_appendentries (me_cb sample_behind) \<noteq> None" "next_idx (nodes_mem sample_behind 1) = 1"
    by (simp_all add: sample_behind_def)
  then show ?thesis
    using raft_send_appendentries_behind_window [OF ref_contiki_ok sample_behind_wf(1), of 1]
      sample_behind_wf(2) by simp
qed

end
