(* ===== verification/Raft_Election.thy ===== *)
theory Raft_Election
  imports Raft_Send
begin

text \<open>
  Elections in \<^verbatim>\<open>src/raft_server.c\<close>: the three roles a server takes, voting, and the two vote
  messages.
\<close>

section \<open>Voting\<close>

definition raft_vote_for_nodeid :: "'u raft_server \<Rightarrow> int \<Rightarrow> int \<times> 'u raft_server" where
  "raft_vote_for_nodeid s nodeid =
     (case cb_persist_vote (me_cb s) of
        Some persist_vote \<Rightarrow>
          let (e, u) = persist_vote (udata s) nodeid; s = s\<lparr>udata := u\<rparr>
          in if e \<noteq> 0 then (e, s) else (0, s\<lparr>voted_for := nodeid\<rparr>)
      | None \<Rightarrow> (0, s\<lparr>voted_for := nodeid\<rparr>))"

definition raft_vote :: "'u raft_server \<Rightarrow> nat option \<Rightarrow> int \<times> 'u raft_server" where
  "raft_vote s p =
     raft_vote_for_nodeid s
       (case p of Some a \<Rightarrow> raft_node_get_id (nodes_mem s a) | None \<Rightarrow> -1)"

definition raft_get_nvotes_for_me :: "'u raft_server \<Rightarrow> int" where
  "raft_get_nvotes_for_me s =
     int (length (filter (\<lambda>a. me_node s \<noteq> Some a \<and>
                              raft_node_is_active (nodes_mem s a) \<and>
                              raft_node_is_voting (nodes_mem s a) \<and>
                              raft_node_has_vote_for_me (nodes_mem s a)) (nodes_list s)))
     + (if voted_for s = raft_get_nodeid s then 1 else 0)"

definition raft_votes_is_majority :: "int \<Rightarrow> int \<Rightarrow> bool" where
  "raft_votes_is_majority nnodes nvotes =
     (if nnodes < nvotes then False
      else let half = c_div nnodes 2 in half + 1 \<le> nvotes)"

section \<open>Roles\<close>

definition raft_become_leader :: "contiki \<Rightarrow> 'u raft_server \<Rightarrow> 'u raft_server result" where
  "raft_become_leader ct s =
     (let s = (raft_set_state s RAFT_STATE_LEADER)\<lparr>timeout_elapsed := 0\<rparr>
      in foreach (\<lambda>a s.
           if me_node s = Some a \<or> \<not> raft_node_is_active (nodes_mem s a) then Ok s
           else bind (c_int (raft_get_current_idx s + 1)) (\<lambda>nxt.
                let s = upd_node s a (\<lambda>n. raft_node_set_next_idx n nxt);
                    s = upd_node s a (\<lambda>n. raft_node_set_match_idx n 0)
                in bind (raft_send_appendentries ct s a) (\<lambda>(_, s). Ok s)))
         (nodes_list s) s)"

text \<open>The second loop of \<^verbatim>\<open>raft_become_candidate\<close>.\<close>

definition requestvote_loop :: "nat list \<Rightarrow> 'u raft_server \<Rightarrow> 'u raft_server result" where
  "requestvote_loop =
     foreach (\<lambda>a s.
       if me_node s \<noteq> Some a \<and> raft_node_is_active (nodes_mem s a) \<and>
          raft_node_is_voting (nodes_mem s a)
       then bind (raft_send_requestvote s a) (\<lambda>(_, s). Ok s)
       else Ok s)"

definition raft_become_candidate ::
  "contiki \<Rightarrow> 'u raft_server \<Rightarrow> (int \<times> 'u raft_server) result" where
  "raft_become_candidate ct s =
     bind (c_int (raft_get_current_term s + 1)) (\<lambda>t.
     let (e, s) = raft_set_current_term s t in
     if e \<noteq> 0 then Ok (e, s)
     else
       bind (foreach (\<lambda>a s. Ok (upd_node s a (\<lambda>n. raft_node_vote_for_me n False)))
               (nodes_list s) s) (\<lambda>s.
       let (_, s) = raft_vote s (me_node s);
           s = s\<lparr>current_leader := None\<rparr>;
           s = raft_set_state s RAFT_STATE_CANDIDATE
       in bind (raft_randomize_election_timeout ct s) (\<lambda>s.
          let s = s\<lparr>timeout_elapsed := 0\<rparr> in
          bind (requestvote_loop (nodes_list s) s) (\<lambda>s.
          Ok (0, s)))))"

definition raft_become_follower :: "contiki \<Rightarrow> 'u raft_server \<Rightarrow> 'u raft_server result" where
  "raft_become_follower ct s =
     bind (raft_randomize_election_timeout ct (raft_set_state s RAFT_STATE_FOLLOWER)) (\<lambda>s.
     Ok (s\<lparr>timeout_elapsed := 0\<rparr>))"

definition raft_election_start ::
  "contiki \<Rightarrow> 'u raft_server \<Rightarrow> (int \<times> 'u raft_server) result" where
  "raft_election_start ct s = raft_become_candidate ct s"

section \<open>Receiving a vote request\<close>

definition should_grant_vote :: "'u raft_server \<Rightarrow> msg_requestvote \<Rightarrow> bool result" where
  "should_grant_vote s vr =
     bind (deref (raft_get_my_node s)) (\<lambda>m.
     if \<not> raft_node_is_voting (nodes_mem s m) then Ok False
     else if rv_term vr < raft_get_current_term s then Ok False
     else if raft_already_voted s then Ok False
     else
       let cur = raft_get_current_idx s in
       if cur = 0 then Ok True
       else bind (deref (raft_get_entry_from_idx s cur)) (\<lambda>a.
            let t = ety_term (entries_mem s a) in
            if t < to_unsigned (last_log_term vr) then Ok True
            else if to_unsigned (last_log_term vr) = t \<and> cur \<le> last_log_idx vr then Ok True
            else Ok False))"

text \<open>
  At the label \<^verbatim>\<open>done\<close> the arguments of the log message include
  \<^verbatim>\<open>raft_node_get_id(node)\<close>, which is evaluated whether or not a log callback is set.
\<close>

definition requestvote_done ::
  "'u raft_server \<Rightarrow> nat option \<Rightarrow> int \<Rightarrow> int
     \<Rightarrow> (int \<times> msg_requestvote_response \<times> 'u raft_server) result" where
  "requestvote_done s node e granted =
     bind (deref node) (\<lambda>_.
     Ok (e, \<lparr>rvr_term = raft_get_current_term s, vote_granted = granted\<rparr>, s))"

text \<open>The decision, once the term is up to date.\<close>

definition vote_answer ::
  "'u raft_server \<Rightarrow> nat option \<Rightarrow> msg_requestvote
     \<Rightarrow> (int \<times> msg_requestvote_response \<times> 'u raft_server) result" where
  "vote_answer s node vr =
     bind (should_grant_vote s vr) (\<lambda>grant.
     if grant then
       bind (c_assert (\<not> (raft_is_leader s \<or> raft_is_candidate s))) (\<lambda>_.
       let (e, s) = raft_vote_for_nodeid s (candidate_id vr);
           granted = (if e = 0 then 1 else 0);
           s = s\<lparr>current_leader := None, timeout_elapsed := 0\<rparr>
       in requestvote_done s node e granted)
     else if node = None
     then requestvote_done s node 0 RAFT_REQUESTVOTE_ERR_UNKNOWN_NODE
     else requestvote_done s node 0 0)"

definition raft_recv_requestvote ::
  "contiki \<Rightarrow> 'u raft_server \<Rightarrow> nat option \<Rightarrow> msg_requestvote
     \<Rightarrow> (int \<times> msg_requestvote_response \<times> 'u raft_server) result" where
  "raft_recv_requestvote ct s node vr =
     (let node = (case node of None \<Rightarrow> raft_get_node s (candidate_id vr) | Some _ \<Rightarrow> node)
      in if raft_get_current_term s < rv_term vr
         then let (e, s) = raft_set_current_term s (rv_term vr)
              in if e \<noteq> 0 then requestvote_done s node e 0
                 else bind (raft_become_follower ct s) (\<lambda>s.
                      vote_answer (s\<lparr>current_leader := None\<rparr>) node vr)
         else vote_answer s node vr)"

section \<open>Receiving a vote\<close>

definition raft_recv_requestvote_response ::
  "contiki \<Rightarrow> 'u raft_server \<Rightarrow> nat option \<Rightarrow> msg_requestvote_response
     \<Rightarrow> (int \<times> 'u raft_server) result" where
  "raft_recv_requestvote_response ct s node r =
     (if \<not> raft_is_candidate s then Ok (0, s)
      else if raft_get_current_term s < rvr_term r then
        (let (e, s) = raft_set_current_term s (rvr_term r)
         in if e \<noteq> 0 then Ok (e, s)
            else bind (raft_become_follower ct s) (\<lambda>s.
                 Ok (0, s\<lparr>current_leader := None\<rparr>)))
      else if raft_get_current_term s \<noteq> rvr_term r then Ok (0, s)
      else if vote_granted r = RAFT_REQUESTVOTE_ERR_GRANTED then
        (let s = (case node of
                    Some a \<Rightarrow> upd_node s a (\<lambda>n. raft_node_vote_for_me n True)
                  | None \<Rightarrow> s);
             votes = raft_get_nvotes_for_me s
         in if raft_votes_is_majority (raft_get_num_voting_nodes s) votes
            then bind (raft_become_leader ct s) (\<lambda>s. Ok (0, s))
            else Ok (0, s))
      else if vote_granted r = RAFT_REQUESTVOTE_ERR_NOT_GRANTED then Ok (0, s)
      else if vote_granted r = RAFT_REQUESTVOTE_ERR_UNKNOWN_NODE then
        bind (deref (raft_get_my_node s)) (\<lambda>m.
        if raft_node_is_voting (nodes_mem s m) \<and> connected s = RAFT_NODE_STATUS_DISCONNECTING
        then Ok (RAFT_ERR_SHUTDOWN, s) else Ok (0, s))
      else Fault Assert_Failed)"

section \<open>Timeouts\<close>

lemma raft_randomize_same:
  "post (raft_randomize_election_timeout ct s) (\<lambda>s'.
     election_of s' = election_of s \<and> log_of s' = log_of s \<and> progress_of s' = progress_of s \<and>
     members_of s' = members_of s \<and> config_of s' = config_of s \<and> me_state s' = me_state s \<and>
     current_leader s' = current_leader s \<and> udata s' = udata s \<and>
     timeout_elapsed s' = timeout_elapsed s \<and> connected s' = connected s \<and>
     voting_cfg_change_log_idx s' = voting_cfg_change_log_idx s)"
  by (simp add: raft_randomize_election_timeout_def wp Let_def views)

lemma raft_randomize_runs:
  "election_timeout s \<noteq> 0 \<Longrightarrow> runs (raft_randomize_election_timeout ct s) (\<lambda>_. True)"
  by (simp add: raft_randomize_election_timeout_def wp Let_def)

text \<open>Up to half the range of \<^verbatim>\<open>int\<close> the random timeout is where the comment puts it.\<close>

lemma random_timeout_bounds:
  fixes r :: u16
  assumes "0 < et" "et \<le> 16384"
  shows "et \<le> to_signed (to_unsigned et + r mod to_unsigned et)"
    and "to_signed (to_unsigned et + r mod to_unsigned et) < 2 * et"
proof -
  have u: "uint (to_unsigned et) = et" using assms by (simp add: in_int_iff)
  have m: "uint (r mod to_unsigned et) = uint r mod et" by (simp add: uint_mod u)
  have lt: "uint r mod et < et" "0 \<le> uint r mod et" using assms(1) by simp_all
  have "et + uint r mod et < 65536" "0 \<le> et + uint r mod et" using lt assms by linarith+
  then have s: "uint (to_unsigned et + r mod to_unsigned et) = et + uint r mod et"
    by (simp add: uint_word_ariths u m mod_pos_pos_trivial)
  then have "to_signed (to_unsigned et + r mod to_unsigned et) = et + uint r mod et"
    using lt assms by (subst to_signed_small) linarith+
  then show "et \<le> to_signed (to_unsigned et + r mod to_unsigned et)"
    and "to_signed (to_unsigned et + r mod to_unsigned et) < 2 * et"
    using lt by simp_all
qed

section \<open>Roles\<close>

lemma raft_become_follower_same:
  "post (raft_become_follower ct s) (\<lambda>s'.
     election_of s' = election_of s \<and> log_of s' = log_of s \<and> progress_of s' = progress_of s \<and>
     members_of s' = members_of s \<and> config_of s' = config_of s \<and>
     me_state s' = RAFT_STATE_FOLLOWER \<and> current_leader s' = current_leader s \<and>
     udata s' = udata s \<and> timeout_elapsed s' = 0 \<and> connected s' = connected s \<and>
     voting_cfg_change_log_idx s' = voting_cfg_change_log_idx s)"
  unfolding raft_become_follower_def wp
  by (rule post_mono [OF raft_randomize_same]) (simp add: raft_set_state_def views)

lemma raft_become_follower_runs:
  "election_timeout s \<noteq> 0 \<Longrightarrow> runs (raft_become_follower ct s) (\<lambda>_. True)"
  using raft_randomize_runs [of "raft_set_state s RAFT_STATE_FOLLOWER" ct]
  by (simp add: raft_become_follower_def wp raft_set_state_def)

text \<open>
  What stays of the members when a server only updates its knowledge of their logs: who they are and
  their flags.
\<close>

definition same_roles :: "'u raft_server \<Rightarrow> 'u raft_server \<Rightarrow> bool" where
  "same_roles s s' \<longleftrightarrow>
     nodes_list s' = nodes_list s \<and> me_node s' = me_node s \<and> nodes_used s' = nodes_used s \<and>
     num_nodes s' = num_nodes s \<and>
     (\<forall>a. flags (nodes_mem s' a) = flags (nodes_mem s a)) \<and>
     (\<forall>a. node_id (nodes_mem s' a) = node_id (nodes_mem s a))"

lemma same_roles_refl [simp]: "same_roles s s"
  by (simp add: same_roles_def)

lemma same_roles_trans: "same_roles s t \<Longrightarrow> same_roles t u \<Longrightarrow> same_roles s u"
  by (simp add: same_roles_def)

lemma members_same_roles: "members_of s' = members_of s \<Longrightarrow> same_roles s s'"
  by (simp add: same_roles_def views)

lemma same_roles_counts:
  assumes "same_roles s s'"
  shows "raft_get_num_voting_nodes s' = raft_get_num_voting_nodes s"
    and "raft_get_nodeid s' = raft_get_nodeid s"
    and "raft_get_node s' = raft_get_node s"
    and "raft_get_my_node s' = raft_get_my_node s"
    and "raft_node_is_voting (nodes_mem s' a) = raft_node_is_voting (nodes_mem s a)"
    and "raft_node_is_active (nodes_mem s' a) = raft_node_is_active (nodes_mem s a)"
    and "raft_node_has_vote_for_me (nodes_mem s' a) = raft_node_has_vote_for_me (nodes_mem s a)"
  using assms
  by (auto simp: same_roles_def raft_get_num_voting_nodes_def raft_get_nodeid_def
      raft_get_node_def [abs_def] raft_get_my_node_def node_get_defs node_read_defs
      split: option.split)

definition leader_step :: "'u raft_server \<Rightarrow> 'u raft_server \<Rightarrow> bool" where
  "leader_step s s' \<longleftrightarrow>
     election_of s' = election_of s \<and> log_of s' = log_of s \<and> progress_of s' = progress_of s \<and>
     config_of s' = config_of s \<and> same_roles s s' \<and> me_state s' = me_state s \<and>
     current_leader s' = current_leader s \<and> timeout_elapsed s' = timeout_elapsed s \<and>
     election_timeout_rand s' = election_timeout_rand s \<and> connected s' = connected s \<and>
     voting_cfg_change_log_idx s' = voting_cfg_change_log_idx s"

lemma leader_step_refl [simp]: "leader_step s s"
  by (simp add: leader_step_def)

lemma send_leader_step: "send_step s s' \<Longrightarrow> leader_step s s'"
  by (auto simp: leader_step_def send_step_same members_same_roles)

lemma raft_become_leader_same:
  "post (raft_become_leader ct s) (\<lambda>s'.
     leader_step (s\<lparr>current_leader := me_node s, me_state := RAFT_STATE_LEADER,
                    timeout_elapsed := 0\<rparr>) s')"
  unfolding raft_become_leader_def Let_def raft_set_state_def if_True simp_thms
  by (rule foreach_rel)
     (auto simp: wp leader_step_def same_roles_def flags_idx dest!: send_leader_step
       intro!: post_mono [OF raft_send_appendentries_frame] intro: same_roles_trans)

section \<open>Terms and votes\<close>

text \<open>
  The rule that makes elections safe, for one server: the term never decreases, and a vote cast in a
  term is not changed in that term.
\<close>

definition vote_step :: "'u raft_server \<Rightarrow> 'u raft_server \<Rightarrow> bool" where
  "vote_step s s' \<longleftrightarrow>
     current_term s \<le> current_term s' \<and>
     (current_term s' = current_term s \<and> voted_for s \<noteq> -1 \<longrightarrow> voted_for s' = voted_for s)"

lemma vote_step_refl [simp]: "vote_step s s"
  by (simp add: vote_step_def)

lemma vote_step_trans: "vote_step s t \<Longrightarrow> vote_step t u \<Longrightarrow> vote_step s u"
  by (auto simp: vote_step_def)

lemma election_vote_step: "election_of s' = election_of s \<Longrightarrow> vote_step s s'"
  by (simp add: vote_step_def views)

lemma raft_set_current_term_spec:
  assumes "raft_set_current_term s t = (e, s')"
  shows "vote_step s s'" "log_of s' = log_of s" "progress_of s' = progress_of s"
    "members_of s' = members_of s" "config_of s' = config_of s" "me_state s' = me_state s"
    "current_leader s' = current_leader s" "connected s' = connected s"
    "timeout_elapsed s' = timeout_elapsed s"
    "voting_cfg_change_log_idx s' = voting_cfg_change_log_idx s"
    "e \<noteq> 0 \<longrightarrow> election_of s' = election_of s"
    "e = 0 \<longrightarrow> current_term s' = max (current_term s) t"
    "e = 0 \<longrightarrow> voted_for s' = (if current_term s < t then -1 else voted_for s)"
  using assms
  by (auto simp: raft_set_current_term_def vote_step_def views Let_def case_prod_beta
      split: if_splits option.splits)

lemma raft_vote_for_nodeid_spec:
  assumes "raft_vote_for_nodeid s n = (e, s')"
  shows "log_of s' = log_of s" "progress_of s' = progress_of s" "members_of s' = members_of s"
    "config_of s' = config_of s" "me_state s' = me_state s" "current_leader s' = current_leader s"
    "connected s' = connected s" "timeout_elapsed s' = timeout_elapsed s"
    "voting_cfg_change_log_idx s' = voting_cfg_change_log_idx s"
    "current_term s' = current_term s"
    "e = 0 \<longrightarrow> voted_for s' = n" "e \<noteq> 0 \<longrightarrow> voted_for s' = voted_for s"
  using assms
  by (auto simp: raft_vote_for_nodeid_def views Let_def case_prod_beta split: if_splits option.splits)

subsection \<open>Becoming a candidate\<close>

lemma vote_for_me_idem [simp]:
  "raft_node_vote_for_me (raft_node_vote_for_me n b) b = raft_node_vote_for_me n b"
  by (simp add: raft_node_vote_for_me_def and.assoc or.assoc)

definition clear_votes :: "nat list \<Rightarrow> (nat \<Rightarrow> raft_node) \<Rightarrow> nat \<Rightarrow> raft_node" where
  "clear_votes xs mem = (\<lambda>a. if a \<in> set xs then raft_node_vote_for_me (mem a) False else mem a)"

lemma clear_votes_loop:
  "foreach (\<lambda>a s. Ok (upd_node s a (\<lambda>n. raft_node_vote_for_me n False))) xs s =
     Ok (s\<lparr>nodes_mem := clear_votes xs (nodes_mem s)\<rparr>)"
proof (induction xs arbitrary: s)
  case Nil
  then show ?case by (simp add: clear_votes_def)
next
  case (Cons x xs)
  have "clear_votes xs ((nodes_mem s)(x := raft_node_vote_for_me (nodes_mem s x) False)) =
      clear_votes (x # xs) (nodes_mem s)"
    by (auto simp: clear_votes_def fun_eq_iff)
  moreover have "(upd_node s x f)\<lparr>nodes_mem := m\<rparr> = s\<lparr>nodes_mem := m\<rparr>" for f m
    by (simp add: upd_node_def)
  ultimately show ?case by (simp only: foreach.simps bind.simps Cons.IH upd_node_nodes_mem)
qed

text \<open>The nodes a candidate asks, and what it asks them.\<close>

definition vote_peers :: "'u raft_server \<Rightarrow> nat list" where
  "vote_peers s =
     filter (\<lambda>a. me_node s \<noteq> Some a \<and> raft_node_is_active (nodes_mem s a) \<and>
                 raft_node_is_voting (nodes_mem s a)) (nodes_list s)"

definition requestvote_for :: "'u raft_server \<Rightarrow> msg_requestvote" where
  "requestvote_for s =
     \<lparr>rv_term = current_term s, candidate_id = raft_get_nodeid s,
      last_log_idx = raft_get_current_idx s, last_log_term = raft_get_last_log_term s\<rparr>"

lemma requestvote_loop_frame: "post (requestvote_loop xs s) (send_step s)"
  unfolding requestvote_loop_def
  by (rule foreach_rel)
     (auto simp: wp intro!: post_mono [OF raft_send_requestvote_frame] intro: send_step_trans)

lemma requestvote_loop_sends:
  assumes "cb_send_requestvote (me_cb s) = Some f"
  shows "requestvote_loop xs s =
    Ok (s\<lparr>udata := fold (\<lambda>a u. snd (f u (nodes_mem s a) (requestvote_for s)))
             (filter (\<lambda>a. me_node s \<noteq> Some a \<and> raft_node_is_active (nodes_mem s a) \<and>
                          raft_node_is_voting (nodes_mem s a)) xs) (udata s)\<rparr>)"
  using assms
proof (induction xs arbitrary: s)
  case (Cons x xs)
  have "requestvote_for (s\<lparr>udata := u\<rparr>) = requestvote_for s" for u
    by (simp add: requestvote_for_def raft_get_nodeid_def raft_get_current_idx_def
        raft_get_last_log_term_def raft_get_entry_from_idx_def log_get_at_idx_def Let_def
        cong: if_cong option.case_cong)
  then show ?case
    using Cons.prems Cons.IH [of "s\<lparr>udata := snd (f (udata s) (nodes_mem s x) (requestvote_for s))\<rparr>"]
      Cons.IH [of s]
    by (auto simp: requestvote_loop_def raft_send_requestvote_def requestvote_for_def [symmetric]
        Let_def case_prod_beta)
qed (simp add: requestvote_loop_def)

lemma clear_votes_reads [simp]:
  "raft_node_has_vote_for_me (clear_votes xs mem a) \<longleftrightarrow> a \<notin> set xs \<and> raft_node_has_vote_for_me (mem a)"
  "raft_node_is_voting (clear_votes xs mem a) = raft_node_is_voting (mem a)"
  "raft_node_is_active (clear_votes xs mem a) = raft_node_is_active (mem a)"
  "node_id (clear_votes xs mem a) = node_id (mem a)"
  "next_idx (clear_votes xs mem a) = next_idx (mem a)"
  "match_idx (clear_votes xs mem a) = match_idx (mem a)"
  by (simp_all add: clear_votes_def)

text \<open>The state before the vote requests go out, for callbacks that store the term and the vote.\<close>

lemma raft_become_candidate_same:
  "post (raft_become_candidate ct s) (\<lambda>(e, s').
     vote_step s s' \<and> log_of s' = log_of s \<and> progress_of s' = progress_of s \<and>
     config_of s' = config_of s \<and>
     nodes_list s' = nodes_list s \<and> me_node s' = me_node s \<and> nodes_used s' = nodes_used s \<and>
     num_nodes s' = num_nodes s \<and> connected s' = connected s \<and>
     voting_cfg_change_log_idx s' = voting_cfg_change_log_idx s \<and>
     (e \<noteq> 0 \<longrightarrow> election_of s' = election_of s \<and> nodes_mem s' = nodes_mem s \<and>
        me_state s' = me_state s) \<and>
     (e = 0 \<longrightarrow> current_term s' = current_term s + 1 \<and> me_state s' = RAFT_STATE_CANDIDATE \<and>
        (voted_for s' = -1 \<or> voted_for s' = raft_get_nodeid s) \<and>
        current_leader s' = None \<and> timeout_elapsed s' = 0 \<and>
        nodes_mem s' = clear_votes (nodes_list s) (nodes_mem s)))"
proof -
  obtain e s1 where st: "raft_set_current_term s (current_term s + 1) = (e, s1)" by fastforce
  note st' = raft_set_current_term_spec [OF st]
  define s2 where "s2 = s1\<lparr>nodes_mem := clear_votes (nodes_list s1) (nodes_mem s1)\<rparr>"
  obtain e2 s3 where v: "raft_vote s2 (me_node s2) = (e2, s3)" by fastforce
  note v' = raft_vote_for_nodeid_spec [OF v [unfolded raft_vote_def]]
  have m2: "me_node s2 = me_node s1" by (simp add: s2_def)
  define s4 where "s4 = s3\<lparr>current_leader := None, me_state := RAFT_STATE_CANDIDATE\<rparr>"
  show ?thesis
  proof (cases "e = 0")
    case False
    then show ?thesis
      using st' by (simp add: raft_become_candidate_def raft_get_current_term_def wp st views)
  next
    case True
    have run: "raft_become_candidate ct s =
        bind (c_int (current_term s + 1)) (\<lambda>_.
        bind (raft_randomize_election_timeout ct s4) (\<lambda>s.
        bind (requestvote_loop (nodes_list s) (s\<lparr>timeout_elapsed := 0\<rparr>)) (\<lambda>s. Ok (0, s))))"
      using True v [unfolded m2]
      by (simp add: raft_become_candidate_def raft_get_current_term_def c_int_def st
          clear_votes_loop s2_def [symmetric] raft_set_state_def s4_def)
    have s4: "current_term s4 = current_term s + 1" "log_of s4 = log_of s"
      "progress_of s4 = progress_of s" "config_of s4 = config_of s"
      "nodes_list s4 = nodes_list s" "me_node s4 = me_node s" "nodes_used s4 = nodes_used s"
      "num_nodes s4 = num_nodes s" "connected s4 = connected s"
      "voting_cfg_change_log_idx s4 = voting_cfg_change_log_idx s"
      "me_state s4 = RAFT_STATE_CANDIDATE" "current_leader s4 = None"
      "nodes_mem s4 = clear_votes (nodes_list s) (nodes_mem s)"
      using True st' v' by (simp_all add: s4_def s2_def views)
    have vote: "voted_for s4 = -1 \<or> voted_for s4 = raft_get_nodeid s"
      using True st' v' by (auto simp: s4_def s2_def views raft_get_nodeid_def node_get_defs split: option.splits)
    show ?thesis
      unfolding run wp
    proof (rule impI, rule post_mono [OF raft_randomize_same], rule post_mono [OF requestvote_loop_frame])
      fix s5 s6 :: "'a raft_server"
      assume "election_of s5 = election_of s4 \<and> log_of s5 = log_of s4 \<and>
          progress_of s5 = progress_of s4 \<and> members_of s5 = members_of s4 \<and>
          config_of s5 = config_of s4 \<and> me_state s5 = me_state s4 \<and>
          current_leader s5 = current_leader s4 \<and> udata s5 = udata s4 \<and>
          timeout_elapsed s5 = timeout_elapsed s4 \<and> connected s5 = connected s4 \<and>
          voting_cfg_change_log_idx s5 = voting_cfg_change_log_idx s4"
        and "send_step (s5\<lparr>timeout_elapsed := 0\<rparr>) s6"
      note s5 = this
      obtain u where u: "s6 = s5\<lparr>timeout_elapsed := 0, udata := u\<rparr>" using s5(2) by (auto simp: send_step_def)
      have "voted_for s6 = voted_for s4" using s5(1) by (simp add: u views)
      with vote have "voted_for s6 = -1 \<or> voted_for s6 = raft_get_nodeid s" by simp
      with s4 s5(1) show "case (0::int, s6) of (e, s') \<Rightarrow>
          vote_step s s' \<and> log_of s' = log_of s \<and> progress_of s' = progress_of s \<and>
          config_of s' = config_of s \<and>
          nodes_list s' = nodes_list s \<and> me_node s' = me_node s \<and> nodes_used s' = nodes_used s \<and>
          num_nodes s' = num_nodes s \<and> connected s' = connected s \<and>
          voting_cfg_change_log_idx s' = voting_cfg_change_log_idx s \<and>
          (e \<noteq> 0 \<longrightarrow> election_of s' = election_of s \<and> nodes_mem s' = nodes_mem s \<and>
             me_state s' = me_state s) \<and>
          (e = 0 \<longrightarrow> current_term s' = current_term s + 1 \<and> me_state s' = RAFT_STATE_CANDIDATE \<and>
             (voted_for s' = -1 \<or> voted_for s' = raft_get_nodeid s) \<and>
             current_leader s' = None \<and> timeout_elapsed s' = 0 \<and>
             nodes_mem s' = clear_votes (nodes_list s) (nodes_mem s))"
        by (simp add: u views vote_step_def)
    qed
  qed
qed

text \<open>Callbacks that store the term and the vote report success, as documented.\<close>

definition persist_ok :: "'u raft_cbs \<Rightarrow> bool" where
  "persist_ok cbs \<longleftrightarrow>
     (\<forall>f. cb_persist_term cbs = Some f \<longrightarrow> (\<forall>u t v. fst (f u t v) = 0)) \<and>
     (\<forall>f. cb_persist_vote cbs = Some f \<longrightarrow> (\<forall>u v. fst (f u v) = 0))"

definition store_term :: "'u raft_cbs \<Rightarrow> 'u \<Rightarrow> int \<Rightarrow> 'u" where
  "store_term cbs u t = (case cb_persist_term cbs of None \<Rightarrow> u | Some f \<Rightarrow> snd (f u t (-1)))"

definition store_vote :: "'u raft_cbs \<Rightarrow> 'u \<Rightarrow> int \<Rightarrow> 'u" where
  "store_vote cbs u v = (case cb_persist_vote cbs of None \<Rightarrow> u | Some f \<Rightarrow> snd (f u v))"

lemma raft_set_current_term_ok:
  "persist_ok (me_cb s) \<Longrightarrow> current_term s < t \<Longrightarrow>
     raft_set_current_term s t =
       (0, s\<lparr>udata := store_term (me_cb s) (udata s) t, current_term := t, voted_for := -1\<rparr>)"
  by (auto simp: raft_set_current_term_def persist_ok_def store_term_def Let_def case_prod_beta
      split: option.split)

lemma raft_vote_for_nodeid_ok:
  "persist_ok (me_cb s) \<Longrightarrow>
     raft_vote_for_nodeid s n =
       (0, s\<lparr>udata := store_vote (me_cb s) (udata s) n, voted_for := n\<rparr>)"
  by (auto simp: raft_vote_for_nodeid_def persist_ok_def store_vote_def Let_def case_prod_beta
      split: option.split)

lemma requestvote_for_frame:
  assumes "election_of s' = election_of s" "log_of s' = log_of s" "members_of s' = members_of s"
  shows "requestvote_for s' = requestvote_for s" "vote_peers s' = vote_peers s"
proof -
  have "raft_get_entry_from_idx s' = raft_get_entry_from_idx s"
    using log_of_window [OF assms(2)] by (simp add: raft_get_entry_from_idx_def fun_eq_iff)
  then show "requestvote_for s' = requestvote_for s"
    using assms log_of_window [OF assms(2)]
    by (simp add: requestvote_for_def views raft_get_nodeid_def raft_get_last_log_term_def Let_def
        cong: option.case_cong if_cong)
  show "vote_peers s' = vote_peers s" using assms by (simp add: vote_peers_def views)
qed

lemma raft_become_candidate_run:
  assumes "persist_ok (me_cb s)" "election_timeout s \<noteq> 0" "in_int (current_term s + 1)"
    and "cb_send_requestvote (me_cb s) = Some f"
  shows "runs (raft_become_candidate ct s) (\<lambda>(e, s').
    e = 0 \<and> voted_for s' = raft_get_nodeid s \<and>
    udata s' = fold (\<lambda>a u. snd (f u (nodes_mem s' a) (requestvote_for s'))) (vote_peers s')
      (store_vote (me_cb s) (store_term (me_cb s) (udata s) (current_term s + 1))
         (raft_get_nodeid s)))"
proof -
  define s1 where "s1 = s\<lparr>udata := store_term (me_cb s) (udata s) (current_term s + 1),
      current_term := current_term s + 1, voted_for := -1,
      nodes_mem := clear_votes (nodes_list s) (nodes_mem s)\<rparr>"
  have id1: "(case me_node s1 of None \<Rightarrow> -1 | Some a \<Rightarrow> raft_node_get_id (nodes_mem s1 a)) =
      raft_get_nodeid s"
    by (simp add: s1_def raft_get_nodeid_def node_get_defs split: option.split)
  have m1: "me_node s1 = me_node s" by (simp add: s1_def)
  define s2 where "s2 = s1\<lparr>udata := store_vote (me_cb s1) (udata s1) (raft_get_nodeid s),
      voted_for := raft_get_nodeid s, current_leader := None, me_state := RAFT_STATE_CANDIDATE\<rparr>"
  have v: "raft_vote s1 (me_node s) =
      (0, s1\<lparr>udata := store_vote (me_cb s1) (udata s1) (raft_get_nodeid s),
            voted_for := raft_get_nodeid s\<rparr>)"
    unfolding raft_vote_def m1 [symmetric] id1
    by (rule raft_vote_for_nodeid_ok) (simp add: s1_def assms(1))
  have run: "raft_become_candidate ct s =
      bind (raft_randomize_election_timeout ct s2) (\<lambda>s.
      bind (requestvote_loop (nodes_list s) (s\<lparr>timeout_elapsed := 0\<rparr>)) (\<lambda>s. Ok (0, s)))"
    using assms(1,3) v
    by (simp add: raft_become_candidate_def raft_get_current_term_def c_int_in_int
        raft_set_current_term_ok clear_votes_loop s1_def [symmetric] s2_def raft_set_state_def)
  have s2: "election_timeout s2 \<noteq> 0" "cb_send_requestvote (me_cb s2) = Some f"
    using assms(2,4) by (simp_all add: s2_def s1_def)
  show ?thesis
    unfolding run wp
  proof (rule runs_mono [OF runs_post [OF raft_randomize_runs [OF s2(1)] raft_randomize_same]])
    fix s3 :: "'a raft_server"
    let ?s = "s3\<lparr>timeout_elapsed := 0\<rparr>"
    assume same: "election_of s3 = election_of s2 \<and> log_of s3 = log_of s2 \<and>
      progress_of s3 = progress_of s2 \<and> members_of s3 = members_of s2 \<and>
      config_of s3 = config_of s2 \<and> me_state s3 = me_state s2 \<and>
      current_leader s3 = current_leader s2 \<and> udata s3 = udata s2 \<and>
      timeout_elapsed s3 = timeout_elapsed s2 \<and> connected s3 = connected s2 \<and>
      voting_cfg_change_log_idx s3 = voting_cfg_change_log_idx s2"
    then have cb: "cb_send_requestvote (me_cb ?s) = Some f" using s2(2) by (simp add: views)
    have r: "requestvote_for (?s\<lparr>udata := u\<rparr>) = requestvote_for ?s"
      "vote_peers (?s\<lparr>udata := u\<rparr>) = vote_peers ?s" for u
      by (rule requestvote_for_frame; simp add: views)+
    have "voted_for s3 = raft_get_nodeid s" "udata s3 = udata s2" "nodes_mem s3 = nodes_mem s2"
      using same by (auto simp: views s2_def)
    then show "runs (requestvote_loop (nodes_list s3) ?s) (\<lambda>x. case (0::int, x) of (e, s') \<Rightarrow>
        e = 0 \<and> voted_for s' = raft_get_nodeid s \<and>
        udata s' = fold (\<lambda>a u. snd (f u (nodes_mem s' a) (requestvote_for s'))) (vote_peers s')
          (store_vote (me_cb s) (store_term (me_cb s) (udata s) (current_term s + 1))
             (raft_get_nodeid s)))"
      by (simp add: requestvote_loop_sends [OF cb] wp r vote_peers_def [symmetric])
         (simp add: vote_peers_def s2_def s1_def)
  qed
qed

section \<open>Frames of the vote messages\<close>

text \<open>
  What handling a message leaves alone whatever it contains: the log, the commit and apply indices,
  the configuration, and who the members are.  The flags that say who voted for this server and who
  has caught up, and the indices of the peers, may change.
\<close>

definition same_voters :: "'u raft_server \<Rightarrow> 'u raft_server \<Rightarrow> bool" where
  "same_voters s s' \<longleftrightarrow>
     nodes_list s' = nodes_list s \<and> me_node s' = me_node s \<and>
     (\<forall>a. node_id (nodes_mem s' a) = node_id (nodes_mem s a) \<and>
          raft_node_is_voting (nodes_mem s' a) = raft_node_is_voting (nodes_mem s a) \<and>
          raft_node_is_active (nodes_mem s' a) = raft_node_is_active (nodes_mem s a))"

lemma same_voters_refl [simp]: "same_voters s s"
  by (simp add: same_voters_def)

lemma same_voters_trans: "same_voters s t \<Longrightarrow> same_voters t u \<Longrightarrow> same_voters s u"
  by (simp add: same_voters_def)

lemma members_same_voters: "members_of s' = members_of s \<Longrightarrow> same_voters s s'"
  by (simp add: same_voters_def views)

lemma same_roles_voters: "same_roles s s' \<Longrightarrow> same_voters s s'"
  by (simp add: same_voters_def same_roles_counts) (simp add: same_roles_def)

lemma same_voters_reads:
  assumes "same_voters s s'"
  shows "raft_get_nodeid s' = raft_get_nodeid s"
    and "raft_get_num_voting_nodes s' = raft_get_num_voting_nodes s"
    and "raft_get_node s' = raft_get_node s"
    and "raft_get_my_node s' = raft_get_my_node s"
proof -
  show "raft_get_nodeid s' = raft_get_nodeid s"
    using assms by (simp add: same_voters_def raft_get_nodeid_def node_get_defs split: option.split)
  then show "raft_get_my_node s' = raft_get_my_node s"
    using assms by (simp add: same_voters_def raft_get_my_node_def node_get_defs)
qed (use assms in \<open>simp_all add: same_voters_def raft_get_num_voting_nodes_def
      raft_get_node_def [abs_def] node_get_defs\<close>)

lemma requestvote_done_frame:
  "post (requestvote_done s node e g) (\<lambda>(e', r, s'). s' = s \<and> e' = e \<and>
     vote_granted r = g \<and> rvr_term r = current_term s)"
  by (auto simp: requestvote_done_def wp raft_get_current_term_def)

lemma should_grant_vote_True:
  "post (should_grant_vote s vr) (\<lambda>g. g \<longrightarrow> voted_for s = -1 \<and> current_term s \<le> rv_term vr)"
  by (auto simp: should_grant_vote_def wp Let_def raft_already_voted_def raft_get_current_term_def
      intro!: postI)

definition answered :: "'u raft_server \<Rightarrow> 'u raft_server \<Rightarrow> bool" where
  "answered s s' \<longleftrightarrow>
     vote_step s s' \<and> log_of s' = log_of s \<and> progress_of s' = progress_of s \<and>
     members_of s' = members_of s \<and> config_of s' = config_of s \<and>
     voting_cfg_change_log_idx s' = voting_cfg_change_log_idx s \<and> connected s' = connected s"

lemma answered_refl [simp]: "answered s s"
  by (simp add: answered_def)

lemma answered_trans: "answered s t \<Longrightarrow> answered t u \<Longrightarrow> answered s u"
  by (auto simp: answered_def intro: vote_step_trans)

lemma vote_answer_frame:
  "post (vote_answer s node vr) (\<lambda>(e, r, s').
     answered s s' \<and> me_state s' = me_state s \<and> rvr_term r = current_term s' \<and>
     current_term s' = current_term s \<and>
     (vote_granted r = 1 \<longrightarrow> voted_for s' = candidate_id vr \<and> voted_for s = -1 \<and>
        current_term s \<le> rv_term vr \<and> \<not> raft_is_leader s \<and> \<not> raft_is_candidate s) \<and>
     (vote_granted r \<noteq> 1 \<longrightarrow> election_of s' = election_of s))"
proof -
  obtain e s1 where v: "raft_vote_for_nodeid s (candidate_id vr) = (e, s1)" by fastforce
  note v' = raft_vote_for_nodeid_spec [OF v]
  show ?thesis
    unfolding vote_answer_def wp
  proof (rule post_mono [OF should_grant_vote_True])
    fix grant
    assume g: "grant \<longrightarrow> voted_for s = -1 \<and> current_term s \<le> rv_term vr"
    show "post (if grant then
       bind (c_assert (\<not> (raft_is_leader s \<or> raft_is_candidate s))) (\<lambda>_.
       let (e, s) = raft_vote_for_nodeid s (candidate_id vr);
           granted = (if e = 0 then 1 else 0);
           s = s\<lparr>current_leader := None, timeout_elapsed := 0\<rparr>
       in requestvote_done s node e granted)
     else if node = None
     then requestvote_done s node 0 RAFT_REQUESTVOTE_ERR_UNKNOWN_NODE
     else requestvote_done s node 0 0) (\<lambda>(e, r, s').
     answered s s' \<and> me_state s' = me_state s \<and> rvr_term r = current_term s' \<and>
     current_term s' = current_term s \<and>
     (vote_granted r = 1 \<longrightarrow> voted_for s' = candidate_id vr \<and> voted_for s = -1 \<and>
        current_term s \<le> rv_term vr \<and> \<not> raft_is_leader s \<and> \<not> raft_is_candidate s) \<and>
     (vote_granted r \<noteq> 1 \<longrightarrow> election_of s' = election_of s))"
    proof (cases grant)
      case True
      then show ?thesis
        using g v v'
        by (simp add: wp)
          (intro conjI impI; rule post_mono [OF requestvote_done_frame];
           simp add: answered_def vote_step_def views case_prod_beta)
    next
      case False
      then show ?thesis
        by (auto intro!: post_mono [OF requestvote_done_frame])
    qed
  qed
qed

lemma answered_same:
  assumes "election_of s' = election_of s" "log_of s' = log_of s" "progress_of s' = progress_of s"
    "members_of s' = members_of s" "config_of s' = config_of s"
    "voting_cfg_change_log_idx s' = voting_cfg_change_log_idx s" "connected s' = connected s"
  shows "answered s s'"
  using assms election_vote_step [of s' s] by (simp add: answered_def)

text \<open>Taking over a newer term and stepping down.\<close>

lemma step_down_frame:
  assumes "raft_set_current_term s t = (0, s1)" "current_term s < t"
  shows "post (raft_become_follower ct s1) (\<lambda>s'.
    answered s (s'\<lparr>current_leader := None\<rparr>) \<and> current_term s' = t \<and> voted_for s' = -1 \<and>
    me_state s' = RAFT_STATE_FOLLOWER)"
  using raft_set_current_term_spec [OF assms(1)] assms(2)
  by (intro post_mono [OF raft_become_follower_same])
     (auto simp: answered_def vote_step_def views)

lemma raft_recv_requestvote_frame:
  "post (raft_recv_requestvote ct s node vr) (\<lambda>(e, r, s').
     answered s s' \<and> rvr_term r = current_term s' \<and>
     (me_state s' = me_state s \<and> current_term s' = current_term s \<or>
      me_state s' = RAFT_STATE_FOLLOWER) \<and>
     (vote_granted r = 1 \<longrightarrow> voted_for s' = candidate_id vr \<and> current_term s' = rv_term vr \<and>
        me_state s' \<noteq> RAFT_STATE_LEADER \<and> me_state s' \<noteq> RAFT_STATE_CANDIDATE))"
proof (cases "current_term s < rv_term vr")
  case False
  then show ?thesis
    unfolding raft_recv_requestvote_def raft_get_current_term_def Let_def
    by (simp, intro post_mono [OF vote_answer_frame])
       (auto simp: raft_is_leader_def raft_is_candidate_def raft_get_state_def)
next
  case True
  obtain e s1 where st: "raft_set_current_term s (rv_term vr) = (e, s1)" by fastforce
  show ?thesis
  proof (cases "e = 0")
    case False
    have "answered s s1" "me_state s1 = me_state s" "current_term s1 = current_term s"
      using raft_set_current_term_spec [OF st] False by (auto intro!: answered_same simp: views)
    then show ?thesis
      unfolding raft_recv_requestvote_def raft_get_current_term_def Let_def
      using True st False by (simp, intro post_mono [OF requestvote_done_frame]) auto
  next
    case e: True
    show ?thesis
      unfolding raft_recv_requestvote_def raft_get_current_term_def Let_def
      using True st e
      apply (simp add: wp)
      apply (rule post_mono [OF step_down_frame])
        apply assumption+
      apply (rule post_mono [OF vote_answer_frame])
      apply (auto simp: raft_is_leader_def raft_is_candidate_def raft_get_state_def
          intro: answered_trans)
      done
  qed
qed

text \<open>
  The rule of roles: a server that is a candidate or a leader after a step was so before, in the same
  term, and has gained no vote.  Every handler obeys it, except where a vote arrives and where an
  election starts.
\<close>

definition quiet :: "'u raft_server \<Rightarrow> 'u raft_server \<Rightarrow> bool" where
  "quiet s s' \<longleftrightarrow>
     (me_state s' = RAFT_STATE_CANDIDATE \<or> me_state s' = RAFT_STATE_LEADER \<longrightarrow>
        me_state s' = me_state s \<and> current_term s' = current_term s \<and>
        (\<forall>a. raft_node_has_vote_for_me (nodes_mem s' a) \<longrightarrow>
             raft_node_has_vote_for_me (nodes_mem s a)))"

lemma quiet_refl [simp]: "quiet s s"
  by (simp add: quiet_def)

lemma quiet_follower: "me_state s' = RAFT_STATE_FOLLOWER \<Longrightarrow> quiet s s'"
  by (simp add: quiet_def)

lemma quiet_same:
  "me_state s' = me_state s \<Longrightarrow> current_term s' = current_term s \<Longrightarrow> nodes_mem s' = nodes_mem s \<Longrightarrow>
     quiet s s'"
  by (simp add: quiet_def)

lemma raft_recv_requestvote_quiet:
  "post (raft_recv_requestvote ct s node vr) (\<lambda>(e, r, s'). quiet s s')"
  by (rule post_mono [OF raft_recv_requestvote_frame])
     (auto simp: quiet_def answered_def views)

text \<open>The vote of a node is recorded.\<close>

definition record_vote :: "'u raft_server \<Rightarrow> nat option \<Rightarrow> 'u raft_server" where
  "record_vote s node =
     (case node of Some a \<Rightarrow> upd_node s a (\<lambda>n. raft_node_vote_for_me n True) | None \<Rightarrow> s)"

lemma record_vote_frame:
  "election_of (record_vote s node) = election_of s" "log_of (record_vote s node) = log_of s"
  "progress_of (record_vote s node) = progress_of s" "config_of (record_vote s node) = config_of s"
  "me_state (record_vote s node) = me_state s" "same_voters s (record_vote s node)"
  "connected (record_vote s node) = connected s"
  "voting_cfg_change_log_idx (record_vote s node) = voting_cfg_change_log_idx s"
  "me_node (record_vote s node) = me_node s"
  "raft_node_has_vote_for_me (nodes_mem (record_vote s node) a) \<longleftrightarrow>
     node = Some a \<or> raft_node_has_vote_for_me (nodes_mem s a)"
  by (auto simp: record_vote_def same_voters_def split: option.split)

text \<open>What handling a vote may do.\<close>

definition vote_counted :: "'u raft_server \<Rightarrow> nat option \<Rightarrow> 'u raft_server \<Rightarrow> bool" where
  "vote_counted s node s' \<longleftrightarrow>
     me_state s = RAFT_STATE_CANDIDATE \<and> election_of s' = election_of s \<and>
     (\<forall>a. raft_node_has_vote_for_me (nodes_mem s' a) \<longleftrightarrow>
          raft_node_has_vote_for_me (nodes_mem (record_vote s node) a)) \<and>
     me_state s' =
       (if raft_votes_is_majority (raft_get_num_voting_nodes s)
             (raft_get_nvotes_for_me (record_vote s node))
        then RAFT_STATE_LEADER else RAFT_STATE_CANDIDATE)"

lemma leader_after_vote:
  "post (raft_become_leader ct (record_vote s node)) (\<lambda>s'.
      election_of s' = election_of s \<and> log_of s' = log_of s \<and> progress_of s' = progress_of s \<and>
      config_of s' = config_of s \<and> same_voters s s' \<and> connected s' = connected s \<and>
      voting_cfg_change_log_idx s' = voting_cfg_change_log_idx s \<and> me_state s' = RAFT_STATE_LEADER \<and>
      (\<forall>a. raft_node_has_vote_for_me (nodes_mem s' a) \<longleftrightarrow>
          raft_node_has_vote_for_me (nodes_mem (record_vote s node) a)))"
proof (rule post_mono [OF raft_become_leader_same])
  let ?s = "record_vote s node"
  note rec = record_vote_frame [of s node]
  fix s'
  assume l: "leader_step (?s\<lparr>current_leader := me_node ?s, me_state := RAFT_STATE_LEADER,
      timeout_elapsed := 0\<rparr>) s'"
  then have roles: "same_roles ?s s'" by (simp add: leader_step_def same_roles_def)
  then have "same_voters s s'" using rec(6) same_roles_voters same_voters_trans by blast
  with l same_roles_counts(7) [OF roles] rec
  show "election_of s' = election_of s \<and> log_of s' = log_of s \<and> progress_of s' = progress_of s \<and>
    config_of s' = config_of s \<and> same_voters s s' \<and> connected s' = connected s \<and>
    voting_cfg_change_log_idx s' = voting_cfg_change_log_idx s \<and> me_state s' = RAFT_STATE_LEADER \<and>
    (\<forall>a. raft_node_has_vote_for_me (nodes_mem s' a) \<longleftrightarrow>
        raft_node_has_vote_for_me (nodes_mem ?s a))"
    by (simp add: leader_step_def views)
qed

definition vote_handled ::
  "'u raft_server \<Rightarrow> nat option \<Rightarrow> msg_requestvote_response \<Rightarrow> 'u raft_server \<Rightarrow> bool" where
  "vote_handled s node r s' \<longleftrightarrow>
     vote_step s s' \<and> log_of s' = log_of s \<and> progress_of s' = progress_of s \<and>
     config_of s' = config_of s \<and> same_voters s s' \<and> connected s' = connected s \<and>
     voting_cfg_change_log_idx s' = voting_cfg_change_log_idx s \<and>
     (quiet s s' \<or>
      vote_granted r = 1 \<and> rvr_term r = current_term s \<and> vote_counted s node s')"

lemma vote_handled_answered:
  "answered s s' \<Longrightarrow> quiet s s' \<Longrightarrow> vote_handled s node r s'"
  by (simp add: answered_def vote_handled_def members_same_voters)

lemma raft_recv_requestvote_response_frame:
  "post (raft_recv_requestvote_response ct s node r) (\<lambda>(e, s'). vote_handled s node r s')"
proof -
  have same [simp]: "vote_handled s node r s" by (simp add: vote_handled_answered)
  consider (ignored) "me_state s \<noteq> RAFT_STATE_CANDIDATE"
    | (older) "me_state s = RAFT_STATE_CANDIDATE" "rvr_term r < current_term s"
    | (newer) "me_state s = RAFT_STATE_CANDIDATE" "current_term s < rvr_term r"
    | (granted) "me_state s = RAFT_STATE_CANDIDATE" "rvr_term r = current_term s" "vote_granted r = 1"
    | (refused) "me_state s = RAFT_STATE_CANDIDATE" "rvr_term r = current_term s" "vote_granted r \<noteq> 1"
    by linarith
  then show ?thesis
  proof cases
    case newer
    obtain e s1 where st: "raft_set_current_term s (rvr_term r) = (e, s1)" by fastforce
    have "vote_handled s node r s1" if "e \<noteq> 0"
      using raft_set_current_term_spec [OF st] that
      by (intro vote_handled_answered answered_same quiet_same) (auto simp: views)
    moreover have "post (raft_become_follower ct s1)
        (\<lambda>s'. vote_handled s node r (s'\<lparr>current_leader := None\<rparr>))" if "e = 0"
      using that st newer
      by (intro post_mono [OF step_down_frame [of s]] vote_handled_answered quiet_follower) auto
    ultimately show ?thesis
      using newer st
      by (auto simp: raft_recv_requestvote_response_def raft_is_candidate_def raft_get_state_def
          raft_get_current_term_def wp)
  next
    case granted
    note rec = record_vote_frame [of s node]
    have "vote_handled s node r (record_vote s node)"
      if "\<not> raft_votes_is_majority (raft_get_num_voting_nodes s)
            (raft_get_nvotes_for_me (record_vote s node))"
      using that granted rec by (simp add: vote_handled_def vote_counted_def election_vote_step)
    moreover have "post (raft_become_leader ct (record_vote s node)) (vote_handled s node r)"
      if "raft_votes_is_majority (raft_get_num_voting_nodes s)
            (raft_get_nvotes_for_me (record_vote s node))"
      by (rule post_mono [OF leader_after_vote])
         (use that granted in \<open>simp add: vote_handled_def vote_counted_def election_vote_step\<close>)
    ultimately show ?thesis
      using granted same_voters_reads(2) [OF rec(6)]
      by (simp add: raft_recv_requestvote_response_def raft_is_candidate_def raft_get_state_def
          raft_get_current_term_def record_vote_def [symmetric] Let_def wp)
  qed (auto simp: raft_recv_requestvote_response_def raft_is_candidate_def raft_get_state_def
        raft_get_current_term_def wp)
qed

section \<open>Properties\<close>

text \<open>
  C22: Up to half the range of \<^verbatim>\<open>int\<close>, setting an election timeout draws the randomised timeout
  from the interval the comment names, for every random sequence.
\<close>

theorem election_timeout_range:
  assumes "0 < m" "m \<le> 16384"
  shows "\<exists>s'. raft_set_election_timeout ct s m = Ok s' \<and> election_timeout s' = m \<and>
    m \<le> election_timeout_rand s' \<and> election_timeout_rand s' < 2 * m"
  using random_timeout_bounds [OF assms, of "ct_random_rand ct (rand_calls s)"] assms(1)
  by (simp add: raft_set_election_timeout_def raft_randomize_election_timeout_def Let_def)

theorem election_timeout_range_witness:
  "\<exists>s'. raft_set_election_timeout ref_contiki sample_server 500 = Ok s' \<and>
     500 \<le> election_timeout_rand s' \<and> election_timeout_rand s' < 1000"
  using election_timeout_range [of 500 ref_contiki sample_server] by auto

text \<open>
  C11: Starting an election, with callbacks that store term and vote.  The run does not fault: the
  server enters the next term as a candidate, votes for itself, forgets the leader and all votes it
  had, restarts its timer, and asks every other active voting node exactly once, in list order, with
  its new term, its identifier and the index and term of its last entry.  Log, commit index and
  members do not change.
\<close>

theorem raft_election_start_spec:
  assumes "persist_ok (me_cb s)" "election_timeout s \<noteq> 0" "in_int (current_term s + 1)"
    and "cb_send_requestvote (me_cb s) = Some f"
  shows "\<exists>s'. raft_election_start ct s = Ok (0, s') \<and>
    current_term s' = current_term s + 1 \<and> me_state s' = RAFT_STATE_CANDIDATE \<and>
    voted_for s' = raft_get_nodeid s \<and> current_leader s' = None \<and> timeout_elapsed s' = 0 \<and>
    (\<forall>a \<in> set (nodes_list s). \<not> raft_node_has_vote_for_me (nodes_mem s' a)) \<and>
    log_of s' = log_of s \<and> progress_of s' = progress_of s \<and> nodes_list s' = nodes_list s \<and>
    udata s' =
      fold (\<lambda>a u. snd (f u (nodes_mem s' a) (requestvote_for s'))) (vote_peers s')
        (store_vote (me_cb s) (store_term (me_cb s) (udata s) (current_term s + 1))
           (raft_get_nodeid s))"
proof -
  from raft_become_candidate_run [OF assms, of ct] obtain s' where
    run: "raft_become_candidate ct s = Ok (0, s')" and
    s': "voted_for s' = raft_get_nodeid s" "udata s' =
      fold (\<lambda>a u. snd (f u (nodes_mem s' a) (requestvote_for s'))) (vote_peers s')
        (store_vote (me_cb s) (store_term (me_cb s) (udata s) (current_term s + 1))
           (raft_get_nodeid s))"
    by (auto simp: runs_def)
  from postD [OF raft_become_candidate_same run] s' run show ?thesis
    by (auto simp: raft_election_start_def)
qed

theorem raft_election_start_spec_witness:
  "\<exists>s'. raft_election_start ref_contiki sample_server = Ok (0, s') \<and> current_term s' = 2 \<and>
     me_state s' = RAFT_STATE_CANDIDATE \<and> voted_for s' = 1"
proof -
  have "persist_ok (me_cb sample_server)" by (simp add: persist_ok_def)
  from raft_election_start_spec [OF this, of _ ref_contiki] show ?thesis
    by (auto simp: in_int_iff raft_get_nodeid_def node_get_defs)
qed

text \<open>
  The candidate's log is at least as up to date as this server's: its last entry has a larger term,
  or the same term and no smaller index.
\<close>

definition log_is_current :: "'u raft_server \<Rightarrow> msg_requestvote \<Rightarrow> bool" where
  "log_is_current s vr \<longleftrightarrow>
     raft_get_current_idx s = 0 \<or>
     (\<exists>e. log_lookup s (raft_get_current_idx s) = Some e \<and>
          (ety_term e < to_unsigned (last_log_term vr) \<or>
           ety_term e = to_unsigned (last_log_term vr) \<and>
           raft_get_current_idx s \<le> last_log_idx vr))"

definition may_vote :: "'u raft_server \<Rightarrow> bool" where
  "may_vote s \<longleftrightarrow> (\<exists>m. raft_get_my_node s = Some m \<and> raft_node_is_voting (nodes_mem s m))"

lemma should_grant_vote_spec:
  assumes "raft_get_my_node s \<noteq> None"
    and "raft_get_current_idx s = 0 \<or> log_lookup s (raft_get_current_idx s) \<noteq> None"
  shows "should_grant_vote s vr =
    Ok (may_vote s \<and> current_term s \<le> rv_term vr \<and> voted_for s = -1 \<and> log_is_current s vr)"
proof -
  note defs = should_grant_vote_def may_vote_def log_is_current_def log_lookup_def Let_def
    raft_get_current_term_def raft_already_voted_def raft_get_entry_from_idx_def
  obtain m where m: "raft_get_my_node s = Some m" using assms(1) by auto
  show ?thesis
  proof (cases "raft_get_current_idx s = 0")
    case True
    with m show ?thesis by (simp add: defs)
  next
    case False
    with assms(2) obtain a where "log_get_at_idx s (raft_get_current_idx s) = Some a"
      by (auto simp: log_lookup_def)
    with m False show ?thesis by (auto simp: defs)
  qed
qed

lemma vote_view_cong:
  fixes s s' :: "'u raft_server"
  assumes "log_of s' = log_of s" "members_of s' = members_of s"
  shows "log_is_current s' vr = log_is_current s vr" "may_vote s' = may_vote s"
    "raft_get_my_node s' = raft_get_my_node s" "raft_get_node s' = raft_get_node s"
  using assms log_of_window [OF assms(1)] same_voters_reads [OF members_same_voters [OF assms(2)]]
  by (auto simp: log_is_current_def may_vote_def views)

text \<open>The decision of a server whose term is up to date, with callbacks that store the vote.\<close>

lemma vote_answer_run:
  assumes "persist_ok (me_cb s)" "raft_get_my_node s \<noteq> None" "current_term s \<ge> rv_term vr"
    and "raft_get_current_idx s = 0 \<or> log_lookup s (raft_get_current_idx s) \<noteq> None"
    and "current_term s = rv_term vr \<and> voted_for s = -1 \<longrightarrow>
           me_state s \<noteq> RAFT_STATE_LEADER \<and> me_state s \<noteq> RAFT_STATE_CANDIDATE"
  shows "runs (vote_answer s (Some n) vr) (\<lambda>(e, r, s').
    e = 0 \<and> rvr_term r = current_term s \<and> current_term s' = current_term s \<and>
    (if may_vote s \<and> current_term s = rv_term vr \<and> voted_for s = -1 \<and> log_is_current s vr
     then vote_granted r = 1 \<and> voted_for s' = candidate_id vr
     else vote_granted r = 0 \<and> s' = s))"
  using assms(3,5)
  by (auto simp: vote_answer_def should_grant_vote_spec [OF assms(2,4)] wp requestvote_done_def
      raft_vote_for_nodeid_ok [OF assms(1)] raft_is_leader_def raft_is_candidate_def raft_get_state_def
      raft_get_current_term_def)

text \<open>Stepping down does not fault when term and vote are stored and the timeout is set.\<close>

lemma step_down_run:
  assumes "persist_ok (me_cb s)" "election_timeout s \<noteq> 0" "current_term s < t"
  shows "\<exists>s1 s2. raft_set_current_term s t = (0, s1) \<and> raft_become_follower ct s1 = Ok s2 \<and>
    answered s (s2\<lparr>current_leader := None\<rparr>) \<and> current_term s2 = t \<and> voted_for s2 = -1 \<and>
    me_state s2 = RAFT_STATE_FOLLOWER"
proof -
  obtain s1 where st: "raft_set_current_term s t = (0, s1)"
    using raft_set_current_term_ok [OF assms(1,3)] by simp
  have "election_timeout s1 \<noteq> 0"
    using raft_set_current_term_spec(5) [OF st] assms(2) by (simp add: views)
  from raft_become_follower_runs [OF this, of ct] obtain s2
    where fo: "raft_become_follower ct s1 = Ok s2" by (auto simp: runs_def)
  from postD [OF step_down_frame [OF st assms(3), of ct] fo] st fo show ?thesis by blast
qed

text \<open>
  A request of a newer term makes the server step down first; then, as for any other request, the
  server decides in the term reached.
\<close>

lemma requestvote_reaches_answer:
  assumes "persist_ok (me_cb s)" "election_timeout s \<noteq> 0"
    and "node \<noteq> None \<or> raft_get_node s (candidate_id vr) \<noteq> None"
  shows "\<exists>n s2. raft_recv_requestvote ct s node vr = vote_answer s2 (Some n) vr \<and> answered s s2 \<and>
    current_term s2 = max (current_term s) (rv_term vr) \<and>
    (if current_term s < rv_term vr then voted_for s2 = -1 \<and> me_state s2 = RAFT_STATE_FOLLOWER
     else s2 = s)"
proof -
  obtain n where n: "(case node of None \<Rightarrow> raft_get_node s (candidate_id vr) | Some _ \<Rightarrow> node) = Some n"
    using assms(3) by (cases node) auto
  note unfold = raft_recv_requestvote_def n Let_def raft_get_current_term_def
  show ?thesis
  proof (cases "current_term s < rv_term vr")
    case False
    then have "raft_recv_requestvote ct s node vr = vote_answer s (Some n) vr" by (simp add: unfold)
    with False show ?thesis by (intro exI [of _ n] exI [of _ s]) simp
  next
    case True
    from step_down_run [OF assms(1,2) True, of ct] obtain s1 s2
      where "raft_set_current_term s (rv_term vr) = (0, s1)" "raft_become_follower ct s1 = Ok s2"
        and s2: "answered s (s2\<lparr>current_leader := None\<rparr>)" "current_term s2 = rv_term vr"
          "voted_for s2 = -1" "me_state s2 = RAFT_STATE_FOLLOWER"
      by blast
    with True have "raft_recv_requestvote ct s node vr =
        vote_answer (s2\<lparr>current_leader := None\<rparr>) (Some n) vr" by (simp add: unfold)
    with True s2 show ?thesis by (intro exI [of _ n] exI [of _ "s2\<lparr>current_leader := None\<rparr>"]) simp
  qed
qed

text \<open>
  C10: Answering a vote request, with callbacks that store term and vote, a requesting node that is
  known, this server's own node listed, its last entry still in the log, and no leader or candidate
  without a vote of its own.  The run does not fault.  The vote is granted exactly when this server may
  vote, the request is not from an older term, no vote was cast in the request's term, and the
  candidate's log is at least as up to date; then the vote is recorded for the candidate.  A newer term
  is taken over with the old vote forgotten, and the server steps down.  The response carries the term
  reached.  Log, commit index and members do not change.
\<close>

theorem raft_recv_requestvote_spec:
  fixes s :: "'u raft_server"
  assumes "persist_ok (me_cb s)" "election_timeout s \<noteq> 0" "raft_get_my_node s \<noteq> None"
    and "node \<noteq> None \<or> raft_get_node s (candidate_id vr) \<noteq> None"
    and "raft_get_current_idx s = 0 \<or> log_lookup s (raft_get_current_idx s) \<noteq> None"
    and "current_term s = rv_term vr \<and> voted_for s = -1 \<longrightarrow>
           me_state s \<noteq> RAFT_STATE_LEADER \<and> me_state s \<noteq> RAFT_STATE_CANDIDATE"
  defines "newer \<equiv> current_term s < rv_term vr"
  defines "grant \<equiv> may_vote s \<and> (newer \<or> current_term s = rv_term vr \<and> voted_for s = -1) \<and>
                   log_is_current s vr"
  shows "\<exists>r s'. raft_recv_requestvote ct s node vr = Ok (0, r, s') \<and>
    vote_granted r = (if grant then 1 else 0) \<and>
    rvr_term r = max (current_term s) (rv_term vr) \<and>
    current_term s' = max (current_term s) (rv_term vr) \<and>
    voted_for s' = (if grant then candidate_id vr else if newer then -1 else voted_for s) \<and>
    me_state s' = (if newer then RAFT_STATE_FOLLOWER else me_state s) \<and>
    log_of s' = log_of s \<and> progress_of s' = progress_of s \<and> members_of s' = members_of s"
proof -
  from requestvote_reaches_answer [OF assms(1,2,4), of ct] obtain n s2
    where eq: "raft_recv_requestvote ct s node vr = vote_answer s2 (Some n) vr" and s2: "answered s s2"
      "current_term s2 = max (current_term s) (rv_term vr)"
      "if newer then voted_for s2 = -1 \<and> me_state s2 = RAFT_STATE_FOLLOWER else s2 = s"
    by (auto simp: newer_def)
  have same: "log_of s2 = log_of s" "members_of s2 = members_of s" "me_cb s2 = me_cb s"
    using s2(1) by (auto simp: answered_def config_of_def)
  note cong = vote_view_cong [OF same(1,2)]
  have grant: "grant \<longleftrightarrow> may_vote s2 \<and> current_term s2 = rv_term vr \<and> voted_for s2 = -1 \<and>
      log_is_current s2 vr"
    unfolding grant_def cong using s2(2,3) by (auto simp: newer_def split: if_splits)
  have "persist_ok (me_cb s2)" "raft_get_my_node s2 \<noteq> None"
    using assms(1,3) unfolding same(3) cong(3) .
  moreover have "raft_get_current_idx s2 = 0 \<or> log_lookup s2 (raft_get_current_idx s2) \<noteq> None"
    using assms(5) log_of_window [OF same(1)] by simp
  moreover have "current_term s2 = rv_term vr \<and> voted_for s2 = -1 \<longrightarrow>
      me_state s2 \<noteq> RAFT_STATE_LEADER \<and> me_state s2 \<noteq> RAFT_STATE_CANDIDATE"
    using assms(6) s2(3) by (auto split: if_splits)
  ultimately obtain r s' where run: "vote_answer s2 (Some n) vr = Ok (0, r, s')"
    and r: "rvr_term r = current_term s2" "current_term s' = current_term s2"
      "if grant then vote_granted r = 1 \<and> voted_for s' = candidate_id vr
       else vote_granted r = 0 \<and> s' = s2"
    using vote_answer_run [of s2 vr n] s2(2) unfolding grant runs_def by auto
  from postD [OF vote_answer_frame run] s2(1)
  have "me_state s' = me_state s2" "log_of s' = log_of s" "progress_of s' = progress_of s"
    "members_of s' = members_of s" by (simp_all add: answered_def)
  with eq run r s2(2,3) show ?thesis
    by (intro exI [of _ r] exI [of _ s']) (simp split: if_splits)
qed

definition sample_requestvote :: "int \<Rightarrow> int \<Rightarrow> msg_requestvote" where
  "sample_requestvote t i = \<lparr>rv_term = t, candidate_id = 2, last_log_idx = i, last_log_term = 1\<rparr>"

theorem raft_recv_requestvote_spec_witness:
  "(\<exists>r s'. raft_recv_requestvote ref_contiki sample_server None (sample_requestvote 2 2) = Ok (0, r, s') \<and>
      vote_granted r = 1 \<and> voted_for s' = 2) \<and>
   (\<exists>r s'. raft_recv_requestvote ref_contiki sample_server None (sample_requestvote 2 1) = Ok (0, r, s') \<and>
      vote_granted r = 0 \<and> voted_for s' = -1 \<and> current_term s' = 2)"
proof -
  have pre: "persist_ok (me_cb sample_server)" "election_timeout sample_server \<noteq> 0"
    "raft_get_my_node sample_server \<noteq> None" "may_vote sample_server"
    "raft_get_node sample_server 2 \<noteq> None"
    "log_lookup sample_server (raft_get_current_idx sample_server) = Some (sample_entry 1 2)"
    by (simp_all add: persist_ok_def raft_get_my_node_def raft_get_nodeid_def node_get_defs
        may_vote_def node_read_defs raft_get_node_def log_lookup_wf)
  then have "log_is_current sample_server (sample_requestvote 2 2)"
    "\<not> log_is_current sample_server (sample_requestvote 2 1)"
    by (simp_all add: log_is_current_def sample_requestvote_def to_unsigned_def)
  with pre raft_recv_requestvote_spec [OF pre(1-3), of None "sample_requestvote 2 2" ref_contiki]
    raft_recv_requestvote_spec [OF pre(1-3), of None "sample_requestvote 2 1" ref_contiki]
  show ?thesis by (auto simp: sample_requestvote_def)
qed

section \<open>Becoming the leader\<close>

lemma is_peer_same_roles: "same_roles s s' \<Longrightarrow> is_peer s' a = is_peer s a"
  using same_roles_counts(6) [of s s' a] by (simp add: is_peer_def same_roles_def)

text \<open>The record of a peer and the message for it when a server has become the leader.\<close>

definition reset_peer :: "'u raft_server \<Rightarrow> raft_node \<Rightarrow> raft_node" where
  "reset_peer s n = n\<lparr>next_idx := raft_get_current_idx s + 1, match_idx := 0\<rparr>"

definition greeting :: "'u raft_server \<Rightarrow> msg_appendentries" where
  "greeting s =
     \<lparr>ae_term = current_term s,
      prev_log_idx = raft_get_current_idx s,
      prev_log_term =
        (if 0 < raft_get_current_idx s
         then (case log_lookup s (raft_get_current_idx s) of
                 Some p \<Rightarrow> to_signed (ety_term p)
               | None \<Rightarrow> snapshot_last_term s)
         else 0),
      leader_commit = commit_idx s,
      n_entries = 0,
      entries = []\<rparr>"

text \<open>One turn of the loop of \<^verbatim>\<open>raft_become_leader\<close>.\<close>

definition greet :: "contiki \<Rightarrow> nat \<Rightarrow> 'u raft_server \<Rightarrow> 'u raft_server result" where
  "greet ct a s =
     (if me_node s = Some a \<or> \<not> raft_node_is_active (nodes_mem s a) then Ok s
      else bind (c_int (raft_get_current_idx s + 1)) (\<lambda>nxt.
           let s = upd_node s a (\<lambda>n. raft_node_set_next_idx n nxt);
               s = upd_node s a (\<lambda>n. raft_node_set_match_idx n 0)
           in bind (raft_send_appendentries ct s a) (\<lambda>(_, s). Ok s)))"

text \<open>The state after the peers among \<open>xs\<close> have been reset and greeted.\<close>

definition greeted :: "'u raft_server \<Rightarrow> nat list \<Rightarrow> 'u raft_server" where
  "greeted s xs =
     s\<lparr>nodes_mem := (\<lambda>a. if a \<in> set xs \<and> is_peer s a then reset_peer s (nodes_mem s a) else nodes_mem s a),
       udata := fold (\<lambda>a u. hand_over s u (reset_peer s (nodes_mem s a)) (greeting s))
                  (filter (is_peer s) xs) (udata s)\<rparr>"

lemma greet_run:
  assumes "contiki_ok ct" "log_wf s" "snapshot_last_idx s = 0" "raft_get_current_idx s < INT_MAX"
  shows "greet ct a s = Ok (greeted s [a])"
proof (cases "is_peer s a")
  case False
  then have "greeted s [a] = s" by (simp add: greeted_def cong: if_cong) (auto simp: fun_eq_iff)
  with False show ?thesis by (auto simp: greet_def is_peer_def)
next
  case True
  note range = current_idx_range [OF assms(2)]
  let ?n = "reset_peer s (nodes_mem s a)"
  have in1: "in_int (raft_get_current_idx s + 1)"
    using range(1) assms(4) by (simp add: in_int_iff INT_MAX_def)
  define s1 where "s1 = s\<lparr>nodes_mem := (nodes_mem s)(a := ?n)\<rparr>"
  have lg: "log_of s1 = log_of s" by (simp add: s1_def views)
  note same = log_of_window [OF lg]
  have fields: "me_node s1 = me_node s" "me_cb s1 = me_cb s" "udata s1 = udata s" "nodes_mem s1 a = ?n"
    "current_term s1 = current_term s" "commit_idx s1 = commit_idx s" "snapshot_last_idx s1 = 0"
    "snapshot_last_term s1 = snapshot_last_term s"
    using assms(3) by (simp_all add: s1_def)
  have upd: "upd_node (upd_node s a (\<lambda>n. raft_node_set_next_idx n (raft_get_current_idx s + 1)))
      a (\<lambda>n. raft_node_set_match_idx n 0) = s1"
    using range(1) by (simp add: s1_def upd_node_def node_write_defs reset_peer_def)
  have "next_idx ?n = raft_get_current_idx s + 1" by (simp add: reset_peer_def)
  then have ae: "ae_for s1 a = greeting s"
    using range(1) by (simp add: ae_for_def greeting_def same fields Let_def cong: option.case_cong)
  have "log_wf s1" using same assms(2) by blast
  moreover have "dropped s1 < next_idx (nodes_mem s1 a)"
    using same range(1,6) by (simp add: fields reset_peer_def)
  ultimately have "\<exists>e. raft_send_appendentries ct s1 a =
      Ok (e, s1\<lparr>udata := hand_over s1 (udata s1) (nodes_mem s1 a) (ae_for s1 a)\<rparr>)"
    using True by (intro raft_send_appendentries_hands_over [OF assms(1)]) (simp_all add: fields is_peer_def)
  moreover have "s1\<lparr>udata := hand_over s1 (udata s1) (nodes_mem s1 a) (ae_for s1 a)\<rparr> = greeted s [a]"
  proof -
    have "(\<lambda>b. if b \<in> set [a] \<and> is_peer s b then reset_peer s (nodes_mem s b) else nodes_mem s b) = (nodes_mem s)(a := ?n)"
      using True by auto
    then show ?thesis using True by (simp add: ae fields greeted_def hand_over_def) (simp add: s1_def)
  qed
  ultimately show ?thesis
    using True in1 by (auto simp: greet_def is_peer_def c_int_in_int upd)
qed

text \<open>Resetting a peer twice is resetting it once, so that the turns of the loop add up.\<close>

lemma greeted_Cons: "greeted (greeted s [x]) xs = greeted s (x # xs)"
proof -
  let ?t = "greeted s [x]"
  have "log_of ?t = log_of s" by (simp add: greeted_def views)
  note same = log_of_window [OF this]
  have fields: "me_node ?t = me_node s" "me_cb ?t = me_cb s" "current_term ?t = current_term s"
    "commit_idx ?t = commit_idx s" "snapshot_last_term ?t = snapshot_last_term s"
    "\<And>a. nodes_mem ?t a = (if a = x \<and> is_peer s x then reset_peer s (nodes_mem s x) else nodes_mem s a)"
    by (auto simp: greeted_def)
  have peer: "is_peer ?t = is_peer s"
    by (auto simp: is_peer_def fields reset_peer_def node_read_defs fun_eq_iff)
  have gr: "greeting ?t = greeting s" by (simp add: greeting_def same fields cong: option.case_cong)
  have reset: "reset_peer ?t (nodes_mem ?t a) = reset_peer s (nodes_mem s a)" for a
    by (simp add: reset_peer_def same fields)
  have hand: "hand_over ?t = hand_over s" by (simp add: hand_over_def fun_eq_iff fields)
  have "greeted ?t xs =
      ?t\<lparr>nodes_mem := (\<lambda>a. if a \<in> set xs \<and> is_peer s a then reset_peer s (nodes_mem s a) else nodes_mem ?t a),
         udata := fold (\<lambda>a u. hand_over s u (reset_peer s (nodes_mem s a)) (greeting s))
                    (filter (is_peer s) xs) (udata ?t)\<rparr>"
    by (simp add: greeted_def [of ?t] peer gr reset hand cong: if_cong)
  also have "\<dots> = greeted s (x # xs)"
    by (auto simp: greeted_def fun_eq_iff)
  finally show ?thesis .
qed

lemma greet_all_run:
  assumes "contiki_ok ct" "log_wf s" "snapshot_last_idx s = 0" "raft_get_current_idx s < INT_MAX"
  shows "foreach (greet ct) xs s = Ok (greeted s xs)"
  using assms(2-)
proof (induction xs arbitrary: s)
  case Nil
  show ?case by (simp add: greeted_def)
next
  case (Cons x xs)
  let ?t = "greeted s [x]"
  have "log_of ?t = log_of s" by (simp add: greeted_def views)
  note same = log_of_window [OF this]
  have "log_wf ?t" "raft_get_current_idx ?t < INT_MAX" using same Cons.prems by auto
  moreover have "snapshot_last_idx ?t = 0" using Cons.prems(2) by (simp add: greeted_def)
  ultimately have "foreach (greet ct) xs ?t = Ok (greeted ?t xs)" by (intro Cons.IH)
  then show ?case using greet_run [OF assms(1) Cons.prems] by (simp add: greeted_Cons)
qed

lemma raft_become_leader_greets:
  "raft_become_leader ct s =
     foreach (greet ct) (nodes_list s)
       (s\<lparr>current_leader := me_node s, me_state := RAFT_STATE_LEADER, timeout_elapsed := 0\<rparr>)"
  by (simp add: raft_become_leader_def greet_def [abs_def] raft_set_state_def)

lemma raft_become_leader_run:
  assumes "contiki_ok ct" "log_wf s" "snapshot_last_idx s = 0" "raft_get_current_idx s < INT_MAX"
  shows "raft_become_leader ct s =
    Ok ((greeted s (nodes_list s))\<lparr>current_leader := me_node s, me_state := RAFT_STATE_LEADER, timeout_elapsed := 0\<rparr>)"
proof -
  let ?s = "s\<lparr>current_leader := me_node s, me_state := RAFT_STATE_LEADER, timeout_elapsed := 0\<rparr>"
  have "log_of ?s = log_of s" by (simp add: views)
  note same = log_of_window [OF this]
  have "log_wf ?s" "raft_get_current_idx ?s < INT_MAX" "snapshot_last_idx ?s = 0"
    using same assms(2-4) by auto
  then have "raft_become_leader ct s = Ok (greeted ?s (nodes_list s))"
    using greet_all_run [OF assms(1), of ?s] by (simp only: raft_become_leader_greets simp_thms)
  moreover have "is_peer ?s = is_peer s" "reset_peer ?s = reset_peer s" "hand_over ?s = hand_over s"
    "greeting ?s = greeting s"
    using same by (simp_all add: fun_eq_iff is_peer_def reset_peer_def hand_over_def greeting_def
        cong: option.case_cong)
  ultimately show ?thesis by (simp add: greeted_def cong: if_cong)
qed

text \<open>
  C16: Becoming the leader, with a log short of the largest index and no snapshot: the run does not
  fault, records this server as leader and restarts its timer.  Every other active node of the list is
  then expected to need the entry after the last one and is known to match nothing, and it is sent
  exactly one message, in list order: an empty one of the server's term with its commit index and the
  index and term of its last entry.  Nothing else of the server changes.
\<close>

theorem raft_become_leader_spec:
  assumes "contiki_ok ct" "log_wf s" "snapshot_last_idx s = 0" "raft_get_current_idx s < INT_MAX"
  defines "reset \<equiv> \<lambda>a. (nodes_mem s a)\<lparr>next_idx := raft_get_current_idx s + 1, match_idx := 0\<rparr>"
  shows "raft_become_leader ct s =
    Ok (s\<lparr>me_state := RAFT_STATE_LEADER, current_leader := me_node s, timeout_elapsed := 0,
          nodes_mem := (\<lambda>a. if a \<in> set (nodes_list s) \<and> is_peer s a then reset a else nodes_mem s a),
          udata := fold (\<lambda>a u. hand_over s u (reset a) (greeting s))
                     (filter (is_peer s) (nodes_list s)) (udata s)\<rparr>)"
  using raft_become_leader_run [OF assms(1-4)] by (simp add: greeted_def reset_peer_def reset_def cong: if_cong)

theorem raft_become_leader_spec_witness:
  "\<exists>s'. raft_become_leader ref_contiki sample_server = Ok s' \<and> me_state s' = RAFT_STATE_LEADER \<and>
     next_idx (nodes_mem s' 1) = 3 \<and> match_idx (nodes_mem s' 2) = 0 \<and> udata s' = 2"
  using raft_become_leader_spec [OF ref_contiki_ok sample_log_wf]
  by (simp add: INT_MAX_def is_peer_def node_read_defs hand_over_def)

text \<open>A candidate with its own vote and the vote of node 2.\<close>

definition sample_candidate :: "nat raft_server" where
  "sample_candidate = sample_server\<lparr>me_state := RAFT_STATE_CANDIDATE, voted_for := 1\<rparr>"

text \<open>
  C7: A vote response makes a server the leader only if it is a candidate, the response grants a vote
  of its current term, and with that vote the active voting nodes that voted for it, itself included,
  are more than half of all active voting nodes.
\<close>

theorem leader_only_by_majority:
  assumes "raft_recv_requestvote_response ct s node r = Ok (e, s')"
    and "\<not> raft_is_leader s" "raft_is_leader s'"
  shows "raft_is_candidate s \<and> vote_granted r = RAFT_REQUESTVOTE_ERR_GRANTED \<and>
    rvr_term r = current_term s \<and> election_of s' = election_of s \<and>
    raft_get_num_voting_nodes s < 2 * raft_get_nvotes_for_me (record_vote s node) \<and>
    raft_get_nvotes_for_me (record_vote s node) \<le> raft_get_num_voting_nodes s"
proof -
  from postD [OF raft_recv_requestvote_response_frame assms(1)]
  have "vote_handled s node r s'" by simp
  moreover have "\<not> quiet s s'"
    using assms(2,3) by (auto simp: quiet_def raft_is_leader_def raft_get_state_def)
  ultimately have "vote_granted r = 1" "rvr_term r = current_term s" "vote_counted s node s'"
    by (auto simp: vote_handled_def)
  moreover have "0 \<le> raft_get_num_voting_nodes s" by (simp add: raft_get_num_voting_nodes_def)
  ultimately show ?thesis
    using assms(3)
    by (auto simp: vote_counted_def raft_is_candidate_def raft_is_leader_def raft_get_state_def
        raft_votes_is_majority_def split: if_splits)
qed

theorem leader_only_by_majority_witness:
  "\<exists>s'. raft_recv_requestvote_response ref_contiki sample_candidate (Some 1)
       \<lparr>rvr_term = 1, vote_granted = 1\<rparr> = Ok (0, s') \<and>
     \<not> raft_is_leader sample_candidate \<and> raft_is_leader s' \<and>
     raft_get_num_voting_nodes sample_candidate
       < 2 * raft_get_nvotes_for_me (record_vote sample_candidate (Some 1))"
proof -
  let ?s = "record_vote sample_candidate (Some 1)"
  have "log_of ?s = log_of sample_server"
    by (simp add: record_vote_def sample_candidate_def views)
  note same = log_of_window [OF this]
  have wf: "log_wf ?s" using same sample_log_wf by blast
  obtain s' where lead: "raft_become_leader ref_contiki ?s = Ok s'" "me_state s' = RAFT_STATE_LEADER"
    using raft_become_leader_run [OF ref_contiki_ok wf] same
    by (simp add: record_vote_def sample_candidate_def INT_MAX_def)
  have n: "raft_get_num_voting_nodes ?s = 3" "raft_get_nvotes_for_me ?s = 2"
    by (simp_all add: record_vote_def sample_candidate_def raft_get_num_voting_nodes_def
        raft_get_nvotes_for_me_def raft_get_nodeid_def node_get_defs node_read_defs
        raft_node_vote_for_me_def)
  have run: "raft_recv_requestvote_response ref_contiki sample_candidate (Some 1)
      \<lparr>rvr_term = 1, vote_granted = 1\<rparr> = Ok (0, s')"
    using lead(1) n
    by (simp add: raft_recv_requestvote_response_def raft_is_candidate_def raft_get_state_def
        raft_get_current_term_def record_vote_def raft_votes_is_majority_def sample_candidate_def Let_def)
  show ?thesis
    using leader_only_by_majority [OF run] run lead(2)
    by (simp add: raft_is_leader_def raft_get_state_def sample_candidate_def)
qed

end
