(* ===== verification/Raft_Replication.thy ===== *)
theory Raft_Replication
  imports Raft_Election
begin

text \<open>
  Log replication in \<^verbatim>\<open>src/raft_server.c\<close>: the follower's side of appendentries, the leader's
  side (responses, commit index) and client entries.
\<close>

section \<open>Receiving appendentries\<close>

text \<open>
  The two loops of \<^verbatim>\<open>raft_recv_appendentries\<close>.  Both walk the chain of the message's entries;
  \<open>[]\<close> is the pointer \<^verbatim>\<open>NULL\<close>.  The first loop ends with the label it jumps to
  (\<open>Goto_Out\<close>, with the error code) or after a \<^verbatim>\<open>break\<close> or its last turn (\<open>Go_On\<close>, with
  the loop counter and the chain).
\<close>

datatype scan_end = Goto_Out int | Go_On int "raft_entry list"

function ae_scan ::
  "contiki \<Rightarrow> msg_appendentries \<Rightarrow> int \<Rightarrow> raft_entry list \<Rightarrow> int \<Rightarrow> 'u raft_server
     \<Rightarrow> (scan_end \<times> int \<times> 'u raft_server) result" where
  "ae_scan ct ae i ety cur s =
     (if \<not> i < n_entries ae then Ok (Go_On i ety, cur, s)
      else
        bind (c_int (prev_log_idx ae + 1)) (\<lambda>k.
        bind (c_int (k + i)) (\<lambda>ety_index.
        case raft_get_entry_from_idx s ety_index of
          None \<Rightarrow> Ok (Go_On i ety, cur, s)
        | Some existing \<Rightarrow>
            bind (deref (case ety of [] \<Rightarrow> None | x # _ \<Rightarrow> Some x)) (\<lambda>x.
            if ety_term (entries_mem s existing) \<noteq> ety_term x \<and> commit_idx s < ety_index
            then bind (raft_delete_entry_from_idx ct s ety_index) (\<lambda>(e, s).
                 if e \<noteq> 0 then Ok (Goto_Out e, cur, s) else Ok (Go_On i ety, cur, s))
            else ae_scan ct ae (i + 1) (raft_get_next_log_entry ety) ety_index s))))"
  by pat_completeness auto
termination
  by (relation "measure (\<lambda>(ct, ae, i, ety, cur, s). nat (n_entries ae - i))") auto

declare ae_scan.simps [simp del]

function ae_append ::
  "contiki \<Rightarrow> msg_appendentries \<Rightarrow> int \<Rightarrow> raft_entry list \<Rightarrow> int \<Rightarrow> 'u raft_server
     \<Rightarrow> (scan_end \<times> int \<times> 'u raft_server) result" where
  "ae_append ct ae i ety cur s =
     (if \<not> i < n_entries ae then Ok (Go_On i ety, cur, s)
      else
        case ety of
          [] \<Rightarrow> Ok (Goto_Out 0, cur, s)
        | x # _ \<Rightarrow>
            bind (raft_append_entry ct s x) (\<lambda>(e, _, s).
            if e \<noteq> 0 then Ok (Goto_Out e, cur, s)
            else
              bind (c_int (prev_log_idx ae + 1)) (\<lambda>k.
              bind (c_int (k + i)) (\<lambda>cur.
              ae_append ct ae (i + 1) (raft_get_next_log_entry ety) cur s))))"
  by pat_completeness auto
termination
  by (relation "measure (\<lambda>(ct, ae, i, ety, cur, s). nat (n_entries ae - i))") auto

declare ae_append.simps [simp del]

text \<open>The label \<^verbatim>\<open>out\<close>: \<open>succ\<close> and \<open>cur\<close> are the response's fields at that point.\<close>

definition ae_out ::
  "'u raft_server \<Rightarrow> msg_appendentries \<Rightarrow> int \<Rightarrow> int \<Rightarrow> int
     \<Rightarrow> (int \<times> msg_appendentries_response \<times> 'u raft_server) result" where
  "ae_out s ae e succ cur =
     bind (c_int (prev_log_idx ae + 1)) (\<lambda>f.
     Ok (e,
         \<lparr>aer_term = current_term s,
          success = succ,
          aer_current_idx = (if succ = 0 then raft_get_current_idx s else cur),
          first_idx = f\<rparr>,
         s))"

text \<open>Step 4: the commit index follows the leader's.\<close>

definition ae_commit :: "'u raft_server \<Rightarrow> msg_appendentries \<Rightarrow> 'u raft_server result" where
  "ae_commit s ae =
     (if raft_get_commit_idx s < leader_commit ae
      then let last_log_idx = max (raft_get_current_idx s) 1
           in raft_set_commit_idx s (min last_log_idx (leader_commit ae))
      else Ok s)"

text \<open>Steps 3 and 4, after the consistency check has passed.\<close>

definition ae_entries ::
  "contiki \<Rightarrow> 'u raft_server \<Rightarrow> msg_appendentries
     \<Rightarrow> (int \<times> msg_appendentries_response \<times> 'u raft_server) result" where
  "ae_entries ct s ae =
     bind (ae_scan ct ae 0 (entries ae) (prev_log_idx ae) s) (\<lambda>(r, cur, s).
     case r of
       Goto_Out e \<Rightarrow> ae_out s ae e 1 cur
     | Go_On i ety \<Rightarrow>
         bind (ae_append ct ae i ety cur s) (\<lambda>(r, cur, s).
         case r of
           Goto_Out e \<Rightarrow> ae_out s ae e 1 cur
         | Go_On _ _ \<Rightarrow> bind (ae_commit s ae) (\<lambda>s. ae_out s ae 0 1 cur)))"

text \<open>Step 2, the consistency check, from the point where the sender is known to lead the term.\<close>

definition ae_check ::
  "contiki \<Rightarrow> 'u raft_server \<Rightarrow> nat option \<Rightarrow> msg_appendentries
     \<Rightarrow> (int \<times> msg_appendentries_response \<times> 'u raft_server) result" where
  "ae_check ct s node ae =
     (let s = s\<lparr>current_leader := node, timeout_elapsed := 0\<rparr> in
      if 0 < prev_log_idx ae then
        (case raft_get_entry_from_idx s (prev_log_idx ae) of
           None \<Rightarrow> ae_out s ae 0 0 0
         | Some a \<Rightarrow>
             if ety_term (entries_mem s a) \<noteq> to_unsigned (prev_log_term ae)
             then bind (c_int (leader_commit ae + 1)) (\<lambda>lc.
                  bind (raft_delete_entry_from_idx ct s (max (prev_log_idx ae) lc)) (\<lambda>(e, s).
                  ae_out s ae e 0 0))
             else ae_entries ct s ae)
      else ae_entries ct s ae)"

definition raft_recv_appendentries ::
  "contiki \<Rightarrow> 'u raft_server \<Rightarrow> nat option \<Rightarrow> msg_appendentries
     \<Rightarrow> (int \<times> msg_appendentries_response \<times> 'u raft_server) result" where
  "raft_recv_appendentries ct s node ae =
     (if raft_is_candidate s \<and> current_term s = ae_term ae then
        bind (raft_become_follower ct s) (\<lambda>s. ae_check ct s node ae)
      else if current_term s < ae_term ae then
        (let (e, s) = raft_set_current_term s (ae_term ae)
         in if e \<noteq> 0 then ae_out s ae e 0 0
            else bind (raft_become_follower ct s) (\<lambda>s. ae_check ct s node ae))
      else if ae_term ae < current_term s then ae_out s ae 0 0 0
      else ae_check ct s node ae)"

section \<open>Receiving the response\<close>

text \<open>The number of servers known to hold the log up to \<open>point\<close>, the leader included.\<close>

definition commit_votes :: "'u raft_server \<Rightarrow> int \<Rightarrow> int" where
  "commit_votes s point =
     1 + int (length (filter (\<lambda>a. me_node s \<noteq> Some a \<and>
                                  raft_node_is_active (nodes_mem s a) \<and>
                                  raft_node_is_voting (nodes_mem s a) \<and>
                                  point \<le> raft_node_get_match_idx (nodes_mem s a)) (nodes_list s)))"

definition aer_update_commit :: "'u raft_server \<Rightarrow> int \<Rightarrow> 'u raft_server result" where
  "aer_update_commit s point =
     (if point \<noteq> 0 then
        (let ety = raft_get_entry_from_idx s point in
         if raft_get_commit_idx s < point then
           bind (deref ety) (\<lambda>a.
           if ety_term (entries_mem s a) = to_unsigned (current_term s) \<and>
              c_div (raft_get_num_voting_nodes s) 2 < commit_votes s point
           then raft_set_commit_idx s point else Ok s)
         else Ok s)
      else Ok s)"

text \<open>The \<^verbatim>\<open>node_has_sufficient_logs\<close> callback for a non-voting node that has caught up.\<close>

definition aer_sufficient_logs :: "'u raft_server \<Rightarrow> nat \<Rightarrow> int \<Rightarrow> 'u raft_server result" where
  "aer_sufficient_logs s a ridx =
     bind (c_int (ridx + 1)) (\<lambda>k.
     let n = nodes_mem s a in
     if \<not> raft_node_is_voting n \<and>
        \<not> raft_voting_change_is_in_progress s \<and>
        raft_get_current_idx s \<le> k \<and>
        \<not> raft_node_is_voting_committed n \<and>
        cb_node_has_sufficient_logs (me_cb s) \<noteq> None \<and>
        \<not> raft_node_has_sufficient_logs n
     then let (e, u) = the (cb_node_has_sufficient_logs (me_cb s)) (udata s) n;
              s = s\<lparr>udata := u\<rparr>
          in if e = 0 then Ok (upd_node s a raft_node_set_has_sufficient_logs) else Ok s
     else Ok s)"

text \<open>The branch of a successful response that tells the leader something new.\<close>

definition aer_success ::
  "contiki \<Rightarrow> 'u raft_server \<Rightarrow> nat \<Rightarrow> int \<Rightarrow> (int \<times> 'u raft_server) result" where
  "aer_success ct s a ridx =
     bind (c_assert (ridx \<le> raft_get_current_idx s)) (\<lambda>_.
     bind (c_int (ridx + 1)) (\<lambda>nxt.
     let s = upd_node s a (\<lambda>n. raft_node_set_next_idx n nxt);
         s = upd_node s a (\<lambda>n. raft_node_set_match_idx n ridx)
     in bind (aer_sufficient_logs s a ridx) (\<lambda>s.
        bind (aer_update_commit s ridx) (\<lambda>s.
        if raft_get_entry_from_idx s (raft_node_get_next_idx (nodes_mem s a)) \<noteq> None
        then bind (raft_send_appendentries ct s a) (\<lambda>(_, s). Ok (0, s))
        else Ok (0, s)))))"

definition raft_recv_appendentries_response ::
  "contiki \<Rightarrow> 'u raft_server \<Rightarrow> nat option \<Rightarrow> msg_appendentries_response
     \<Rightarrow> (int \<times> 'u raft_server) result" where
  "raft_recv_appendentries_response ct s node r =
     (if \<not> raft_is_leader s then Ok (RAFT_ERR_NOT_LEADER, s)
      else if current_term s < aer_term r then
        (let (e, s) = raft_set_current_term s (aer_term r)
         in if e \<noteq> 0 then Ok (e, s)
            else bind (raft_become_follower ct s) (\<lambda>s.
                 Ok (0, s\<lparr>current_leader := None\<rparr>)))
      else if current_term s \<noteq> aer_term r then Ok (0, s)
      else
        bind (deref node) (\<lambda>a.
        let match = raft_node_get_match_idx (nodes_mem s a); ridx = aer_current_idx r in
        if success r = 0 then
          (let nxt = raft_node_get_next_idx (nodes_mem s a) in
           bind (c_assert (0 < nxt)) (\<lambda>_.
           bind (c_assert (match \<le> nxt - 1)) (\<lambda>_.
           if match = nxt - 1 then Ok (0, s)
           else
             let s = (if ridx < nxt - 1
                      then upd_node s a (\<lambda>n. raft_node_set_next_idx n
                             (min (ridx + 1) (raft_get_current_idx s)))
                      else upd_node s a (\<lambda>n. raft_node_set_next_idx n (nxt - 1)))
             in bind (raft_send_appendentries ct s a) (\<lambda>(_, s). Ok (0, s)))))
        else if ridx \<le> match then Ok (0, s)
        else aer_success ct s a ridx))"

section \<open>Client entries\<close>

text \<open>The loop of \<^verbatim>\<open>raft_recv_entry\<close> that sends the new entry to the peers that only lack it.\<close>

definition push_entry :: "contiki \<Rightarrow> nat \<Rightarrow> 'u raft_server \<Rightarrow> 'u raft_server result" where
  "push_entry ct a s =
     (if me_node s = Some a \<or> \<not> raft_node_is_active (nodes_mem s a) \<or>
         \<not> raft_node_is_voting (nodes_mem s a) then Ok s
      else if raft_node_get_next_idx (nodes_mem s a) = raft_get_current_idx s
      then bind (raft_send_appendentries ct s a) (\<lambda>(_, s). Ok s)
      else Ok s)"

text \<open>The result carries the caller's entry and response, which the source writes in place.\<close>

definition raft_recv_entry ::
  "contiki \<Rightarrow> 'u raft_server \<Rightarrow> raft_entry \<Rightarrow> msg_entry_response
     \<Rightarrow> (int \<times> raft_entry \<times> msg_entry_response \<times> 'u raft_server) result" where
  "raft_recv_entry ct s ety r =
     (if raft_entry_is_voting_cfg_change ety \<and> raft_voting_change_is_in_progress s
      then Ok (RAFT_ERR_ONE_VOTING_CHANGE_ONLY, ety, r, s)
      else if raft_entry_is_voting_cfg_change ety \<and> raft_snapshot_is_in_progress s
      then Ok (RAFT_ERR_SNAPSHOT_IN_PROGRESS, ety, r, s)
      else if \<not> raft_is_leader s then Ok (RAFT_ERR_NOT_LEADER, ety, r, s)
      else
        bind (raft_append_entry ct s (ety\<lparr>ety_term := to_unsigned (current_term s)\<rparr>))
          (\<lambda>(e, ety, s).
        if e \<noteq> 0 then Ok (e, ety, r, s)
        else
          bind (foreach (push_entry ct) (nodes_list s) s) (\<lambda>s.
          bind (if raft_get_num_voting_nodes s = 1
                then raft_set_commit_idx s (raft_get_current_idx s) else Ok s) (\<lambda>s.
          let r = \<lparr>er_id = ety_id ety, er_term = current_term s, er_idx = raft_get_current_idx s\<rparr>;
              s = (if raft_entry_is_voting_cfg_change ety
                   then s\<lparr>voting_cfg_change_log_idx := raft_get_current_idx s\<rparr> else s)
          in Ok (0, ety, r, s)))))"

text \<open>Comparing the response's term (an \<^verbatim>\<open>int\<close>) with the entry's is an unsigned comparison.\<close>

definition raft_msg_entry_response_committed ::
  "'u raft_server \<Rightarrow> msg_entry_response \<Rightarrow> int" where
  "raft_msg_entry_response_committed s r =
     (case raft_get_entry_from_idx s (er_idx r) of
        None \<Rightarrow> 0
      | Some a \<Rightarrow>
          if to_unsigned (er_term r) \<noteq> ety_term (entries_mem s a) then -1
          else if er_idx r \<le> raft_get_commit_idx s then 1 else 0)"

section \<open>Frames\<close>

text \<open>
  Invariant rules for the two loops: what every deletion keeps the first loop keeps, what every append
  keeps the second keeps.
\<close>

lemma ae_scan_rule:
  assumes "I s" and "\<And>s i. I s \<Longrightarrow> post (raft_delete_entry_from_idx ct s i) (\<lambda>(e, s'). I s')"
  shows "post (ae_scan ct ae i ety cur s) (\<lambda>(r, cur', s'). I s' \<and>
    (\<forall>j rest. r = Go_On j rest \<longrightarrow> set rest \<subseteq> set ety))"
  using assms(1)
proof (induction "nat (n_entries ae - i)" arbitrary: i ety cur s rule: less_induct)
  case less
  have tl: "set (raft_get_next_log_entry ety) \<subseteq> set ety"
    by (auto simp: raft_get_next_log_entry_def log_get_next_entry_def split: list.split)
  have IH: "post (ae_scan ct ae (i + 1) (raft_get_next_log_entry ety) k s) (\<lambda>(r, cur', s'). I s' \<and>
      (\<forall>j rest. r = Go_On j rest \<longrightarrow> set rest \<subseteq> set ety))" if "i < n_entries ae" for k
    using that tl by (intro post_mono [OF less.hyps]) (auto intro: less.prems)
  show ?case
    by (subst ae_scan.simps)
       (use less.prems IH in \<open>auto simp: wp split: option.split list.split
         intro!: post_mono [OF assms(2)]\<close>)
qed

lemma ae_append_rule:
  assumes "I s" and "\<And>s x. I s \<Longrightarrow> x \<in> set ety \<Longrightarrow> post (raft_append_entry ct s x) (\<lambda>(c, e', s'). I s')"
  shows "post (ae_append ct ae i ety cur s) (\<lambda>(r, cur', s'). I s')"
  using assms
proof (induction "nat (n_entries ae - i)" arbitrary: i ety cur s rule: less_induct)
  case less
  have tl: "set (raft_get_next_log_entry ety) \<subseteq> set ety"
    by (auto simp: raft_get_next_log_entry_def log_get_next_entry_def split: list.split)
  have IH: "post (ae_append ct ae (i + 1) (raft_get_next_log_entry ety) k t) (\<lambda>(r, cur', s'). I s')"
    if "i < n_entries ae" "I t" for k t
    using that less.prems(2) tl by (intro less.hyps) auto
  show ?case
    by (subst ae_append.simps)
       (use less.prems IH in \<open>auto simp: wp split: list.split intro!: post_mono [OF less.prems(2)]\<close>)
qed

text \<open>
  What handling appendentries and its response keeps: the configuration and the applied index; the
  commit index does not decrease; terms and votes obey the rule of elections.
\<close>

definition msg_step :: "'u raft_server \<Rightarrow> 'u raft_server \<Rightarrow> bool" where
  "msg_step s s' \<longleftrightarrow>
     vote_step s s' \<and> config_of s' = config_of s \<and> commit_idx s \<le> commit_idx s' \<and>
     last_applied_idx s' = last_applied_idx s"

lemma msg_step_refl [simp]: "msg_step s s"
  by (simp add: msg_step_def)

lemma msg_step_trans: "msg_step s t \<Longrightarrow> msg_step t u \<Longrightarrow> msg_step s u"
  by (auto simp: msg_step_def intro: vote_step_trans)

lemma append_msg_step: "append_step s s' \<Longrightarrow> msg_step s s'"
  by (simp add: msg_step_def append_step_def views election_vote_step vote_step_def)

lemma answered_msg_step: "answered s s' \<Longrightarrow> msg_step s s'"
  by (simp add: msg_step_def answered_def views)

text \<open>The role can only be lost.\<close>

definition role_step :: "'u raft_server \<Rightarrow> 'u raft_server \<Rightarrow> bool" where
  "role_step s s' \<longleftrightarrow>
     me_state s' = RAFT_STATE_FOLLOWER \<or> me_state s' = me_state s \<and> current_term s' = current_term s"

lemma role_step_refl [simp]: "role_step s s"
  by (simp add: role_step_def)

lemma role_step_trans: "role_step s t \<Longrightarrow> role_step t u \<Longrightarrow> role_step s u"
  by (auto simp: role_step_def)

lemma append_role_step: "append_step s s' \<Longrightarrow> role_step s s'"
  by (simp add: role_step_def append_step_def views)

lemma raft_set_commit_idx_frame:
  "post (raft_set_commit_idx s i) (\<lambda>s'. s' = s\<lparr>commit_idx := i\<rparr> \<and> commit_idx s \<le> i \<and>
     i \<le> raft_get_current_idx s)"
  by (simp add: raft_set_commit_idx_def wp)

lemma ae_out_frame: "post (ae_out s ae e succ cur) (\<lambda>(e', r, s'). s' = s)"
  by (simp add: ae_out_def wp)

lemma ae_commit_frame:
  "post (ae_commit s ae) (\<lambda>s'. s' = s\<lparr>commit_idx := commit_idx s'\<rparr> \<and> commit_idx s \<le> commit_idx s')"
  by (auto simp: ae_commit_def wp raft_get_commit_idx_def Let_def
      intro!: post_mono [OF raft_set_commit_idx_frame])

text \<open>Both together, for a handler as a whole.\<close>

definition handled :: "'u raft_server \<Rightarrow> 'u raft_server \<Rightarrow> bool" where
  "handled s s' \<longleftrightarrow> msg_step s s' \<and> role_step s s'"

lemmas handled_defs = handled_def msg_step_def role_step_def vote_step_def

lemma handled_refl [simp]: "handled s s"
  by (simp add: handled_def)

lemma handled_trans: "handled s t \<Longrightarrow> handled t u \<Longrightarrow> handled s u"
  unfolding handled_def by (blast intro: msg_step_trans role_step_trans)

lemma append_handled: "append_step s s' \<Longrightarrow> handled s s'"
  by (simp add: handled_def append_msg_step append_role_step)

lemma commit_handled: "s' = s\<lparr>commit_idx := c\<rparr> \<Longrightarrow> commit_idx s \<le> c \<Longrightarrow> handled s s'"
  by (simp add: handled_defs views)

lemma send_handled: "send_step s s' \<Longrightarrow> handled s s'"
  by (auto simp: send_step_def handled_defs views)

lemma upd_node_handled [simp]: "handled s (upd_node s a f)"
  by (simp add: handled_defs)

lemma ae_entries_frame: "post (ae_entries ct s ae) (\<lambda>(e, r, s'). handled s s')"
proof -
  have del: "post (raft_delete_entry_from_idx ct t i) (\<lambda>(e, s'). handled s s')"
    if "handled s t" for t i
    by (rule post_mono [OF raft_delete_entry_frame])
       (auto intro: handled_trans [OF that] append_handled)
  have app: "post (raft_append_entry ct t x) (\<lambda>(c, e', s'). handled s s')"
    if "handled s t" for t x
    by (rule post_mono [OF raft_append_entry_frame])
       (auto intro: handled_trans [OF that] append_handled)
  have commit: "post (ae_commit t ae) (handled s)" if "handled s t" for t
    by (rule post_mono [OF ae_commit_frame]) (blast intro: handled_trans [OF that] commit_handled)
  note scan = ae_scan_rule [of "handled s", OF handled_refl del]
  note append = ae_append_rule [of "handled s", OF _ app]
  show ?thesis
    unfolding ae_entries_def
    by (auto simp: wp split: scan_end.split intro!: post_mono [OF scan] post_mono [OF append]
        post_mono [OF ae_out_frame] post_mono [OF commit])
qed

lemma ae_check_frame: "post (ae_check ct s node ae) (\<lambda>(e, r, s'). handled s s')"
proof -
  let ?s = "s\<lparr>current_leader := node, timeout_elapsed := 0\<rparr>"
  have pre: "handled s ?s" by (simp add: handled_defs views)
  have entries: "post (ae_entries ct ?s ae) (\<lambda>(e, r, s'). handled s s')"
    by (rule post_mono [OF ae_entries_frame]) (auto intro: handled_trans [OF pre])
  have del: "post (raft_delete_entry_from_idx ct ?s i) (\<lambda>(e, s'). handled s s')" for i
    by (rule post_mono [OF raft_delete_entry_frame])
       (auto intro: handled_trans [OF pre] append_handled)
  show ?thesis
    unfolding ae_check_def Let_def
    using pre entries
    by (auto simp: wp split: option.split intro!: post_mono [OF ae_out_frame] post_mono [OF del])
qed

lemma step_down_handled:
  assumes "raft_set_current_term s t = (0, s1)" "current_term s < t"
  shows "post (raft_become_follower ct s1) (\<lambda>s'. handled s s' \<and> handled s (s'\<lparr>current_leader := None\<rparr>))"
proof (rule post_mono [OF step_down_frame [OF assms]])
  fix s'
  assume a: "answered s (s'\<lparr>current_leader := None\<rparr>) \<and> current_term s' = t \<and> voted_for s' = -1 \<and>
    me_state s' = RAFT_STATE_FOLLOWER"
  then have "msg_step s (s'\<lparr>current_leader := None\<rparr>)" by (simp add: answered_msg_step)
  then have "msg_step s s'" by (simp add: msg_step_def views vote_step_def)
  with a show "handled s s' \<and> handled s (s'\<lparr>current_leader := None\<rparr>)"
    by (simp add: handled_def answered_msg_step role_step_def)
qed

lemma set_term_error:
  assumes "raft_set_current_term s t = (e, s1)" "e \<noteq> 0"
  shows "handled s s1 \<and> log_of s1 = log_of s \<and> members_of s1 = members_of s"
  using raft_set_current_term_spec [OF assms(1)] assms(2)
  by (simp add: handled_defs views)

lemma raft_recv_appendentries_frame:
  "post (raft_recv_appendentries ct s node ae) (\<lambda>(e, r, s'). handled s s')"
proof -
  obtain e s1 where st: "raft_set_current_term s (ae_term ae) = (e, s1)" by fastforce
  have follow: "post (raft_become_follower ct s) (handled s)"
    by (rule post_mono [OF raft_become_follower_same])
       (simp add: handled_defs views)
  have check: "post (ae_check ct t node ae) (\<lambda>(e, r, s'). handled s s')" if "handled s t" for t
    by (rule post_mono [OF ae_check_frame]) (auto intro: handled_trans [OF that])
  consider "raft_is_candidate s \<and> current_term s = ae_term ae"
    | "\<not> (raft_is_candidate s \<and> current_term s = ae_term ae)" "current_term s < ae_term ae" "e = 0"
    | "\<not> (raft_is_candidate s \<and> current_term s = ae_term ae)" "current_term s < ae_term ae" "e \<noteq> 0"
    | "\<not> (raft_is_candidate s \<and> current_term s = ae_term ae)" "\<not> current_term s < ae_term ae"
    by blast
  then show ?thesis
  proof cases
    case 1
    then show ?thesis
      by (auto simp: raft_recv_appendentries_def wp intro!: post_mono [OF follow] check)
  next
    case 2
    with st have "raft_set_current_term s (ae_term ae) = (0, s1)" by simp
    with 2 show ?thesis
      by (auto simp: raft_recv_appendentries_def wp
          intro!: post_mono [OF step_down_handled] check)
  next
    case 3
    then show ?thesis
      using set_term_error [OF st] st
      by (auto simp: raft_recv_appendentries_def wp intro!: post_mono [OF ae_out_frame])
  next
    case 4
    then show ?thesis
      by (auto simp: raft_recv_appendentries_def wp intro!: post_mono [OF ae_out_frame] check)
  qed
qed

lemma aer_update_commit_frame:
  "post (aer_update_commit s point) (\<lambda>s'.
     s' = s\<lparr>commit_idx := commit_idx s'\<rparr> \<and> commit_idx s \<le> commit_idx s')"
  by (auto simp: aer_update_commit_def wp Let_def intro!: post_mono [OF raft_set_commit_idx_frame])

text \<open>A leader's knowledge of a peer changes, not who it is.\<close>

lemma aer_sufficient_logs_frame:
  "post (aer_sufficient_logs s a k) (\<lambda>s'. handled s s' \<and> log_of s' = log_of s \<and>
     election_of s' = election_of s \<and>
     progress_of s' = progress_of s \<and> same_voters s s' \<and> me_state s' = me_state s \<and>
     (\<forall>b. raft_node_has_vote_for_me (nodes_mem s' b) = raft_node_has_vote_for_me (nodes_mem s b) \<and>
          match_idx (nodes_mem s' b) = match_idx (nodes_mem s b) \<and>
          next_idx (nodes_mem s' b) = next_idx (nodes_mem s b)))"
  by (auto simp: aer_sufficient_logs_def wp Let_def case_prod_beta handled_defs views same_voters_def)

text \<open>Steps that change neither the log nor who the members are, nor who voted.\<close>

definition peer_step :: "'u raft_server \<Rightarrow> 'u raft_server \<Rightarrow> bool" where
  "peer_step s s' \<longleftrightarrow>
     handled s s' \<and> log_of s' = log_of s \<and> same_voters s s' \<and>
     (\<forall>a. raft_node_has_vote_for_me (nodes_mem s' a) = raft_node_has_vote_for_me (nodes_mem s a))"

lemma peer_step_refl [simp]: "peer_step s s"
  by (simp add: peer_step_def)

lemma peer_step_trans: "peer_step s t \<Longrightarrow> peer_step t u \<Longrightarrow> peer_step s u"
  unfolding peer_step_def by (auto intro: handled_trans same_voters_trans)

lemma peer_step_quiet: "peer_step s s' \<Longrightarrow> quiet s s'"
  by (auto simp: peer_step_def handled_defs quiet_def)

lemma handled_peer_step:
  "handled s s' \<Longrightarrow> log_of s' = log_of s \<Longrightarrow> members_of s' = members_of s \<Longrightarrow> peer_step s s'"
  by (simp add: peer_step_def members_same_voters) (simp add: views)

lemma send_peer_step: "send_step s s' \<Longrightarrow> peer_step s s'"
  by (intro handled_peer_step send_handled) (simp_all add: send_step_same)

lemma commit_peer_step: "s' = s\<lparr>commit_idx := c\<rparr> \<Longrightarrow> commit_idx s \<le> c \<Longrightarrow> peer_step s s'"
  by (intro handled_peer_step commit_handled [of _ c]) (simp_all add: views)

lemma idx_peer_step:
  "peer_step s (upd_node s a (\<lambda>n. raft_node_set_next_idx n k))"
  "peer_step s (upd_node s a (\<lambda>n. raft_node_set_match_idx n k))"
  by (auto simp: peer_step_def same_voters_def)

lemma raft_send_peer_step:
  "peer_step s t \<Longrightarrow> post (raft_send_appendentries ct t a) (\<lambda>(e, s'). peer_step s s')"
  by (rule post_mono [OF raft_send_appendentries_frame])
     (auto intro: peer_step_trans [OF _ send_peer_step])

lemma aer_commit_peer_step:
  "peer_step s t \<Longrightarrow> post (aer_update_commit t k) (peer_step s)"
  by (rule post_mono [OF aer_update_commit_frame])
     (blast intro: peer_step_trans [OF _ commit_peer_step])

lemma aer_sufficient_peer_step:
  "peer_step s t \<Longrightarrow> post (aer_sufficient_logs t a k) (peer_step s)"
  by (rule post_mono [OF aer_sufficient_logs_frame])
     (rule peer_step_trans, assumption, simp add: peer_step_def)

lemma step_down_peer_step:
  assumes "raft_set_current_term s t = (0, s1)" "current_term s < t"
  shows "post (raft_become_follower ct s1) (\<lambda>s'. peer_step s (s'\<lparr>current_leader := None\<rparr>))"
  by (rule post_mono [OF post_conj [OF step_down_handled [OF assms] step_down_frame [OF assms]]])
     (auto intro!: handled_peer_step simp: answered_def)

lemma raft_recv_appendentries_response_frame:
  "post (raft_recv_appendentries_response ct s node r) (\<lambda>(e, s'). peer_step s s')"
proof -
  obtain e s1 where st: "raft_set_current_term s (aer_term r) = (e, s1)" by fastforce
  have err: "peer_step s s1" if "e \<noteq> 0"
    using set_term_error [OF st that] by (simp add: handled_peer_step)
  have next_step: "peer_step s (upd_node s a (\<lambda>n. raft_node_set_next_idx n k))" for a k
    by (rule idx_peer_step)
  have both: "peer_step s (upd_node (upd_node s a (\<lambda>n. raft_node_set_next_idx n k)) a
      (\<lambda>n. raft_node_set_match_idx n j))" for a k j
    by (rule peer_step_trans [OF idx_peer_step(1) idx_peer_step(2)])
  have succ: "post (aer_success ct s a k) (\<lambda>(e, s'). peer_step s s')" for a k
    by (auto simp: aer_success_def wp Let_def
        intro!: raft_send_peer_step [THEN post_mono] post_mono [OF aer_sufficient_peer_step [OF both]]
          post_mono [OF aer_commit_peer_step])
  consider "\<not> raft_is_leader s" | "raft_is_leader s" "current_term s < aer_term r" "e = 0"
    | "raft_is_leader s" "current_term s < aer_term r" "e \<noteq> 0"
    | "raft_is_leader s" "\<not> current_term s < aer_term r" "current_term s \<noteq> aer_term r"
    | (current) "raft_is_leader s" "current_term s = aer_term r"
    by fastforce
  then show ?thesis
  proof cases
    case current
    then show ?thesis
      by (auto simp: raft_recv_appendentries_response_def wp Let_def split: option.split
          intro!: raft_send_peer_step [THEN post_mono] next_step post_mono [OF succ])
  next
    case 2
    with st show ?thesis
      by (auto simp: raft_recv_appendentries_response_def wp
          intro!: post_mono [OF step_down_peer_step])
  qed (use st err in \<open>auto simp: raft_recv_appendentries_response_def wp\<close>)
qed

section \<open>The commit rule\<close>

lemma commit_votes_cong:
  assumes "same_voters s s'" "\<And>a. match_idx (nodes_mem s' a) = match_idx (nodes_mem s a)"
  shows "commit_votes s' k = commit_votes s k"
  using assms by (simp add: commit_votes_def same_voters_def node_get_defs)

text \<open>What has to hold for the leader to commit up to \<open>k\<close>.\<close>

definition committable :: "'u raft_server \<Rightarrow> int \<Rightarrow> bool" where
  "committable s k \<longleftrightarrow>
     (\<exists>x. log_lookup s k = Some x \<and> ety_term x = to_unsigned (current_term s)) \<and>
     raft_get_num_voting_nodes s < 2 * commit_votes s k"

lemma committable_cong:
  fixes s s' :: "'u raft_server"
  assumes "same_voters s s'" "\<And>a. match_idx (nodes_mem s' a) = match_idx (nodes_mem s a)"
    and "log_of s' = log_of s" "current_term s' = current_term s"
  shows "committable s' k = committable s k"
  using commit_votes_cong [OF assms(1,2)] log_of_window [OF assms(3)] same_voters_reads(2) [OF assms(1)]
    assms(4) by (simp add: committable_def)

lemma aer_update_commit_rule:
  "post (aer_update_commit s k) (\<lambda>s'. s' = s \<or>
     s' = s\<lparr>commit_idx := k\<rparr> \<and> commit_idx s < k \<and> k \<le> raft_get_current_idx s \<and> committable s k)"
proof -
  have "0 \<le> raft_get_num_voting_nodes s" by (simp add: raft_get_num_voting_nodes_def)
  then have half: "c_div (raft_get_num_voting_nodes s) 2 < commit_votes s k \<longleftrightarrow>
      raft_get_num_voting_nodes s < 2 * commit_votes s k"
    by auto
  show ?thesis
    by (auto simp: aer_update_commit_def wp Let_def half committable_def log_lookup_def
        raft_get_entry_from_idx_def raft_get_commit_idx_def
        intro!: post_mono [OF raft_set_commit_idx_frame])
qed

text \<open>The leader's record of a peer after a successful response.\<close>

definition record_match :: "'u raft_server \<Rightarrow> nat \<Rightarrow> int \<Rightarrow> 'u raft_server" where
  "record_match s a k =
     upd_node (upd_node s a (\<lambda>n. raft_node_set_next_idx n (k + 1))) a
       (\<lambda>n. raft_node_set_match_idx n k)"

lemma record_match_reads [simp]:
  "same_voters s (record_match s a k)" "log_of (record_match s a k) = log_of s"
  "current_term (record_match s a k) = current_term s" "commit_idx (record_match s a k) = commit_idx s"
  by (auto simp: record_match_def same_voters_def)

definition commit_advanced :: "'u raft_server \<Rightarrow> 'u raft_server \<Rightarrow> bool" where
  "commit_advanced s s' \<longleftrightarrow>
     commit_idx s' = commit_idx s \<or>
     commit_idx s < commit_idx s' \<and> commit_idx s' \<le> raft_get_current_idx s \<and>
     current_term s' = current_term s \<and> committable s' (commit_idx s')"

lemma commit_advanced_send: "send_step t u \<Longrightarrow> commit_advanced s t \<Longrightarrow> commit_advanced s u"
proof -
  assume send: "send_step t u" and adv: "commit_advanced s t"
  have "same_voters t u" "log_of u = log_of t" "current_term u = current_term t"
    "commit_idx u = commit_idx t" "match_idx (nodes_mem u a) = match_idx (nodes_mem t a)" for a
    using send by (auto simp: send_step_def views same_voters_def)
  then show ?thesis using adv committable_cong [of t u] by (simp add: commit_advanced_def)
qed

lemma aer_commit_advanced:
  assumes "log_of t = log_of s" "commit_idx t = commit_idx s" "current_term t = current_term s"
  shows "post (aer_update_commit t k) (commit_advanced s)"
proof (rule post_mono [OF aer_update_commit_rule])
  fix s'
  assume r: "s' = t \<or> s' = t\<lparr>commit_idx := k\<rparr> \<and> commit_idx t < k \<and> k \<le> raft_get_current_idx t \<and>
    committable t k"
  have "committable (t\<lparr>commit_idx := k\<rparr>) k = committable t k"
    by (rule committable_cong) (simp_all add: same_voters_def views)
  with r show "commit_advanced s s'"
    using assms log_of_window [OF assms(1)] by (auto simp: commit_advanced_def)
qed

lemma aer_success_post:
  "post (aer_success ct s a k) Q \<longleftrightarrow>
     (k \<le> raft_get_current_idx s \<longrightarrow> in_int (k + 1) \<longrightarrow>
      post (aer_sufficient_logs (record_match s a k) a k) (\<lambda>s.
      post (aer_update_commit s k) (\<lambda>s.
      post (if raft_get_entry_from_idx s (raft_node_get_next_idx (nodes_mem s a)) \<noteq> None
            then bind (raft_send_appendentries ct s a) (\<lambda>(_, s). Ok (0, s))
            else Ok (0, s)) Q)))"
  by (simp add: aer_success_def wp Let_def record_match_def)

lemma aer_success_commit:
  "post (aer_success ct s a k) (\<lambda>(e, s'). commit_advanced s s' \<and>
     (commit_idx s' = commit_idx s \<or> commit_idx s' = k))"
  unfolding aer_success_post
proof (rule impI, rule impI, rule post_mono [OF aer_sufficient_logs_frame])
  fix t
  assume "handled (record_match s a k) t \<and> log_of t = log_of (record_match s a k) \<and>
     election_of t = election_of (record_match s a k) \<and>
     progress_of t = progress_of (record_match s a k) \<and> same_voters (record_match s a k) t \<and>
     me_state t = me_state (record_match s a k) \<and>
     (\<forall>b. raft_node_has_vote_for_me (nodes_mem t b) =
            raft_node_has_vote_for_me (nodes_mem (record_match s a k) b) \<and>
          match_idx (nodes_mem t b) = match_idx (nodes_mem (record_match s a k) b) \<and>
          next_idx (nodes_mem t b) = next_idx (nodes_mem (record_match s a k) b))"
  then have t: "log_of t = log_of s" "commit_idx t = commit_idx s" "current_term t = current_term s"
    by (simp_all add: progress_of_def election_of_def)
  have send: "post (raft_send_appendentries ct u a) (\<lambda>(e, s'). commit_advanced s s' \<and>
      (commit_idx s' = commit_idx s \<or> commit_idx s' = k))"
    if "commit_advanced s u \<and> (commit_idx u = commit_idx s \<or> commit_idx u = k)" for u
    by (rule post_mono [OF raft_send_appendentries_frame])
       (use that in \<open>auto dest: commit_advanced_send [of u] send_step_same(3) simp: views\<close>)
  have "post (aer_update_commit t k) (\<lambda>u. commit_advanced s u \<and>
      (commit_idx u = commit_idx s \<or> commit_idx u = k))"
    by (rule post_mono [OF post_conj [OF aer_commit_advanced [OF t] aer_update_commit_rule]])
       (auto simp: t)
  then show "post (aer_update_commit t k) (\<lambda>u. post
      (if raft_get_entry_from_idx u (raft_node_get_next_idx (nodes_mem u a)) \<noteq> None
       then bind (raft_send_appendentries ct u a) (\<lambda>(_, s). Ok (0, s)) else Ok (0, u))
      (\<lambda>(e, s'). commit_advanced s s' \<and> (commit_idx s' = commit_idx s \<or> commit_idx s' = k)))"
    by (rule post_mono) (auto simp: wp intro!: post_mono [OF send])
qed

lemma commit_same_advanced: "commit_idx s' = commit_idx s \<Longrightarrow> commit_advanced s s'"
  by (simp add: commit_advanced_def)

lemma raft_recv_appendentries_response_commit:
  "post (raft_recv_appendentries_response ct s node r) (\<lambda>(e, s').
     commit_advanced s s' \<and>
     (commit_idx s' \<noteq> commit_idx s \<longrightarrow>
        raft_is_leader s \<and> aer_term r = current_term s \<and> success r \<noteq> 0 \<and> node \<noteq> None \<and>
        commit_idx s' = aer_current_idx r))"
proof (cases "raft_is_leader s \<and> current_term s = aer_term r \<and> node \<noteq> None \<and> success r \<noteq> 0")
  case True
  then show ?thesis
    by (auto simp: raft_recv_appendentries_response_def wp Let_def commit_same_advanced
        intro!: post_mono [OF aer_success_commit])
next
  case False
  obtain e s1 where st: "raft_set_current_term s (aer_term r) = (e, s1)" by fastforce
  have c: "commit_idx s1 = commit_idx s" using raft_set_current_term_spec(3) [OF st] by (simp add: views)
  have follow: "post (raft_become_follower ct s1) (\<lambda>s'. commit_idx s' = commit_idx s)"
    by (rule post_mono [OF raft_become_follower_same]) (simp add: c views)
  have send: "post (raft_send_appendentries ct t a) (\<lambda>(e, s'). commit_idx s' = commit_idx s)"
    if "commit_idx t = commit_idx s" for t a
    by (rule post_mono [OF raft_send_appendentries_frame])
       (use that in \<open>auto dest: send_step_same(3) simp: views\<close>)
  have "post (raft_recv_appendentries_response ct s node r) (\<lambda>(e, s'). commit_idx s' = commit_idx s)"
    using False st c follow
    by (auto simp: raft_recv_appendentries_response_def wp Let_def split: option.split
        intro!: post_mono [OF send])
  then show ?thesis by (rule post_mono) (auto simp: commit_same_advanced)
qed

section \<open>Client entries\<close>

lemma push_loop_frame: "post (foreach (push_entry ct) xs s) (send_step s)"
  by (rule foreach_rel)
     (auto simp: push_entry_def wp intro!: post_mono [OF raft_send_appendentries_frame]
       intro: send_step_trans)

lemma lookup_range:
  assumes "log_wf s"
  shows "log_lookup s i \<noteq> None \<longleftrightarrow> dropped s < i \<and> i \<le> raft_get_current_idx s"
  by (simp add: log_lookup_wf [OF assms])

lemma appended_lookup:
  assumes "log_wf s" "appended s e s'"
  shows "log_lookup s' (raft_get_current_idx s + 1) = Some e"
    and "log_lookup s' i = Some x \<Longrightarrow> i \<noteq> raft_get_current_idx s + 1 \<Longrightarrow> log_lookup s i = Some x"
    and "dropped s \<le> dropped s'"
proof -
  let ?cur = "raft_get_current_idx s"
  let ?d = "if length (window s) = MAX_ENTRIES then 1 else 0 :: nat"
  have s': "log_wf s'" "window s' = room (window s) @ [e]" "raft_get_current_idx s' = ?cur + 1"
    using assms(2) by (simp_all add: appended_def)
  have len: "length (room (window s)) + ?d = length (window s)"
    by (auto simp: room_def MAX_ENTRIES_def)
  note cur = current_idx_window [OF assms(1)] current_idx_window [OF s'(1)]
  have drop': "dropped s' = dropped s + int ?d"
    using cur len s'(2,3) by (simp del: length_window)
  then show "dropped s \<le> dropped s'" by simp
  have last: "nat (?cur + 1 - dropped s' - 1) = length (room (window s))"
    using cur s'(2,3) by (simp del: length_window)
  show "log_lookup s' (?cur + 1) = Some e"
    using cur s' last by (simp add: log_lookup_wf [OF s'(1)] del: length_window)
  show "log_lookup s i = Some x" if "log_lookup s' i = Some x" "i \<noteq> ?cur + 1"
  proof -
    let ?k = "nat (i - dropped s' - 1)"
    have i: "dropped s' < i" "i \<le> ?cur" "x = window s' ! ?k"
      using that s'(3) by (auto simp: log_lookup_wf [OF s'(1)] split: if_splits)
    then have k: "?k < length (room (window s))" using last by simp
    then have "x = window s ! (?k + ?d)"
      using i(3) by (simp add: s'(2) nth_append room_nth)
    moreover have "?k + ?d = nat (i - dropped s - 1)" using i(1) drop' by (auto split: if_splits)
    ultimately show ?thesis
      using i(1,2) drop' by (simp add: log_lookup_wf [OF assms(1)] split: if_splits)
  qed
qed

lemma appended_last:
  assumes "log_wf s" "appended s e s'"
  shows "log_lookup s' (raft_get_current_idx s) = log_lookup s (raft_get_current_idx s)"
    and "drop (nat (raft_get_current_idx s - dropped s')) (window s') = [e]"
    and "dropped s' < raft_get_current_idx s + 1"
proof -
  let ?cur = "raft_get_current_idx s"
  have s': "log_wf s'" "window s' = room (window s) @ [e]" "raft_get_current_idx s' = ?cur + 1"
    using assms(2) by (simp_all add: appended_def)
  note cur = current_idx_window [OF assms(1)] current_idx_window [OF s'(1)]
  have len: "int (length (room (window s))) = ?cur - dropped s'"
    using cur(2) s'(2,3) by (simp del: length_window)
  then show "drop (nat (?cur - dropped s')) (window s') = [e]"
    by (simp add: s'(2) flip: len)
  show "dropped s' < ?cur + 1" using len by linarith
  show "log_lookup s' ?cur = log_lookup s ?cur"
  proof (cases "log_lookup s' ?cur")
    case None
    then have "\<not> dropped s' < ?cur" using lookup_range [OF s'(1), of ?cur] s'(3) by simp
    then have "length (room (window s)) = 0" using len by linarith
    then have "room (window s) = []" by simp
    then have "window s = []" by (cases "window s") (auto simp: room_def MAX_ENTRIES_def split: if_splits)
    then have "dropped s = ?cur" using cur(1) by (simp del: length_window window_Nil)
    with None show ?thesis using lookup_range [OF assms(1), of ?cur] by simp
  next
    case (Some x)
    with appended_lookup(2) [OF assms this] show ?thesis by simp
  qed
qed

text \<open>The peers that are told about a new entry at once, and what telling them does.\<close>

definition up_to_date :: "'u raft_server \<Rightarrow> nat \<Rightarrow> bool" where
  "up_to_date s a \<longleftrightarrow>
     is_peer s a \<and> raft_node_is_voting (nodes_mem s a) \<and> next_idx (nodes_mem s a) = raft_get_current_idx s"

lemma push_loop_run:
  assumes "contiki_ok ct" "log_wf s" "dropped s < raft_get_current_idx s" "snapshot_last_idx s = 0"
  shows "foreach (push_entry ct) xs s =
    Ok (s\<lparr>udata := fold (\<lambda>a u. hand_over s u (nodes_mem s a) (ae_for s a)) (filter (up_to_date s) xs) (udata s)\<rparr>)"
  using assms(2-)
proof (induction xs arbitrary: s)
  case (Cons x xs)
  show ?case
  proof (cases "up_to_date s x")
    case False
    then have "push_entry ct x s = Ok s"
      by (auto simp: push_entry_def up_to_date_def is_peer_def node_get_defs)
    with False Cons show ?thesis by simp
  next
    case True
    let ?s = "s\<lparr>udata := hand_over s (udata s) (nodes_mem s x) (ae_for s x)\<rparr>"
    have lg: "log_of ?s = log_of s" by (simp add: views)
    note same = log_of_window [OF lg]
    have ae: "ae_for ?s = ae_for s" "is_peer ?s = is_peer s"
      by (rule ae_for_cong; simp add: views)+
    have keep: "hand_over ?s = hand_over s" "up_to_date ?s = up_to_date s"
      using same ae(2) by (simp_all add: fun_eq_iff hand_over_def up_to_date_def)
    have "\<exists>e. raft_send_appendentries ct s x = Ok (e, ?s)"
      using True Cons.prems
      by (intro raft_send_appendentries_hands_over [OF assms(1)]) (auto simp: up_to_date_def is_peer_def)
    then have "push_entry ct x s = Ok ?s"
      using True by (auto simp: push_entry_def up_to_date_def is_peer_def node_get_defs)
    moreover have "log_wf ?s" "dropped ?s < raft_get_current_idx ?s"
      using same Cons.prems(1,2) by auto
    then have "foreach (push_entry ct) xs ?s = Ok (?s\<lparr>udata :=
        fold (\<lambda>a u. hand_over ?s u (nodes_mem ?s a) (ae_for ?s a)) (filter (up_to_date ?s) xs) (udata ?s)\<rparr>)"
      using Cons.prems(3) by (intro Cons.IH) simp_all
    ultimately show ?thesis using True by (simp add: keep ae)
  qed
qed simp

lemma raft_recv_entry_frame:
  "post (raft_recv_entry ct s ety r) (\<lambda>(e, ety', r', s'). handled s s')"
proof -
  have app: "post (raft_append_entry ct s x) (\<lambda>(c, e', s'). handled s s')" for x
    by (rule post_mono [OF raft_append_entry_frame]) (auto intro: append_handled)
  have push: "post (foreach (push_entry ct) xs t) (handled s)" if "handled s t" for xs t
    by (rule post_mono [OF push_loop_frame]) (auto intro: handled_trans [OF that] send_handled)
  have commit: "post (raft_set_commit_idx t k) (handled s)" if "handled s t" for t k
    by (rule post_mono [OF raft_set_commit_idx_frame])
       (auto intro: handled_trans [OF that] commit_handled)
  have cfg: "handled s (t\<lparr>voting_cfg_change_log_idx := k\<rparr>)" if "handled s t" for t k
    using that by (simp add: handled_defs views)
  show ?thesis
    unfolding raft_recv_entry_def
    by (auto simp: wp Let_def case_prod_beta cfg intro!: post_mono [OF app] post_mono [OF push]
        post_mono [OF commit])
qed

text \<open>
  What the offer callback makes of the user's data when a plain entry is appended.
\<close>

definition offered :: "'u raft_server \<Rightarrow> raft_entry \<Rightarrow> int \<Rightarrow> 'u" where
  "offered s e i =
     (case cb_log_offer (me_cb s) of
        Some f \<Rightarrow> if log_cb (me_log s) then snd (f (udata s) e i) else udata s
      | None \<Rightarrow> udata s)"

lemma raft_append_entry_offers:
  assumes "contiki_ok ct" "log_wf s" "\<not> raft_entry_is_cfg_change e"
  shows "post (raft_append_entry ct s e) (\<lambda>(c, e', s'). members_of s' = members_of s \<and>
    (c = 0 \<longrightarrow> udata s' = offered s e' (raft_get_current_idx s + 1)))"
proof -
  have vote: "\<not> raft_entry_is_voting_cfg_change e"
    using assms(3) by (auto simp: raft_entry_is_cfg_change_def raft_entry_is_voting_cfg_change_def)
  have plain: "raft_offer_log ct t (e\<lparr>ety_idx := i\<rparr>) j = Ok t" for t :: "'a raft_server" and i j
    using assms(3) by (simp add: raft_offer_log_def raft_entry_is_cfg_change_def)
  let ?xs = "entries_list (me_log s)"
  obtain b where b: "ct_memb_alloc ct MAX_ENTRIES (set (room ?xs)) = (Some b, insert b (set (room ?xs)))"
    using assms(1) log_wf_pool [OF assms(2)] by (rule append_block)
  note range = current_idx_range [OF assms(2)]
  have udata: "post (log_append_entry ct s e) (\<lambda>(c, e', s').
      c = 0 \<longrightarrow> udata s' = offered s e' (raft_get_current_idx s + 1))"
    unfolding log_append_entry_def
    by (auto simp: wp Let_def log_make_room_wf [OF assms(1) log_wf_pool [OF assms(2)]] b range plain
        offered_def case_prod_beta split: option.split)
  show ?thesis
    using vote post_mono [OF post_conj [OF log_append_entry_members [OF assms(3)] udata]]
    by (simp add: raft_append_entry_def case_prod_beta')
qed

text \<open>
  C14: A leader with a log short of the largest index, no snapshot and an offer callback that accepts
  takes a client's plain entry.  The run does not fault.  The entry gets the leader's term and the next
  index, is offered to the user and appended; the answer names it; the commit index moves only when there is a
  single voting node.  Every other active voting node that lacks just this entry is sent exactly one
  message, in list order, with the entry, the index and term of the one before it, and the leader's term
  and commit index; no other node is sent anything.
\<close>

theorem raft_recv_entry_spec:
  assumes "contiki_ok ct" "log_wf s" "raft_is_leader s" "\<not> raft_entry_is_cfg_change ety"
    and "offer_ok (me_cb s)" "raft_get_current_idx s < INT_MAX" "snapshot_last_idx s = 0"
    and "commit_idx s \<le> raft_get_current_idx s"
  defines "n \<equiv> raft_get_current_idx s + 1"
  defines "ety' \<equiv> ety\<lparr>ety_term := to_unsigned (current_term s), ety_idx := to_unsigned n\<rparr>"
  shows "\<exists>s'. raft_recv_entry ct s ety r =
      Ok (0, ety', \<lparr>er_id = ety_id ety, er_term = current_term s, er_idx = n\<rparr>, s') \<and>
    appended s ety' s' \<and> election_of s' = election_of s \<and> members_of s' = members_of s \<and>
    commit_idx s' = (if raft_get_num_voting_nodes s = 1 then n else commit_idx s) \<and>
    udata s' =
      fold (\<lambda>a u. hand_over s u (nodes_mem s a) ((greeting s)\<lparr>n_entries := 1, entries := [ety']\<rparr>))
        (filter (\<lambda>a. is_peer s a \<and> raft_node_is_voting (nodes_mem s a) \<and> next_idx (nodes_mem s a) = n)
           (nodes_list s))
        (offered s ety' n)"
proof -
  let ?ety = "ety\<lparr>ety_term := to_unsigned (current_term s)\<rparr>"
  have cfg: "\<not> raft_entry_is_cfg_change ?ety" "\<not> raft_entry_is_voting_cfg_change ety"
    "\<not> raft_entry_is_voting_cfg_change ety'"
    using assms(4) by (auto simp: ety'_def raft_entry_is_cfg_change_def raft_entry_is_voting_cfg_change_def)
  from raft_append_entry_runs [OF assms(1,2,5) cfg(1) assms(6)] obtain e1 s1
    where ap: "raft_append_entry ct s ?ety = Ok (0, e1, s1)" by (auto simp: runs_def)
  from postD [OF raft_append_entry_post [OF assms(1,2)] ap]
  have e1: "e1 = ety'" and apd: "appended s ety' s1" by (auto simp: n_def ety'_def)
  from postD [OF raft_append_entry_offers [OF assms(1,2) cfg(1)] ap] e1
  have mem: "members_of s1 = members_of s" and off: "udata s1 = offered s ety' n" by (auto simp: n_def)
  have frame: "append_step s s1" using postD [OF raft_append_entry_frame ap] by simp
  have s1: "log_wf s1" "raft_get_current_idx s1 = n" "snapshot_last_idx s1 = 0"
    "commit_idx s1 = commit_idx s" "election_of s1 = election_of s"
    "current_term s1 = current_term s" "me_cb s1 = me_cb s" "snapshot_last_term s1 = snapshot_last_term s"
    "nodes_mem s1 = nodes_mem s" "nodes_list s1 = nodes_list s" "me_node s1 = me_node s"
    using apd frame mem assms(7) by (auto simp: appended_def append_step_def views n_def)
  note last = appended_last [OF assms(2) apd]
  have ae: "ae_for s1 a = (greeting s)\<lparr>n_entries := 1, entries := [ety']\<rparr>" if "next_idx (nodes_mem s a) = n" for a
    using that last(1,2) current_idx_range(1) [OF assms(2)]
    by (simp add: ae_for_def greeting_def s1 n_def Let_def cong: option.case_cong)
  have due: "up_to_date s1 = (\<lambda>a. is_peer s a \<and> raft_node_is_voting (nodes_mem s a) \<and> next_idx (nodes_mem s a) = n)"
    by (simp add: fun_eq_iff up_to_date_def is_peer_def s1)
  let ?u = "fold (\<lambda>a u. hand_over s u (nodes_mem s a) ((greeting s)\<lparr>n_entries := 1, entries := [ety']\<rparr>))
      (filter (up_to_date s1) (nodes_list s)) (udata s1)"
  have "fold (\<lambda>a u. hand_over s1 u (nodes_mem s1 a) (ae_for s1 a)) (filter (up_to_date s1) (nodes_list s)) (udata s1) = ?u"
    by (rule fold_cong) (simp_all add: due ae s1 hand_over_def)
  with push_loop_run [OF assms(1) s1(1) _ s1(3), of "nodes_list s1"] last(3)
  have push: "foreach (push_entry ct) (nodes_list s1) s1 = Ok (s1\<lparr>udata := ?u\<rparr>)"
    by (simp add: s1 n_def)
  let ?s' = "(if raft_get_num_voting_nodes s = 1 then s1\<lparr>commit_idx := n\<rparr> else s1)\<lparr>udata := ?u\<rparr>"
  have lg: "log_of ?s' = log_of s1" "log_of (s1\<lparr>udata := ?u\<rparr>) = log_of s1" by (simp_all add: views)
  have voting: "raft_get_num_voting_nodes (s1\<lparr>udata := ?u\<rparr>) = raft_get_num_voting_nodes s"
    by (simp add: raft_get_num_voting_nodes_def s1)
  have idx: "raft_get_current_idx ?s' = n" "raft_get_current_idx (s1\<lparr>udata := ?u\<rparr>) = n"
    using log_of_window [OF lg(1)] log_of_window [OF lg(2)] s1(2) by simp_all
  have set_commit: "raft_set_commit_idx (s1\<lparr>udata := ?u\<rparr>) n = Ok (s1\<lparr>udata := ?u, commit_idx := n\<rparr>)"
    using idx(2) s1(4) assms(8) by (simp add: raft_set_commit_idx_def n_def c_assert_def)
  have "raft_recv_entry ct s ety r =
      Ok (0, ety', \<lparr>er_id = ety_id ety, er_term = current_term s, er_idx = n\<rparr>, ?s')"
    using assms(3) cfg ap push idx set_commit
    by (simp add: raft_recv_entry_def e1 voting s1 Let_def) (auto simp: ety'_def s1)
  moreover have "appended s ety' ?s'"
    using apd log_of_window [OF lg(1)] by (simp add: appended_def)
  moreover have "election_of ?s' = election_of s" "members_of ?s' = members_of s"
    "commit_idx ?s' = (if raft_get_num_voting_nodes s = 1 then n else commit_idx s)" "udata ?s' = ?u"
    using s1 mem by (simp_all add: views)
  ultimately show ?thesis unfolding off due by blast
qed

section \<open>A consistent appendentries message\<close>

text \<open>
  A message whose entries continue this server's log: as many entries as it says, none of which
  changes the configuration, the entry before them is in the log with the right term, and those that
  the log already has, \<open>overlap\<close> many, have the same terms.
\<close>

definition overlap :: "'u raft_server \<Rightarrow> msg_appendentries \<Rightarrow> nat" where
  "overlap s ae = min (length (entries ae)) (nat (raft_get_current_idx s - prev_log_idx ae))"

definition ae_prev_ok :: "'u raft_server \<Rightarrow> msg_appendentries \<Rightarrow> bool" where
  "ae_prev_ok s ae \<longleftrightarrow>
     (prev_log_idx ae = 0 \<and> dropped s = 0 \<or>
      0 < prev_log_idx ae \<and>
      (\<exists>p. log_lookup s (prev_log_idx ae) = Some p \<and> ety_term p = to_unsigned (prev_log_term ae)))"

definition ae_consistent :: "'u raft_server \<Rightarrow> msg_appendentries \<Rightarrow> bool" where
  "ae_consistent s ae \<longleftrightarrow>
     n_entries ae = int (length (entries ae)) \<and>
     (\<forall>e \<in> set (entries ae). \<not> raft_entry_is_cfg_change e) \<and>
     prev_log_idx ae + n_entries ae < INT_MAX \<and> ae_prev_ok s ae \<and>
     (\<forall>k < overlap s ae. \<exists>x. log_lookup s (prev_log_idx ae + 1 + int k) = Some x \<and>
        ety_term x = ety_term (entries ae ! k))"

lemma ae_prev_range:
  assumes "log_wf s" "ae_prev_ok s ae"
  shows "0 \<le> prev_log_idx ae" "prev_log_idx ae \<le> raft_get_current_idx s" "dropped s \<le> prev_log_idx ae"
  using assms current_idx_range [OF assms(1)]
  by (auto simp: ae_prev_ok_def log_lookup_wf [OF assms(1)] split: if_splits)

lemma next_chain [simp]: "raft_get_next_log_entry (drop i xs) = drop (Suc i) xs"
  by (cases "drop i xs")
     (auto simp: raft_get_next_log_entry_def log_get_next_entry_def drop_Suc tl_drop [symmetric])

text \<open>The first loop walks over the entries the log already has and deletes nothing.\<close>

lemma ae_scan_consistent:
  assumes "log_wf s" "ae_consistent s ae" "i \<le> overlap s ae"
  shows "ae_scan ct ae (int i) (drop i (entries ae)) (prev_log_idx ae + int i) s =
    Ok (Go_On (int (overlap s ae)) (drop (overlap s ae) (entries ae)),
        prev_log_idx ae + int (overlap s ae), s)"
  using assms(3)
proof (induction "overlap s ae - i" arbitrary: i)
  let ?m = "overlap s ae"
  have prev: "0 \<le> prev_log_idx ae" "prev_log_idx ae \<le> raft_get_current_idx s"
    using ae_prev_range [OF assms(1)] assms(2) by (auto simp: ae_consistent_def)
  have range: "in_int (prev_log_idx ae + 1)" "in_int (prev_log_idx ae + 1 + int i)"
    if "i \<le> length (entries ae)" for i
    using that prev assms(2) by (auto simp: ae_consistent_def in_int_iff INT_MAX_def)
  {
    case 0
    then have i: "i = ?m" by simp
    show ?case
    proof (cases "?m < length (entries ae)")
      case True
      then have "raft_get_current_idx s < prev_log_idx ae + 1 + int ?m" by (simp add: overlap_def)
      then have "raft_get_entry_from_idx s (prev_log_idx ae + 1 + int ?m) = None"
        by (simp add: raft_get_entry_from_idx_def log_get_at_idx_wf [OF assms(1)])
      with True i range [of ?m] show ?thesis
        by (subst ae_scan.simps) (simp add: c_int_in_int)
    next
      case False
      with i assms(2) show ?thesis
        by (subst ae_scan.simps) (simp add: ae_consistent_def overlap_def)
    qed
  next
    case (Suc d)
    then have i: "i < ?m" by simp
    then have len: "i < length (entries ae)" by (simp add: overlap_def)
    from i assms(2) obtain x where "log_lookup s (prev_log_idx ae + 1 + int i) = Some x"
      "ety_term x = ety_term (entries ae ! i)"
      by (auto simp: ae_consistent_def)
    then obtain a where "raft_get_entry_from_idx s (prev_log_idx ae + 1 + int i) = Some a"
      "ety_term (entries_mem s a) = ety_term (entries ae ! i)"
      by (auto simp: log_lookup_def raft_get_entry_from_idx_def)
    moreover have "drop i (entries ae) = entries ae ! i # drop (Suc i) (entries ae)"
      using len by (simp add: Cons_nth_drop_Suc)
    moreover have "ae_scan ct ae (int (Suc i)) (drop (Suc i) (entries ae))
        (prev_log_idx ae + int (Suc i)) s =
      Ok (Go_On (int ?m) (drop ?m (entries ae)), prev_log_idx ae + int ?m, s)"
      using Suc i by (intro Suc.hyps) auto
    ultimately show ?case
      using len range [of i] assms(2) next_chain [of i "entries ae"]
      by (subst ae_scan.simps) (simp add: c_int_in_int ae_consistent_def add.commute add.left_commute)
  }
qed

text \<open>The second loop appends the rest.\<close>

lemma ae_append_consistent:
  assumes "n_entries ae = int (length (entries ae))"
    and "\<forall>e \<in> set (entries ae). \<not> raft_entry_is_cfg_change e"
    and "0 \<le> prev_log_idx ae" "prev_log_idx ae + n_entries ae < INT_MAX"
    and "i \<le> length (entries ae)" "append_all ct s (drop i (entries ae)) = Ok (0, s')"
  shows "ae_append ct ae (int i) (drop i (entries ae)) (prev_log_idx ae + int i) s =
    Ok (Go_On (n_entries ae) [], prev_log_idx ae + n_entries ae, s')"
  using assms(5,6)
proof (induction "length (entries ae) - i" arbitrary: i s)
  case 0
  then show ?case by (subst ae_append.simps) (simp add: assms(1))
next
  case (Suc d)
  let ?x = "entries ae ! i"
  have i: "i < length (entries ae)" using Suc by simp
  have drop: "drop i (entries ae) = ?x # drop (Suc i) (entries ae)"
    using i by (simp add: Cons_nth_drop_Suc)
  have "\<not> raft_entry_is_cfg_change ?x" using i assms(2) by simp
  then have ap: "raft_append_entry ct s ?x = log_append_entry ct s ?x"
    by (auto simp: raft_append_entry_def raft_entry_is_cfg_change_def
        raft_entry_is_voting_cfg_change_def)
  from Suc.prems(2) obtain e1 s1 where s1: "log_append_entry ct s ?x = Ok (0, e1, s1)"
    "append_all ct s1 (drop (Suc i) (entries ae)) = Ok (0, s')"
    by (auto simp: drop split: if_splits)
  then have "ae_append ct ae (int (Suc i)) (drop (Suc i) (entries ae))
      (prev_log_idx ae + int (Suc i)) s1 =
    Ok (Go_On (n_entries ae) [], prev_log_idx ae + n_entries ae, s')"
    using Suc i by (intro Suc.hyps) auto
  moreover have "in_int (prev_log_idx ae + 1)" "in_int (prev_log_idx ae + 1 + int i)"
    using i assms(1,3,4) by (auto simp: in_int_iff INT_MAX_def)
  ultimately show ?case
    using i ap s1(1) drop assms(1) next_chain [of i "entries ae"]
    by (subst ae_append.simps) (simp add: c_int_in_int add.commute add.left_commute)
qed

lemma ae_commit_run:
  assumes "commit_idx s \<le> raft_get_current_idx s"
    and "0 < raft_get_current_idx s \<or> leader_commit ae \<le> commit_idx s"
  shows "ae_commit s ae = Ok (s\<lparr>commit_idx :=
    max (commit_idx s) (min (leader_commit ae) (raft_get_current_idx s))\<rparr>)"
  using assms
  by (auto simp: ae_commit_def raft_set_commit_idx_def raft_get_commit_idx_def Let_def c_assert_def
      min_def max_def)

text \<open>Steps 3 and 4 of the handler, when the first loop deletes nothing and stops at entry \<open>m\<close>.\<close>

lemma ae_entries_appends:
  assumes "contiki_ok ct" "log_wf s" "offer_ok (me_cb s)"
    and ae: "n_entries ae = int (length (entries ae))" "\<forall>e \<in> set (entries ae). \<not> raft_entry_is_cfg_change e"
      "0 \<le> prev_log_idx ae" "prev_log_idx ae + n_entries ae < INT_MAX"
    and m: "m \<le> length (entries ae)"
    and scan: "ae_scan ct ae 0 (entries ae) (prev_log_idx ae) s =
      Ok (Go_On (int m) (drop m (entries ae)), prev_log_idx ae + int m, s)"
    and room: "raft_get_current_idx s + int (length (drop m (entries ae))) \<le> INT_MAX"
    and commit: "commit_idx s \<le> raft_get_current_idx s"
      "0 < raft_get_current_idx s + int (length (drop m (entries ae))) \<or> leader_commit ae \<le> commit_idx s"
  shows "\<exists>r s'. ae_entries ct s ae = Ok (0, r, s') \<and>
    r = \<lparr>aer_term = current_term s, success = 1,
         aer_current_idx = prev_log_idx ae + n_entries ae, first_idx = prev_log_idx ae + 1\<rparr> \<and>
    log_wf s' \<and>
    raft_get_current_idx s' = raft_get_current_idx s + int (length (drop m (entries ae))) \<and>
    window s' = most_recent (window s @ numbered (raft_get_current_idx s + 1) (drop m (entries ae))) \<and>
    commit_idx s' = max (commit_idx s) (min (leader_commit ae) (raft_get_current_idx s')) \<and>
    append_step s (s'\<lparr>commit_idx := commit_idx s\<rparr>)"
proof -
  let ?es = "drop m (entries ae)"
  have "\<forall>e \<in> set ?es. \<not> raft_entry_is_cfg_change e" using ae(2) by (meson in_set_dropD)
  then obtain s1 where ap: "append_all ct s ?es = Ok (0, s1)"
    and s1: "log_wf s1" "raft_get_current_idx s1 = raft_get_current_idx s + int (length ?es)"
      "window s1 = most_recent (window s @ numbered (raft_get_current_idx s + 1) ?es)"
    using append_all_spec [OF assms(1-3), of ?es] room by (auto simp: runs_def)
  have app: "ae_append ct ae (int m) ?es (prev_log_idx ae + int m) s =
      Ok (Go_On (n_entries ae) [], prev_log_idx ae + n_entries ae, s1)"
    by (rule ae_append_consistent [OF ae m ap])
  have keep: "post (raft_append_entry ct t x) (\<lambda>(c, e', s'). append_step s s')"
    if "append_step s t" for t x
    by (rule post_mono [OF raft_append_entry_frame]) (auto intro: append_step_trans [OF that])
  have step: "append_step s s1"
    using postD [OF ae_append_rule [of "append_step s", OF append_step_refl keep] app] by simp
  then have s1': "commit_idx s1 = commit_idx s" "current_term s1 = current_term s"
    by (simp_all add: append_step_def views)
  let ?s' = "s1\<lparr>commit_idx := max (commit_idx s) (min (leader_commit ae) (raft_get_current_idx s1))\<rparr>"
  have "log_of ?s' = log_of s1" by (simp add: views)
  note same = log_of_window [OF this]
  have "ae_commit s1 ae = Ok ?s'"
    using ae_commit_run [of s1 ae] s1' s1(2) commit by auto
  moreover have "in_int (prev_log_idx ae + 1)"
    using ae(1,3,4) by (simp add: in_int_iff INT_MAX_def)
  ultimately have "ae_entries ct s ae = Ok (0, \<lparr>aer_term = current_term s, success = 1,
         aer_current_idx = prev_log_idx ae + n_entries ae, first_idx = prev_log_idx ae + 1\<rparr>, ?s')"
    using scan app s1'(2) by (simp add: ae_entries_def ae_out_def c_int_in_int)
  moreover have "append_step s (?s'\<lparr>commit_idx := commit_idx s\<rparr>)"
    using step s1'(1) by (simp add: append_step_def views)
  ultimately show ?thesis
    using same s1 by (intro exI [of _ ?s'] exI) simp
qed

text \<open>Steps 3 and 4 of the handler on a consistent message.\<close>

lemma ae_entries_consistent:
  assumes "contiki_ok ct" "log_wf s" "offer_ok (me_cb s)" "ae_consistent s ae"
    and "commit_idx s \<le> raft_get_current_idx s"
    and "0 < prev_log_idx ae + n_entries ae \<or> leader_commit ae \<le> commit_idx s"
  shows "\<exists>r s'. ae_entries ct s ae = Ok (0, r, s') \<and>
    r = \<lparr>aer_term = current_term s, success = 1,
         aer_current_idx = prev_log_idx ae + n_entries ae, first_idx = prev_log_idx ae + 1\<rparr> \<and>
    log_wf s' \<and>
    raft_get_current_idx s' = max (raft_get_current_idx s) (prev_log_idx ae + n_entries ae) \<and>
    window s' = most_recent (window s @
      numbered (raft_get_current_idx s + 1) (drop (overlap s ae) (entries ae))) \<and>
    commit_idx s' = max (commit_idx s) (min (leader_commit ae) (raft_get_current_idx s')) \<and>
    append_step s (s'\<lparr>commit_idx := commit_idx s\<rparr>)"
proof -
  let ?m = "overlap s ae" and ?cur = "raft_get_current_idx s"
  have con: "n_entries ae = int (length (entries ae))" "ae_prev_ok s ae"
    "\<forall>e \<in> set (entries ae). \<not> raft_entry_is_cfg_change e" "prev_log_idx ae + n_entries ae < INT_MAX"
    using assms(4) by (auto simp: ae_consistent_def)
  note prev = ae_prev_range [OF assms(2) con(2)] and range = current_idx_range [OF assms(2)]
  have m: "?m \<le> length (entries ae)" by (simp add: overlap_def)
  have cur: "?cur + int (length (drop ?m (entries ae))) = max ?cur (prev_log_idx ae + n_entries ae)"
    using prev(1,2) con(1) by (auto simp: overlap_def min_def)
  have scan: "ae_scan ct ae 0 (entries ae) (prev_log_idx ae) s =
      Ok (Go_On (int ?m) (drop ?m (entries ae)), prev_log_idx ae + int ?m, s)"
    using ae_scan_consistent [OF assms(2,4), of 0 ct] by simp
  have "?cur + int (length (drop ?m (entries ae))) \<le> INT_MAX"
    using cur con(4) range(2) by (auto simp: in_int_def)
  from ae_entries_appends [OF assms(1-3) con(1,3) prev(1) con(4) m scan this assms(5)] assms(6)
  show ?thesis unfolding cur by (simp add: less_max_iff_disj)
qed

text \<open>
  C9: A consistent appendentries message of the current term.  The handler does not fault and replies
  success with the index of the message's last entry.  The log stays well-formed and holds the most
  recent of its old entries followed by the entries it did not have yet, numbered from its last index
  on; entries it already had are neither duplicated nor changed.  The commit index becomes the smaller
  of the leader's and the last index when that is larger than before.  The sender is recorded as the
  leader and the election timer restarts; term and vote stay.
\<close>

theorem raft_recv_appendentries_consistent:
  assumes "contiki_ok ct" "log_wf s" "offer_ok (me_cb s)" "ae_consistent s ae"
    and "ae_term ae = current_term s" "\<not> raft_is_candidate s"
    and "commit_idx s \<le> raft_get_current_idx s"
    and "0 < prev_log_idx ae + n_entries ae \<or> leader_commit ae \<le> commit_idx s"
  shows "\<exists>r s'. raft_recv_appendentries ct s node ae = Ok (0, r, s') \<and>
    r = \<lparr>aer_term = current_term s, success = 1,
         aer_current_idx = prev_log_idx ae + n_entries ae, first_idx = prev_log_idx ae + 1\<rparr> \<and>
    log_wf s' \<and>
    raft_get_current_idx s' = max (raft_get_current_idx s) (prev_log_idx ae + n_entries ae) \<and>
    window s' = most_recent (window s @
      numbered (raft_get_current_idx s + 1) (drop (overlap s ae) (entries ae))) \<and>
    commit_idx s' = max (commit_idx s) (min (leader_commit ae) (raft_get_current_idx s')) \<and>
    current_leader s' = node \<and> timeout_elapsed s' = 0 \<and> election_of s' = election_of s"
proof -
  let ?s = "s\<lparr>current_leader := node, timeout_elapsed := 0\<rparr>"
  have "log_of ?s = log_of s" by (simp add: views)
  note same = log_of_window [OF this]
  have con: "ae_consistent ?s ae" "overlap ?s ae = overlap s ae"
    using assms(4) same by (simp_all add: ae_consistent_def ae_prev_ok_def overlap_def)
  have wf: "log_wf ?s" using same assms(2) by blast
  have pre: "offer_ok (me_cb ?s)" "commit_idx ?s \<le> raft_get_current_idx ?s"
    "0 < prev_log_idx ae + n_entries ae \<or> leader_commit ae \<le> commit_idx ?s"
    using assms(3,7,8) same by simp_all
  obtain r s' where r: "ae_entries ct ?s ae = Ok (0, r, s')"
    "r = \<lparr>aer_term = current_term ?s, success = 1,
         aer_current_idx = prev_log_idx ae + n_entries ae, first_idx = prev_log_idx ae + 1\<rparr>"
    "log_wf s'"
    "raft_get_current_idx s' = max (raft_get_current_idx ?s) (prev_log_idx ae + n_entries ae)"
    "window s' = most_recent (window ?s @
      numbered (raft_get_current_idx ?s + 1) (drop (overlap ?s ae) (entries ae)))"
    "commit_idx s' = max (commit_idx ?s) (min (leader_commit ae) (raft_get_current_idx s'))"
    "append_step ?s (s'\<lparr>commit_idx := commit_idx ?s\<rparr>)"
    using ae_entries_consistent [OF assms(1) wf pre(1) con(1) pre(2,3)] by blast
  have "ae_prev_ok s ae" using assms(4) by (simp add: ae_consistent_def)
  then have "ae_check ct s node ae = ae_entries ct ?s ae"
    using same
    by (auto simp: ae_check_def Let_def ae_prev_ok_def log_lookup_def raft_get_entry_from_idx_def)
  then have "raft_recv_appendentries ct s node ae = Ok (0, r, s')"
    using assms(5,6) r(1) by (simp add: raft_recv_appendentries_def)
  with r same con(2) show ?thesis
    by (intro exI [of _ r] exI [of _ s']) (simp add: append_step_def views)
qed

text \<open>
  The sample server receives entry 2 again, followed by a new entry, and learns that both are
  committed.
\<close>

definition sample_ae :: msg_appendentries where
  "sample_ae =
     \<lparr>ae_term = 1, prev_log_idx = 1, prev_log_term = 1, leader_commit = 3, n_entries = 2,
      entries = [sample_entry 1 2, sample_entry 1 3]\<rparr>"

lemma sample_ae_consistent: "ae_consistent sample_server sample_ae" "overlap sample_server sample_ae = 1"
  by (auto simp: ae_consistent_def sample_ae_def ae_prev_ok_def overlap_def log_lookup_wf INT_MAX_def
      raft_entry_is_cfg_change_def to_unsigned_def)

theorem raft_recv_appendentries_consistent_witness:
  "\<exists>r s'. raft_recv_appendentries ref_contiki sample_server (Some 1) sample_ae = Ok (0, r, s') \<and>
     success r = 1 \<and> aer_current_idx r = 3 \<and> commit_idx s' = 3 \<and>
     window s' = most_recent [sample_entry 1 1, sample_entry 1 2,
                              (sample_entry 1 3)\<lparr>ety_idx := to_unsigned 3\<rparr>]"
proof -
  have "offer_ok (me_cb sample_server)" "\<not> raft_is_candidate sample_server"
    by (simp_all add: offer_ok_def raft_is_candidate_def raft_get_state_def)
  from raft_recv_appendentries_consistent [OF ref_contiki_ok sample_log_wf this(1)
      sample_ae_consistent(1) _ this(2), of "Some 1"]
  show ?thesis
    unfolding sample_ae_consistent(2) by (auto simp: sample_ae_def)
qed

text \<open>
  A message that is not outdated reaches the check of the previous entry, with the server in the
  message's term and, if it was a candidate or in an older term, a follower.
\<close>

lemma appendentries_reaches_check:
  assumes "current_term s \<le> ae_term ae" "persist_ok (me_cb s)" "election_timeout s \<noteq> 0"
  obtains t where "raft_recv_appendentries ct s node ae = ae_check ct t node ae"
    "log_of t = log_of s" "progress_of t = progress_of s" "members_of t = members_of s"
    "current_term t = ae_term ae" "voted_for t = (if current_term s < ae_term ae then -1 else voted_for s)"
    "me_state t = (if raft_is_candidate s \<or> current_term s < ae_term ae then RAFT_STATE_FOLLOWER else me_state s)"
    "udata t = (if current_term s < ae_term ae then store_term (me_cb s) (udata s) (ae_term ae) else udata s)"
proof -
  define u where "u = (if current_term s < ae_term ae
    then s\<lparr>udata := store_term (me_cb s) (udata s) (ae_term ae), current_term := ae_term ae, voted_for := -1\<rparr>
    else s)"
  have "election_timeout u \<noteq> 0" using assms(3) by (simp add: u_def)
  then obtain t where t: "raft_become_follower ct u = Ok t"
    using raft_become_follower_runs [of u ct] by (auto simp: runs_def)
  note same = postD [OF raft_become_follower_same t]
  show thesis
  proof (cases "raft_is_candidate s \<or> current_term s < ae_term ae")
    case True
    then have "raft_recv_appendentries ct s node ae = ae_check ct t node ae"
      using assms(1) t raft_set_current_term_ok [OF assms(2), of "ae_term ae"]
      by (auto simp: raft_recv_appendentries_def u_def split: if_splits)
    with True same assms(1) show thesis by (intro that [of t]) (auto simp: u_def views)
  next
    case False
    with assms(1) show thesis by (intro that [of s]) (simp_all add: raft_recv_appendentries_def)
  qed
qed

lemma ae_check_unknown:
  assumes "0 < prev_log_idx ae" "log_lookup s (prev_log_idx ae) = None" "in_int (prev_log_idx ae + 1)"
  shows "ae_check ct s node ae =
    Ok (0, \<lparr>aer_term = current_term s, success = 0, aer_current_idx = raft_get_current_idx s,
            first_idx = prev_log_idx ae + 1\<rparr>, s\<lparr>current_leader := node, timeout_elapsed := 0\<rparr>)"
proof -
  let ?s = "s\<lparr>current_leader := node, timeout_elapsed := 0\<rparr>"
  have "log_of ?s = log_of s" by (simp add: views)
  note same = log_of_window [OF this]
  then show ?thesis
    using assms by (simp add: ae_check_def ae_out_def c_int_in_int raft_get_entry_from_idx_def log_lookup_def Let_def)
qed

lemma ae_check_conflict:
  assumes "0 < prev_log_idx ae" "log_lookup s (prev_log_idx ae) = Some x"
    and "ety_term x \<noteq> to_unsigned (prev_log_term ae)"
  shows "post (ae_check ct s node ae) (\<lambda>(e, r, s'). success r = 0 \<and> progress_of s' = progress_of s)"
proof -
  let ?s = "s\<lparr>current_leader := node, timeout_elapsed := 0\<rparr>"
  have "log_of ?s = log_of s" by (simp add: views)
  then have "log_lookup ?s (prev_log_idx ae) = Some x" using log_of_window assms(2) by metis
  then obtain a where "raft_get_entry_from_idx ?s (prev_log_idx ae) = Some a" "entries_mem ?s a = x"
    by (auto simp: log_lookup_def raft_get_entry_from_idx_def)
  with assms(1,3) show ?thesis
    by (auto simp: ae_check_def Let_def wp ae_out_def append_step_def views
        intro!: post_mono [OF raft_delete_entry_frame])
qed

text \<open>
  C15: Messages that are refused.  One of an older term changes nothing and is answered with the
  server's term.  With storage that works, one of the server's term or of a newer one whose previous
  entry the log does not have, at a follower, a candidate or a leader, is answered in the message's term and
  changes neither log, nor commit index, nor members: the server is in the message's term, has no
  vote in it if it is new, is a follower if it was a candidate or the term is new, and has heard from
  its leader.  If the log has an entry of another term there, an answer is negative as well and the
  commit index stays; the handler deletes an entry in this case.
\<close>

theorem raft_recv_appendentries_rejects:
  fixes s :: "'u raft_server"
  assumes "in_int (prev_log_idx ae + 1)" "persist_ok (me_cb s)" "election_timeout s \<noteq> 0"
  defines "nack \<equiv> \<lparr>aer_term = max (current_term s) (ae_term ae), success = 0,
                   aer_current_idx = raft_get_current_idx s, first_idx = prev_log_idx ae + 1\<rparr>"
  shows "(ae_term ae < current_term s \<longrightarrow> raft_recv_appendentries ct s node ae = Ok (0, nack, s)) \<and>
    (current_term s \<le> ae_term ae \<and> 0 < prev_log_idx ae \<and> log_lookup s (prev_log_idx ae) = None \<longrightarrow>
     (\<exists>s'. raft_recv_appendentries ct s node ae = Ok (0, nack, s') \<and>
       log_of s' = log_of s \<and> progress_of s' = progress_of s \<and> members_of s' = members_of s \<and>
       current_term s' = ae_term ae \<and>
       voted_for s' = (if current_term s < ae_term ae then -1 else voted_for s) \<and>
       me_state s' = (if raft_is_candidate s \<or> current_term s < ae_term ae then RAFT_STATE_FOLLOWER else me_state s) \<and>
       udata s' = (if current_term s < ae_term ae then store_term (me_cb s) (udata s) (ae_term ae) else udata s) \<and>
       current_leader s' = node \<and> timeout_elapsed s' = 0)) \<and>
    (\<forall>x e r s'. current_term s \<le> ae_term ae \<and> 0 < prev_log_idx ae \<and> log_lookup s (prev_log_idx ae) = Some x \<and>
       ety_term x \<noteq> to_unsigned (prev_log_term ae) \<and> raft_recv_appendentries ct s node ae = Ok (e, r, s') \<longrightarrow>
     success r = 0 \<and> commit_idx s' = commit_idx s)"
    (is "_ \<and> (_ \<longrightarrow> ?refused) \<and> _")
proof (cases "ae_term ae < current_term s")
  case True
  then show ?thesis
    using assms(1) by (simp add: raft_recv_appendentries_def ae_out_def c_int_in_int nack_def max_def)
next
  case False
  then have "current_term s \<le> ae_term ae" by simp
  then obtain t where run: "raft_recv_appendentries ct s node ae = ae_check ct t node ae"
    and t: "log_of t = log_of s" "progress_of t = progress_of s" "members_of t = members_of s"
      "current_term t = ae_term ae" "voted_for t = (if current_term s < ae_term ae then -1 else voted_for s)"
      "me_state t = (if raft_is_candidate s \<or> current_term s < ae_term ae then RAFT_STATE_FOLLOWER else me_state s)"
      "udata t = (if current_term s < ae_term ae then store_term (me_cb s) (udata s) (ae_term ae) else udata s)"
    by (rule appendentries_reaches_check [OF _ assms(2,3)])
  note same = log_of_window [OF t(1)]
  have unknown: "ae_check ct t node ae = Ok (0, nack, t\<lparr>current_leader := node, timeout_elapsed := 0\<rparr>)"
    if "0 < prev_log_idx ae" "log_lookup s (prev_log_idx ae) = None"
    using that False t(4) same ae_check_unknown [OF _ _ assms(1), of t ct node] by (simp add: nack_def max_def)
  have conflict: "success r = 0 \<and> commit_idx s' = commit_idx s"
    if "0 < prev_log_idx ae" "log_lookup s (prev_log_idx ae) = Some x" "ety_term x \<noteq> to_unsigned (prev_log_term ae)"
      "ae_check ct t node ae = Ok (e, r, s')" for x e r s'
    using postD [OF ae_check_conflict that(4)] that same t(2) by (simp add: views)
  have "?refused" if "0 < prev_log_idx ae" "log_lookup s (prev_log_idx ae) = None"
    unfolding run unknown [OF that] using t by (simp add: views)
  with False conflict show ?thesis unfolding run by blast
qed

text \<open>The sample server, in term 1 with two entries, gets messages of the terms 0 and 2 that start after index 7.\<close>

theorem raft_recv_appendentries_rejects_witness:
  "raft_recv_appendentries ref_contiki sample_server (Some 1) (sample_ae\<lparr>ae_term := 0\<rparr>) =
     Ok (0, \<lparr>aer_term = 1, success = 0, aer_current_idx = 2, first_idx = 2\<rparr>, sample_server) \<and>
   (\<exists>s'. raft_recv_appendentries ref_contiki sample_server (Some 1) (sample_ae\<lparr>ae_term := 2, prev_log_idx := 7\<rparr>) =
     Ok (0, \<lparr>aer_term = 2, success = 0, aer_current_idx = 2, first_idx = 8\<rparr>, s') \<and>
     log_of s' = log_of sample_server \<and> current_term s' = 2)"
proof -
  have pre: "persist_ok (me_cb sample_server)" "election_timeout sample_server \<noteq> 0"
    by (simp_all add: persist_ok_def)
  show ?thesis
    using raft_recv_appendentries_rejects [OF _ pre, of "sample_ae\<lparr>ae_term := 0\<rparr>" ref_contiki "Some 1"]
      raft_recv_appendentries_rejects [OF _ pre, of "sample_ae\<lparr>ae_term := 2, prev_log_idx := 7\<rparr>" ref_contiki "Some 1"]
    by (auto simp: sample_ae_def in_int_iff log_lookup_wf)
qed

definition sample_leader :: "nat raft_server" where
  "sample_leader = sample_server\<lparr>me_state := RAFT_STATE_LEADER, voted_for := 1\<rparr>"

lemma sample_leader_fields [simp]:
  "me_state sample_leader = RAFT_STATE_LEADER" "current_term sample_leader = 1"
  "me_log sample_leader = me_log sample_server" "entries_mem sample_leader = entries_mem sample_server"
  "commit_idx sample_leader = 0" "nodes_list sample_leader = [0, 1, 2]"
  "nodes_mem sample_leader = nodes_mem sample_server" "me_node sample_leader = Some 0"
  "me_cb sample_leader = sample_cbs" "snapshot_last_idx sample_leader = 0" "udata sample_leader = 0"
  by (simp_all add: sample_leader_def)

lemma sample_leader_log:
  "log_wf sample_leader" "raft_get_current_idx sample_leader = 2"
  "window sample_leader = [sample_entry 1 1, sample_entry 1 2]"
  "log_lookup sample_leader = log_lookup sample_server"
proof -
  have "log_of sample_leader = log_of sample_server" by (simp add: sample_leader_def views)
  note same = log_of_window [OF this]
  show "log_wf sample_leader" using same sample_log_wf by blast
  show "raft_get_current_idx sample_leader = 2"
    "window sample_leader = [sample_entry 1 1, sample_entry 1 2]"
    "log_lookup sample_leader = log_lookup sample_server"
    using same by simp_all
qed

lemma sample_leader_commits:
  "raft_recv_appendentries_response ref_contiki sample_leader (Some 2)
     \<lparr>aer_term = 1, success = 1, aer_current_idx = 2, first_idx = 1\<rparr> =
   Ok (0, (record_match sample_leader 2 2)\<lparr>commit_idx := 2\<rparr>)"
proof -
  let ?s = "record_match sample_leader 2 2"
  have log: "log_of ?s = log_of sample_leader" by simp
  note same = log_of_window [OF this]
  have at: "raft_get_entry_from_idx ?s 2 = Some 1" "raft_get_entry_from_idx ?s 3 = None"
    "raft_get_current_idx ?s = 2"
    using same sample_leader_log log_get_at_idx_wf [OF sample_leader_log(1)]
      current_idx_window [OF sample_leader_log(1)]
    by (simp_all add: raft_get_entry_from_idx_def)
  have mem: "nodes_mem ?s = (nodes_mem sample_leader)(2 := \<lparr>next_idx = 3, match_idx = 2, flags = 2, node_id = 3\<rparr>)"
    "nodes_list ?s = [0, 1, 2]" "me_node ?s = Some 0" "entries_mem ?s = entries_mem sample_server"
    by (simp_all add: record_match_def upd_node_def node_write_defs fun_eq_iff)
  have n: "raft_get_num_voting_nodes ?s = 3" "commit_votes ?s 2 = 2"
    by (simp_all add: raft_get_num_voting_nodes_def commit_votes_def mem node_read_defs node_get_defs)
  have suff: "aer_sufficient_logs ?s 2 2 = Ok ?s"
    by (simp add: aer_sufficient_logs_def c_int_def in_int_iff mem node_read_defs)
  have com: "aer_update_commit ?s 2 = Ok (?s\<lparr>commit_idx := 2\<rparr>)"
    by (simp add: aer_update_commit_def at n mem raft_set_commit_idx_def raft_get_commit_idx_def
        to_unsigned_def)
  have last: "raft_get_entry_from_idx (?s\<lparr>commit_idx := 2\<rparr>) 3 = None"
    using at(2) by (simp add: raft_get_entry_from_idx_def log_get_at_idx_def Let_def cong: if_cong)
  have rec: "upd_node (upd_node sample_leader 2 (\<lambda>n. raft_node_set_next_idx n 3)) 2
      (\<lambda>n. raft_node_set_match_idx n 2) = ?s"
    by (simp add: record_match_def)
  have "aer_success ref_contiki sample_leader 2 2 = Ok (0, ?s\<lparr>commit_idx := 2\<rparr>)"
    using suff com last sample_leader_log(2)
    by (simp add: aer_success_def c_int_def in_int_iff rec node_get_defs mem)
  then show ?thesis
    by (simp add: raft_recv_appendentries_response_def raft_is_leader_def raft_get_state_def
        node_get_defs)
qed

theorem raft_recv_entry_spec_witness:
  "\<exists>ety' r' s'. raft_recv_entry ref_contiki sample_leader (sample_entry 0 0)
       \<lparr>er_id = 0, er_term = 0, er_idx = 0\<rparr> = Ok (0, ety', r', s') \<and>
     er_idx r' = 3 \<and> window s' = [sample_entry 1 1, sample_entry 1 2, ety'] \<and> ety_term ety' = 1 \<and> udata s' = 3"
proof -
  have "raft_is_leader sample_leader" "\<not> raft_entry_is_cfg_change (sample_entry 0 0)"
    "offer_ok (me_cb sample_leader)"
    by (simp_all add: raft_is_leader_def raft_get_state_def raft_entry_is_cfg_change_def offer_ok_def)
  from raft_recv_entry_spec [OF ref_contiki_ok sample_leader_log(1) this,
      where r = "\<lparr>er_id = 0, er_term = 0, er_idx = 0\<rparr>"]
  show ?thesis
    by (auto simp: sample_leader_log appended_def room_def MAX_ENTRIES_def INT_MAX_def to_unsigned_def is_peer_def
        hand_over_def offered_def node_read_defs)
qed

section \<open>A conflict before the last entry\<close>

lemma raft_append_entry_plain:
  "\<not> raft_entry_is_cfg_change e \<Longrightarrow> raft_append_entry ct s e = log_append_entry ct s e"
  by (auto simp: raft_append_entry_def raft_entry_is_cfg_change_def raft_entry_is_voting_cfg_change_def)

text \<open>
  C40: What a follower does with a single new entry that conflicts with one of its uncommitted entries
  which is not the last.  It deletes the conflicting entry only, stores the new entry under its old
  last index, and replies success for the index of the new entry, although its log then has no entry
  with that index.
\<close>

theorem conflict_before_the_end:
  assumes "contiki_ok ct" "log_wf s" "plain_log s" "offer_ok (me_cb s)" "pop_ok (me_cb s)"
    and "log_cb (me_log s)" "\<not> raft_is_candidate s" "ae_term ae = current_term s"
    and "n_entries ae = 1" "entries ae = [e]" "\<not> raft_entry_is_cfg_change e" "ae_prev_ok s ae"
    and "log_lookup s (prev_log_idx ae + 1) = Some x" "ety_term x \<noteq> ety_term e"
    and "prev_log_idx ae + 1 < raft_get_current_idx s"
    and "commit_idx s \<le> prev_log_idx ae" "leader_commit ae \<le> commit_idx s"
  shows "\<exists>r s'. raft_recv_appendentries ct s node ae = Ok (0, r, s') \<and> success r = 1 \<and>
    aer_current_idx r = prev_log_idx ae + 1 \<and> log_lookup s' (prev_log_idx ae + 1) = None \<and>
    raft_get_current_idx s' = raft_get_current_idx s"
proof -
  let ?i = "prev_log_idx ae + 1"
  let ?s = "s\<lparr>current_leader := node, timeout_elapsed := 0\<rparr>"
  define t\<^sub>0 where
    "t\<^sub>0 = (if ?i \<le> voting_cfg_change_log_idx s then ?s\<lparr>voting_cfg_change_log_idx := -1\<rparr> else ?s)"
  have t\<^sub>0: "me_cb t\<^sub>0 = me_cb s" "me_log t\<^sub>0 = me_log s" "commit_idx t\<^sub>0 = commit_idx s"
    "current_term t\<^sub>0 = current_term s"
    by (simp_all add: t\<^sub>0_def)
  have "log_of t\<^sub>0 = log_of s" "log_of ?s = log_of s" by (simp_all add: t\<^sub>0_def views)
  note same = log_of_window [OF this(1)] and same' = log_of_window [OF this(2)]
  obtain a where a: "log_get_at_idx s ?i = Some a" "x = entries_mem s a"
    using assms(13) by (auto simp: log_lookup_def)
  have "a \<in> set (entries_list (me_log s))"
    using a(1) by (auto simp: log_get_at_idx_def find_idx_def find_Some_iff Let_def split: if_splits)
  with assms(3) a(2) have plain: "\<not> raft_entry_is_cfg_change x" by (simp add: plain_log_def)
  obtain t e' s' where del: "log_delete ct t\<^sub>0 ?i = Ok (0, t)"
    and app: "log_append_entry ct t e = Ok (0, e', s')"
    and s': "log_lookup s' ?i = None" "raft_get_current_idx s' = raft_get_current_idx s"
    using log_delete_append [OF assms(1), of t\<^sub>0 ?i x e] same t\<^sub>0 assms(2,4-6,11,13,15) plain by auto
  have "append_step t\<^sub>0 s'"
    using postD [OF log_delete_frame del] postD [OF log_append_entry_frame app]
    by (auto intro: append_step_trans)
  then have keep: "commit_idx s' = commit_idx s" "current_term s' = current_term s"
    using t\<^sub>0 by (auto simp: append_step_def views)
  have rng: "in_int ?i" "in_int (?i + 0)"
    using ae_prev_range [OF assms(2,12)] assms(15) current_idx_range(2) [OF assms(2)]
    by (auto simp: in_int_iff)
  have del': "raft_delete_entry_from_idx ct ?s ?i = Ok (0, t)"
    using del assms(16) by (simp add: t\<^sub>0_def raft_delete_entry_from_idx_def raft_get_commit_idx_def)
  have "ae_scan ct ae 0 [e] (prev_log_idx ae) ?s = Ok (Go_On 0 [e], prev_log_idx ae, t)"
    using a same' assms(9,14,16) rng del'
    by (subst ae_scan.simps) (simp add: c_int_in_int raft_get_entry_from_idx_def)
  moreover have "ae_append ct ae 0 [e] (prev_log_idx ae) t = Ok (Go_On 1 [], ?i, s')"
    using app assms(9,11) rng
    by (subst ae_append.simps)
       (simp add: raft_append_entry_plain c_int_in_int ae_append.simps [of ct ae 1]
        raft_get_next_log_entry_def log_get_next_entry_def)
  moreover have "ae_commit s' ae = Ok s'"
    using keep assms(17) by (simp add: ae_commit_def raft_get_commit_idx_def)
  ultimately have run: "ae_entries ct ?s ae = Ok (0, \<lparr>aer_term = current_term s, success = 1,
      aer_current_idx = ?i, first_idx = ?i\<rparr>, s')"
    using assms(10) rng keep by (simp add: ae_entries_def ae_out_def c_int_in_int)
  have "ae_check ct s node ae = ae_entries ct ?s ae"
    using same' assms(12)
    by (auto simp: ae_check_def Let_def ae_prev_ok_def log_lookup_def raft_get_entry_from_idx_def)
  with run show ?thesis using assms(7,8) s' by (simp add: raft_recv_appendentries_def)
qed

theorem conflict_before_the_end_witness:
  "\<exists>r s'. raft_recv_appendentries ref_contiki sample_server (Some 1)
       \<lparr>ae_term = 1, prev_log_idx = 0, prev_log_term = 0, leader_commit = 0, n_entries = 1,
        entries = [sample_entry 2 1]\<rparr> = Ok (0, r, s') \<and>
     success r = 1 \<and> aer_current_idx r = 1 \<and> log_lookup s' 1 = None \<and> raft_get_current_idx s' = 2"
proof -
  have "offer_ok (me_cb sample_server)" "pop_ok (me_cb sample_server)"
    "\<not> raft_is_candidate sample_server" "plain_log sample_server"
    by (auto simp: offer_ok_def pop_ok_def raft_is_candidate_def raft_get_state_def plain_log_def
        pool_ok_def MAX_ENTRIES_def raft_entry_is_cfg_change_def)
  then show ?thesis
    using conflict_before_the_end [of ref_contiki sample_server "\<lparr>ae_term = 1, prev_log_idx = 0,
        prev_log_term = 0, leader_commit = 0, n_entries = 1, entries = [sample_entry 2 1]\<rparr>"
        "sample_entry 2 1" "sample_entry 1 1" "Some 1"]
    by (simp add: raft_entry_is_cfg_change_def ae_prev_ok_def log_lookup_wf)
qed

text \<open>
  C20: The message that starts at the first index is not checked against the log.  Where the log has given
  up its first entry, such a message is taken for new, however old it is: the handler finds no entry at
  index 1, appends all the entries of the message behind the last entry of the log, under new indices, and
  acknowledges the old ones.  A duplicate of a leader's first message damages the log in this way.
\<close>

theorem stale_message_appended_again:
  assumes "contiki_ok ct" "log_wf s" "offer_ok (me_cb s)" "0 < dropped s"
    and "n_entries ae = int (length (entries ae))" "\<forall>e \<in> set (entries ae). \<not> raft_entry_is_cfg_change e"
    and "prev_log_idx ae = 0" "ae_term ae = current_term s" "\<not> raft_is_candidate s"
    and "commit_idx s \<le> raft_get_current_idx s" "raft_get_current_idx s + n_entries ae \<le> INT_MAX"
  shows "\<exists>r s'. raft_recv_appendentries ct s node ae = Ok (0, r, s') \<and>
    success r = 1 \<and> aer_current_idx r = n_entries ae \<and> log_wf s' \<and>
    raft_get_current_idx s' = raft_get_current_idx s + n_entries ae \<and>
    window s' = most_recent (window s @ numbered (raft_get_current_idx s + 1) (entries ae))"
proof -
  let ?s = "s\<lparr>current_leader := node, timeout_elapsed := 0\<rparr>"
  have "log_of ?s = log_of s" by (simp add: views)
  note same = log_of_window [OF this]
  have wf: "log_wf ?s" "offer_ok (me_cb ?s)" using same assms(2,3) by simp_all
  have cur: "0 < raft_get_current_idx ?s" using same current_idx_window [OF assms(2)] assms(4) by simp
  have "raft_get_entry_from_idx ?s 1 = None"
    using same assms(4) by (simp add: raft_get_entry_from_idx_def log_get_at_idx_wf [OF assms(2)])
  then have scan: "ae_scan ct ae 0 (entries ae) (prev_log_idx ae) ?s =
      Ok (Go_On (int 0) (drop 0 (entries ae)), prev_log_idx ae + int 0, ?s)"
    using assms(7) by (subst ae_scan.simps) (simp add: c_int_def in_int_iff)
  obtain r s' where r: "ae_entries ct ?s ae = Ok (0, r, s')" "success r = 1"
    "aer_current_idx r = n_entries ae" "log_wf s'"
    "raft_get_current_idx s' = raft_get_current_idx s + n_entries ae"
    "window s' = most_recent (window s @ numbered (raft_get_current_idx s + 1) (entries ae))"
    using ae_entries_appends [OF assms(1) wf assms(5,6) _ _ _ scan] assms(5,7,10,11) cur same by auto
  moreover have "raft_recv_appendentries ct s node ae = ae_entries ct ?s ae"
    using assms(7-9) by (simp add: raft_recv_appendentries_def ae_check_def)
  ultimately show ?thesis by auto
qed

theorem stale_message_appended_again_witness:
  "\<exists>r s'. raft_recv_appendentries ref_contiki sample_behind (Some 1)
       \<lparr>ae_term = 1, prev_log_idx = 0, prev_log_term = 0, leader_commit = 0, n_entries = 1,
        entries = [sample_entry 1 1]\<rparr> = Ok (0, r, s') \<and>
     aer_current_idx r = 1 \<and> raft_get_current_idx s' = 4 \<and>
     window s' = [sample_entry 1 2, sample_entry 1 3, sample_entry 1 4]"
proof -
  have s: "offer_ok (me_cb sample_behind)" "\<not> raft_is_candidate sample_behind" "current_term sample_behind = 1"
    "commit_idx sample_behind = 0" "window sample_behind = [sample_entry 1 2, sample_entry 1 3]"
    by (simp_all add: offer_ok_def raft_is_candidate_def raft_get_state_def sample_behind_def window_def)
  moreover have "raft_get_current_idx sample_behind = 3"
    using current_idx_window [OF sample_behind_wf(1)] s(5) sample_behind_wf(2) by (simp del: length_window)
  ultimately show ?thesis
    using stale_message_appended_again [OF ref_contiki_ok sample_behind_wf(1), of "\<lparr>ae_term = 1,
        prev_log_idx = 0, prev_log_term = 0, leader_commit = 0, n_entries = 1,
        entries = [sample_entry 1 1]\<rparr>" "Some 1"] sample_behind_wf(2)
    by (simp add: raft_entry_is_cfg_change_def sample_entry_def INT_MAX_def most_recent_def
        MAX_ENTRIES_def to_unsigned_def) blast
qed

end
