(* ===== verification/Raft_Server.thy ===== *)
theory Raft_Server
  imports Raft_Replication
begin

text \<open>
  The life of a server in \<^verbatim>\<open>src/raft_server.c\<close>: creation and clearing, applying committed
  entries to the user's state machine, the periodic tick, and the snapshot entry points, whose bodies
  the sources comment out.
\<close>

section \<open>Creation\<close>

text \<open>
  \<^verbatim>\<open>raft_new\<close> zeroes the static server structure; the argument \<open>s\<close> is the static storage
  before the call.  The two block pools, the random generator and the user's data are not part of that
  structure and keep their state.
\<close>

definition zeroed :: "'u raft_server \<Rightarrow> 'u raft_server" where
  "zeroed s =
     s\<lparr>current_term := 0, voted_for := 0, commit_idx := 0, last_applied_idx := 0,
       me_state := RAFT_STATE_NONE, timeout_elapsed := 0, num_nodes := 0, election_timeout := 0,
       election_timeout_rand := 0, request_timeout := 0, current_leader := None, me_cb := no_cbs,
       me_node := None, voting_cfg_change_log_idx := 0,
       connected := RAFT_NODE_STATUS_DISCONNECTED, snapshot_in_progress := False,
       snapshot_last_idx := 0, snapshot_last_term := 0\<rparr>"

definition raft_new :: "contiki \<Rightarrow> 'u raft_server \<Rightarrow> 'u raft_server result" where
  "raft_new ct s =
     bind (raft_randomize_election_timeout ct
            ((zeroed s)\<lparr>current_term := 0, voted_for := -1, timeout_elapsed := 0,
                        request_timeout := 200, election_timeout := 1000\<rparr>)) (\<lambda>s.
     let s = s\<lparr>me_log := log_new ct s\<rparr>;
         s = s\<lparr>voting_cfg_change_log_idx := -1\<rparr>;
         s = (raft_set_state s RAFT_STATE_FOLLOWER)\<lparr>current_leader := None\<rparr>;
         s = raft_set_snapshot_metadata (s\<lparr>snapshot_in_progress := False\<rparr>) 0 0
     in Ok (s\<lparr>nodes_list := ct_list_init ct (nodes_list s)\<rparr>))"

text \<open>The user's data the pointer refers to becomes the server's.\<close>

definition raft_set_callbacks ::
  "'u raft_server \<Rightarrow> 'u raft_cbs \<Rightarrow> 'u \<Rightarrow> 'u raft_server" where
  "raft_set_callbacks s funcs u =
     s\<lparr>me_cb := funcs, udata := u, me_log := log_set_callbacks (me_log s)\<rparr>"

text \<open>The server is a static object too.\<close>

definition raft_server_storage :: storage where
  "raft_server_storage = Static_Storage"

definition raft_free :: "'u raft_server \<Rightarrow> unit result" where
  "raft_free s = bind (log_free s) (\<lambda>_. bind (c_free raft_server_storage) (\<lambda>_. Ok ()))"

lemma raft_free_faults: "raft_free s = Fault Invalid_Free"
  by (simp add: raft_free_def log_free_def c_free_def raft_entries_list_storage_def)

definition raft_clear :: "contiki \<Rightarrow> 'u raft_server \<Rightarrow> 'u raft_server result" where
  "raft_clear ct s =
     bind (raft_randomize_election_timeout ct
            (s\<lparr>current_term := 0, voted_for := -1, timeout_elapsed := 0\<rparr>)) (\<lambda>s.
     let s = s\<lparr>voting_cfg_change_log_idx := -1\<rparr>;
         s = (raft_set_state s RAFT_STATE_FOLLOWER)\<lparr>current_leader := None\<rparr>;
         s = s\<lparr>commit_idx := 0, last_applied_idx := 0, num_nodes := 0, me_node := None,
               voting_cfg_change_log_idx := 0\<rparr>
     in log_clear ct s)"

section \<open>Applying entries\<close>

text \<open>The membership side of an applied configuration entry.\<close>

definition apply_cfg ::
  "contiki \<Rightarrow> 'u raft_server \<Rightarrow> raft_entry \<Rightarrow> int \<Rightarrow> (int \<times> 'u raft_server) result" where
  "apply_cfg ct s ety log_idx =
     bind (call_log_get_node_id s ety log_idx) (\<lambda>(nid, s).
     let node = raft_get_node s nid; ty = ety_type ety in
     if ty = RAFT_LOGTYPE_ADD_NODE then
       bind (deref node) (\<lambda>a.
       let s = upd_node s a (\<lambda>n. raft_node_set_addition_committed n True);
           s = upd_node s a (\<lambda>n. raft_node_set_voting_committed n True);
           s = upd_node s a raft_node_set_has_sufficient_logs
       in Ok (0, if nid = raft_get_nodeid s
                 then s\<lparr>connected := RAFT_NODE_STATUS_CONNECTED\<rparr> else s))
     else if ty = RAFT_LOGTYPE_ADD_NONVOTING_NODE then
       bind (deref node) (\<lambda>a.
       Ok (0, upd_node s a (\<lambda>n. raft_node_set_addition_committed n True)))
     else if ty = RAFT_LOGTYPE_DEMOTE_NODE then
       (case node of
          Some a \<Rightarrow> Ok (0, upd_node s a (\<lambda>n. raft_node_set_voting_committed n False))
        | None \<Rightarrow> Ok (0, s))
     else if ty = RAFT_LOGTYPE_REMOVE_NODE then
       (case node of
          Some a \<Rightarrow> bind (raft_remove_node ct s (Some a)) (\<lambda>s. Ok (0, s))
        | None \<Rightarrow> Ok (0, s))
     else Ok (0, s))"

text \<open>After the state machine has seen the entry.\<close>

definition apply_finish ::
  "contiki \<Rightarrow> 'u raft_server \<Rightarrow> raft_entry \<Rightarrow> int \<Rightarrow> (int \<times> 'u raft_server) result" where
  "apply_finish ct s ety log_idx =
     (let s = (if log_idx = voting_cfg_change_log_idx s
               then s\<lparr>voting_cfg_change_log_idx := -1\<rparr> else s)
      in if \<not> raft_entry_is_cfg_change ety then Ok (0, s) else apply_cfg ct s ety log_idx)"

definition raft_apply_entry ::
  "contiki \<Rightarrow> 'u raft_server \<Rightarrow> (int \<times> 'u raft_server) result" where
  "raft_apply_entry ct s =
     (if raft_snapshot_is_in_progress s then Ok (-1, s)
      else if last_applied_idx s = raft_get_commit_idx s then Ok (-1, s)
      else
        bind (c_int (last_applied_idx s + 1)) (\<lambda>log_idx.
        case raft_get_entry_from_idx s log_idx of
          None \<Rightarrow> Ok (-1, s)
        | Some a \<Rightarrow>
            let ety = entries_mem s a;
                s = s\<lparr>last_applied_idx := last_applied_idx s + 1\<rparr>
            in case cb_applylog (me_cb s) of
                 Some applylog \<Rightarrow>
                   let (e, u) = applylog (udata s) ety (last_applied_idx s - 1);
                       s = s\<lparr>udata := u\<rparr>
                   in if e = RAFT_ERR_SHUTDOWN then Ok (RAFT_ERR_SHUTDOWN, s)
                      else apply_finish ct s ety log_idx
               | None \<Rightarrow> apply_finish ct s ety log_idx))"

section \<open>What applying keeps\<close>

lemma call_log_get_node_id_progress:
  "post (call_log_get_node_id s ety i) (\<lambda>(nid, s').
     last_applied_idx s' = last_applied_idx s \<and> commit_idx s' = commit_idx s)"
  by (simp add: call_log_get_node_id_def wp case_prod_beta)

lemma raft_remove_node_progress:
  "post (raft_remove_node ct s p) (\<lambda>s'.
     last_applied_idx s' = last_applied_idx s \<and> commit_idx s' = commit_idx s)"
  by (simp add: raft_remove_node_def raft_node_free_def Let_def wp split: option.split list.split)

lemma apply_cfg_progress:
  "post (apply_cfg ct s ety i) (\<lambda>(e, s').
     e = 0 \<and> last_applied_idx s' = last_applied_idx s \<and> commit_idx s' = commit_idx s)"
  unfolding apply_cfg_def wp
  by (rule post_mono [OF call_log_get_node_id_progress])
     (auto simp: Let_def wp split: option.split intro!: post_mono [OF raft_remove_node_progress])

lemma apply_finish_progress:
  "post (apply_finish ct s ety i) (\<lambda>(e, s').
     e = 0 \<and> last_applied_idx s' = last_applied_idx s \<and> commit_idx s' = commit_idx s)"
  unfolding apply_finish_def
  by (auto simp: Let_def wp intro!: post_mono [OF apply_cfg_progress])

lemma raft_apply_entry_progress:
  "post (raft_apply_entry ct s) (\<lambda>(e, s').
     (e \<noteq> -1 \<longrightarrow> last_applied_idx s' = last_applied_idx s + 1) \<and>
     (e = -1 \<longrightarrow> last_applied_idx s' = last_applied_idx s) \<and> commit_idx s' = commit_idx s)"
  unfolding raft_apply_entry_def
  by (auto simp: Let_def wp case_prod_beta split: option.split
      intro!: post_mono [OF apply_finish_progress])

section \<open>Applying all committed entries\<close>

text \<open>The loop ends because every turn that does not leave it applies one more entry.\<close>

function apply_all_loop ::
  "contiki \<Rightarrow> 'u raft_server \<Rightarrow> (int \<times> 'u raft_server) result" where
  "apply_all_loop ct s =
     (if raft_get_last_applied_idx s < raft_get_commit_idx s
      then case raft_apply_entry ct s of
             Fault f \<Rightarrow> Fault f
           | Ok (e, s') \<Rightarrow> if e \<noteq> 0 then Ok (e, s') else apply_all_loop ct s'
      else Ok (0, s))"
  by pat_completeness auto
termination
  by (relation "measure (\<lambda>(ct, s). nat (commit_idx s - last_applied_idx s))")
     (auto simp: raft_get_last_applied_idx_def raft_get_commit_idx_def
       dest!: postD [OF raft_apply_entry_progress])

declare apply_all_loop.simps [simp del]

definition raft_apply_all :: "contiki \<Rightarrow> 'u raft_server \<Rightarrow> (int \<times> 'u raft_server) result" where
  "raft_apply_all ct s =
     (if raft_snapshot_is_in_progress s then Ok (0, s) else apply_all_loop ct s)"

section \<open>The periodic tick\<close>

text \<open>The part of the tick that may make a single voting node the leader.\<close>

definition periodic_single ::
  "contiki \<Rightarrow> 'u raft_server \<Rightarrow> 'u raft_server result" where
  "periodic_single ct s =
     (if raft_get_num_voting_nodes s = 1
      then bind (deref (raft_get_my_node s)) (\<lambda>m.
           if raft_node_is_voting (nodes_mem s m) \<and> \<not> raft_is_leader s
           then raft_become_leader ct s else Ok s)
      else Ok s)"

text \<open>Heartbeats of a leader, elections of the others; the result is the election's return code.\<close>

definition periodic_timeout ::
  "contiki \<Rightarrow> 'u raft_server \<Rightarrow> (int \<times> 'u raft_server) result" where
  "periodic_timeout ct s =
     (if me_state s = RAFT_STATE_LEADER then
        (if request_timeout s \<le> timeout_elapsed s
         then bind (raft_send_appendentries_all ct s) (\<lambda>(_, s). Ok (0, s))
         else Ok (0, s))
      else if election_timeout_rand s \<le> timeout_elapsed s \<and> \<not> raft_snapshot_is_in_progress s then
        (if 1 < raft_get_num_voting_nodes s
         then bind (deref (raft_get_my_node s)) (\<lambda>m.
              if raft_node_is_voting (nodes_mem s m) then raft_election_start ct s else Ok (0, s))
         else Ok (0, s))
      else Ok (0, s))"

definition raft_periodic ::
  "contiki \<Rightarrow> 'u raft_server \<Rightarrow> int \<Rightarrow> (int \<times> 'u raft_server) result" where
  "raft_periodic ct s msec_since_last_period =
     bind (c_int (timeout_elapsed s + msec_since_last_period)) (\<lambda>t.
     bind (periodic_single ct (s\<lparr>timeout_elapsed := t\<rparr>)) (\<lambda>s.
     bind (periodic_timeout ct s) (\<lambda>(e, s).
     if e \<noteq> 0 then Ok (e, s)
     else if last_applied_idx s < raft_get_commit_idx s \<and> \<not> raft_snapshot_is_in_progress s
     then bind (raft_apply_entry ct s) (\<lambda>(e, s).
          if e \<noteq> -1 then Ok (e, s) else Ok (0, s))
     else Ok (0, s))))"

section \<open>Snapshots\<close>

text \<open>The bodies are commented out in the sources: the calls succeed and change nothing.\<close>

definition log_poll :: "'u raft_server \<Rightarrow> int \<times> 'u raft_server" where
  "log_poll s = (0, s)"

definition log_load_from_snapshot :: "'u raft_server \<Rightarrow> int \<Rightarrow> int \<Rightarrow> int \<times> 'u raft_server" where
  "log_load_from_snapshot s i t = (0, s)"

text \<open>\<open>ety\<close> is the caller's pointer, which \<^verbatim>\<open>log_poll\<close> leaves as it is.\<close>

definition raft_poll_entry ::
  "'u raft_server \<Rightarrow> nat option \<Rightarrow> (int \<times> 'u raft_server) result" where
  "raft_poll_entry s ety =
     (let (e, s) = log_poll s in
      if e \<noteq> 0 then Ok (e, s) else bind (c_assert (ety \<noteq> None)) (\<lambda>_. Ok (0, s)))"

definition raft_begin_snapshot :: "'u raft_server \<Rightarrow> int \<times> 'u raft_server" where
  "raft_begin_snapshot s = (0, s)"

definition raft_end_snapshot :: "'u raft_server \<Rightarrow> int \<times> 'u raft_server" where
  "raft_end_snapshot s = (0, s)"

definition raft_begin_load_snapshot ::
  "'u raft_server \<Rightarrow> int \<Rightarrow> int \<Rightarrow> int \<times> 'u raft_server" where
  "raft_begin_load_snapshot s last_included_term last_included_index = (0, s)"

definition raft_end_load_snapshot :: "'u raft_server \<Rightarrow> int \<times> 'u raft_server" where
  "raft_end_load_snapshot s = (0, s)"

section \<open>Creation and clearing\<close>

lemma raft_new_run:
  assumes "contiki_ok ct" "entries_used s = {}" "nodes_used s = {}"
  shows "runs (raft_new ct s) (\<lambda>s'.
    me_state s' = RAFT_STATE_FOLLOWER \<and> election_of s' = (0, -1) \<and> progress_of s' = (0, 0) \<and>
    me_log s' = \<lparr>log_size = 10, count = 0, base = 0, entries_list = [], log_cb = False\<rparr> \<and>
    entries_used s' = {} \<and> nodes_list s' = [] \<and> num_nodes s' = 0 \<and> nodes_used s' = {} \<and>
    me_node s' = None \<and> current_leader s' = None \<and> voting_cfg_change_log_idx s' = -1 \<and>
    snapshot_in_progress s' = False \<and> snapshot_last_idx s' = 0 \<and>
    timeout_elapsed s' = 0 \<and> request_timeout s' = 200 \<and> election_timeout s' = 1000 \<and>
    1000 \<le> election_timeout_rand s' \<and> election_timeout_rand s' < 2000 \<and>
    nodes_mem s' = nodes_mem s \<and> entries_mem s' = entries_mem s \<and> udata s' = udata s)"
  using random_timeout_bounds [of 1000 "ct_random_rand ct (rand_calls s)"] assms
  by (simp add: raft_new_def wp raft_randomize_election_timeout_def Let_def zeroed_def views
      raft_set_state_def raft_set_snapshot_metadata_def log_new_def log_alloc_def contiki_simps
      INITIAL_CAPACITY_def)

text \<open>
  Creating a server, with both block pools unused, as at the start of the program: the call does
  not fault and gives a follower in term 0 that has not voted, with an empty well-formed log, no
  members, nothing committed or applied, no configuration change in progress, and an election timeout
  drawn from 1000 to 1999 milliseconds.
\<close>

lemma raft_new_spec:
  assumes "contiki_ok ct" "entries_used s = {}" "nodes_used s = {}"
  shows "\<exists>s'. raft_new ct s = Ok s' \<and> raft_is_follower s' \<and> current_term s' = 0 \<and>
    \<not> raft_already_voted s' \<and> log_wf s' \<and> window s' = [] \<and> raft_get_current_idx s' = 0 \<and>
    nodes_wf s' \<and> nodes_list s' = [] \<and> raft_get_commit_idx s' = 0 \<and>
    raft_get_last_applied_idx s' = 0 \<and> \<not> raft_voting_change_is_in_progress s' \<and>
    1000 \<le> election_timeout_rand s' \<and> election_timeout_rand s' < 2000"
proof -
  from raft_new_run [OF assms] obtain s' where new: "raft_new ct s = Ok s'"
    and f: "me_state s' = RAFT_STATE_FOLLOWER" "election_of s' = (0, -1)" "progress_of s' = (0, 0)"
      "me_log s' = \<lparr>log_size = 10, count = 0, base = 0, entries_list = [], log_cb = False\<rparr>"
      "entries_used s' = {}" "nodes_list s' = []" "num_nodes s' = 0" "nodes_used s' = {}"
      "me_node s' = None" "voting_cfg_change_log_idx s' = -1"
      "1000 \<le> election_timeout_rand s'" "election_timeout_rand s' < 2000"
    by (auto simp: runs_def)
  then show ?thesis
    using empty_log_wf [of s']
    by (simp add: raft_is_follower_def raft_get_state_def views raft_already_voted_def
        raft_get_commit_idx_def raft_get_last_applied_idx_def raft_voting_change_is_in_progress_def
        nodes_wf_def node_ids_def)
qed

text \<open>
  Clearing a server with a well-formed log does not fault: it is a follower in term 0 without a
  vote, and the log is empty.  But it does not clear the list of nodes, and it leaves a voting change
  marked as in progress, so that the server refuses every client entry that adds or demotes a voting
  node.
\<close>

lemma raft_clear_spec:
  assumes "contiki_ok ct" "log_wf s" "election_timeout s \<noteq> 0"
  shows "\<exists>s'. raft_clear ct s = Ok s' \<and> raft_is_follower s' \<and> current_term s' = 0 \<and>
    \<not> raft_already_voted s' \<and> log_wf s' \<and> window s' = [] \<and> raft_get_current_idx s' = 0 \<and>
    nodes_list s' = nodes_list s \<and> (nodes_wf s' \<longrightarrow> nodes_list s = []) \<and>
    raft_voting_change_is_in_progress s' \<and>
    (\<forall>ety r. raft_entry_is_voting_cfg_change ety \<longrightarrow>
       raft_recv_entry ct s' ety r = Ok (RAFT_ERR_ONE_VOTING_CHANGE_ONLY, ety, r, s'))"
proof -
  let ?s = "s\<lparr>current_term := 0, voted_for := -1, timeout_elapsed := 0\<rparr>"
  obtain s1 where r: "raft_randomize_election_timeout ct ?s = Ok s1"
    and same: "election_of s1 = election_of ?s" "log_of s1 = log_of ?s" "members_of s1 = members_of ?s"
    using runs_post [OF raft_randomize_runs raft_randomize_same, of ?s ct] assms(3)
    by (auto simp: runs_def)
  let ?t = "s1\<lparr>me_state := RAFT_STATE_FOLLOWER, current_leader := None, commit_idx := 0,
    last_applied_idx := 0, num_nodes := 0, me_node := None, voting_cfg_change_log_idx := 0\<rparr>"
  have "log_of ?t = log_of s" using same(2) by (simp add: views)
  then have wf: "log_wf ?t" using log_of_window assms(2) by blast
  let ?s' = "?t\<lparr>me_log := (me_log ?t)\<lparr>entries_list := [], count := 0, base := 0\<rparr>, entries_used := {}\<rparr>"
  have "raft_clear ct s = Ok ?s'"
    using r log_clear_wf [OF assms(1) wf] by (simp add: raft_clear_def raft_set_state_def)
  moreover have "current_term ?s' = 0" "voted_for ?s' = -1" "nodes_list ?s' = nodes_list s"
    using same by (simp_all add: views)
  moreover have "log_wf ?s' \<and> window ?s' = [] \<and> raft_get_current_idx ?s' = 0"
    by (rule empty_log_wf) simp_all
  moreover have change: "raft_voting_change_is_in_progress ?s'"
    by (simp add: raft_voting_change_is_in_progress_def)
  moreover have "raft_recv_entry ct ?s' ety r = Ok (RAFT_ERR_ONE_VOTING_CHANGE_ONLY, ety, r, ?s')"
    if "raft_entry_is_voting_cfg_change ety" for ety r
    using that change by (simp add: raft_recv_entry_def)
  ultimately show ?thesis
    by (intro exI [of _ ?s']) (simp add: raft_is_follower_def raft_get_state_def raft_already_voted_def
        nodes_wf_def)
qed

section \<open>What applying does\<close>

text \<open>
  The state machine's view: the entries are handed to \<^verbatim>\<open>applylog\<close> one after the other, each with
  the number of the entries applied before it.
\<close>

fun applied_to :: "('u \<Rightarrow> raft_entry \<Rightarrow> int \<Rightarrow> int \<times> 'u) \<Rightarrow> int \<Rightarrow> raft_entry list \<Rightarrow> 'u \<Rightarrow> 'u" where
  "applied_to f i [] u = u"
| "applied_to f i (e # es) u = applied_to f (i + 1) es (snd (f u e i))"

text \<open>The committed entries that were not applied yet.\<close>

definition to_apply :: "'u raft_server \<Rightarrow> raft_entry list" where
  "to_apply s =
     take (nat (commit_idx s - last_applied_idx s))
       (drop (nat (last_applied_idx s - dropped s)) (window s))"

definition apply_ready :: "'u raft_server \<Rightarrow> bool" where
  "apply_ready s \<longleftrightarrow>
     log_wf s \<and> plain_log s \<and> \<not> raft_snapshot_is_in_progress s \<and>
     dropped s \<le> last_applied_idx s \<and> last_applied_idx s \<le> commit_idx s \<and>
     commit_idx s \<le> raft_get_current_idx s"

lemma to_apply_Cons:
  assumes "apply_ready s" "last_applied_idx s < commit_idx s"
  obtains a where "raft_get_entry_from_idx s (last_applied_idx s + 1) = Some a"
    "\<not> raft_entry_is_cfg_change (entries_mem s a)" "in_int (last_applied_idx s + 1)"
    "to_apply s = entries_mem s a # take (nat (commit_idx s - last_applied_idx s) - 1)
       (drop (nat (last_applied_idx s + 1 - dropped s)) (window s))"
proof -
  let ?k = "nat (last_applied_idx s - dropped s)"
  have wf: "log_wf s" and plain: "plain_log s"
    and le: "dropped s \<le> last_applied_idx s" "commit_idx s \<le> raft_get_current_idx s"
    using assms(1) by (auto simp: apply_ready_def)
  note range = current_idx_range [OF wf]
  let ?a = "entries_list (me_log s) ! ?k"
  have k: "?k < length (window s)"
    using le assms(2) current_idx_window [OF wf] by (simp add: nat_less_iff)
  have at: "raft_get_entry_from_idx s (last_applied_idx s + 1) = Some ?a"
    using le assms(2) by (simp add: raft_get_entry_from_idx_def log_get_at_idx_wf [OF wf])
  have nat: "nat (commit_idx s - last_applied_idx s) = Suc (nat (commit_idx s - last_applied_idx s) - 1)"
    "nat (last_applied_idx s + 1 - dropped s) = Suc ?k"
    using le(1) assms(2) by linarith+
  have "to_apply s = entries_mem s ?a # take (nat (commit_idx s - last_applied_idx s) - 1)
      (drop (Suc ?k) (window s))"
    using k Cons_nth_drop_Suc [OF k] nat(1) unfolding to_apply_def
    by (metis length_window nth_map take_Suc_Cons window_def)
  moreover have "\<not> raft_entry_is_cfg_change (entries_mem s ?a)"
    using plain k by (simp add: plain_log_def)
  moreover have "in_int (last_applied_idx s + 1)"
    using le assms(2) range by (auto simp: in_int_iff)
  ultimately show thesis using that [OF at] nat(2) by simp
qed

lemma raft_apply_entry_plain:
  assumes "apply_ready s" "last_applied_idx s < commit_idx s"
    and "cb_applylog (me_cb s) = Some f" "\<And>u e i. fst (f u e i) \<noteq> RAFT_ERR_SHUTDOWN"
  shows "\<exists>s' e. raft_apply_entry ct s = Ok (0, s') \<and> apply_ready s' \<and>
    last_applied_idx s' = last_applied_idx s + 1 \<and> commit_idx s' = commit_idx s \<and>
    me_cb s' = me_cb s \<and> log_of s' = log_of s \<and> members_of s' = members_of s \<and>
    election_of s' = election_of s \<and> me_state s' = me_state s \<and>
    to_apply s = e # to_apply s' \<and> udata s' = snd (f (udata s) e (last_applied_idx s))"
proof -
  from assms(1,2) obtain a where at: "raft_get_entry_from_idx s (last_applied_idx s + 1) = Some a"
    and plain: "\<not> raft_entry_is_cfg_change (entries_mem s a)" and rng: "in_int (last_applied_idx s + 1)"
    and todo: "to_apply s = entries_mem s a # take (nat (commit_idx s - last_applied_idx s) - 1)
       (drop (nat (last_applied_idx s + 1 - dropped s)) (window s))"
    by (rule to_apply_Cons)
  define s1 where "s1 = s\<lparr>last_applied_idx := last_applied_idx s + 1,
    udata := snd (f (udata s) (entries_mem s a) (last_applied_idx s))\<rparr>"
  define s' where "s' = (if last_applied_idx s + 1 = voting_cfg_change_log_idx s1
    then s1\<lparr>voting_cfg_change_log_idx := -1\<rparr> else s1)"
  have run: "raft_apply_entry ct s = Ok (0, s')"
    using assms at plain rng
    by (simp add: raft_apply_entry_def apply_ready_def raft_get_commit_idx_def c_int_in_int
        case_prod_beta apply_finish_def s'_def s1_def)
  have f: "last_applied_idx s' = last_applied_idx s + 1" "commit_idx s' = commit_idx s"
    "me_cb s' = me_cb s" "log_of s' = log_of s" "members_of s' = members_of s"
    "election_of s' = election_of s" "me_state s' = me_state s"
    "udata s' = snd (f (udata s) (entries_mem s a) (last_applied_idx s))"
    "snapshot_in_progress s' = snapshot_in_progress s"
    by (simp_all add: s'_def s1_def views)
  note same = log_of_window [OF f(4)] and plain' = plain_log_cong [OF f(4)]
  have "apply_ready s'"
    using assms(1,2) f same plain' by (simp add: apply_ready_def raft_snapshot_is_in_progress_def)
  moreover have "to_apply s' = take (nat (commit_idx s - last_applied_idx s) - 1)
      (drop (nat (last_applied_idx s + 1 - dropped s)) (window s))"
  proof -
    have "nat (commit_idx s - (last_applied_idx s + 1)) = nat (commit_idx s - last_applied_idx s) - 1"
      using assms(2) by linarith
    then show ?thesis using f same by (simp add: to_apply_def)
  qed
  ultimately show ?thesis using run f todo by (intro exI [of _ s'] exI [of _ "entries_mem s a"]) simp
qed

lemma apply_all_loop_run:
  assumes "apply_ready s" "cb_applylog (me_cb s) = Some f"
    and "\<And>u e i. fst (f u e i) \<noteq> RAFT_ERR_SHUTDOWN"
  shows "\<exists>s'. apply_all_loop ct s = Ok (0, s') \<and> last_applied_idx s' = commit_idx s \<and>
    commit_idx s' = commit_idx s \<and> log_of s' = log_of s \<and> members_of s' = members_of s \<and>
    election_of s' = election_of s \<and> me_state s' = me_state s \<and>
    udata s' = applied_to f (last_applied_idx s) (to_apply s) (udata s)"
  using assms(1,2)
proof (induction "nat (commit_idx s - last_applied_idx s)" arbitrary: s)
  case 0
  then have "last_applied_idx s = commit_idx s" by (simp add: apply_ready_def)
  then show ?case
    by (subst apply_all_loop.simps)
       (simp add: raft_get_last_applied_idx_def raft_get_commit_idx_def to_apply_def)
next
  case (Suc n)
  then have lt: "last_applied_idx s < commit_idx s" by simp
  from raft_apply_entry_plain [OF Suc.prems(1) lt Suc.prems(2) assms(3)] obtain t e
    where t: "raft_apply_entry ct s = Ok (0, t)" "apply_ready t"
      "last_applied_idx t = last_applied_idx s + 1" "commit_idx t = commit_idx s"
      "me_cb t = me_cb s" "log_of t = log_of s" "members_of t = members_of s"
      "election_of t = election_of s" "me_state t = me_state s"
      "to_apply s = e # to_apply t" "udata t = snd (f (udata s) e (last_applied_idx s))"
    by blast
  have "n = nat (commit_idx t - last_applied_idx t)" using Suc.hyps(2) t(3,4) by simp
  from Suc.hyps(1) [OF this t(2)] Suc.prems(2) t
  show ?case
    by (subst apply_all_loop.simps)
       (simp add: raft_get_last_applied_idx_def raft_get_commit_idx_def lt)
qed

text \<open>
  C28: Applying all committed entries of a log that holds them and has no configuration entries, with a
  state machine that does not ask for a shutdown.  The loop ends without a fault and returns 0: the
  state machine has received exactly the committed entries that were not applied before, each once, in
  the order of the log, and the last applied index is the commit index.  Log, members, term, vote and
  role do not change.
\<close>

theorem raft_apply_all_spec:
  assumes "apply_ready s" "cb_applylog (me_cb s) = Some f"
    and "\<And>u e i. fst (f u e i) \<noteq> RAFT_ERR_SHUTDOWN"
  shows "\<exists>s'. raft_apply_all ct s = Ok (0, s') \<and> last_applied_idx s' = commit_idx s \<and>
    commit_idx s' = commit_idx s \<and> log_of s' = log_of s \<and> members_of s' = members_of s \<and>
    election_of s' = election_of s \<and> me_state s' = me_state s \<and>
    udata s' = applied_to f (last_applied_idx s)
      (take (nat (commit_idx s - last_applied_idx s))
         (drop (nat (last_applied_idx s - dropped s)) (window s))) (udata s)"
  using apply_all_loop_run [OF assms, where ct = ct] assms(1)
  by (simp add: raft_apply_all_def apply_ready_def to_apply_def)

theorem raft_apply_all_spec_witness:
  "\<exists>s'. raft_apply_all ref_contiki (sample_server\<lparr>commit_idx := 2\<rparr>) = Ok (0, s') \<and>
     last_applied_idx s' = 2 \<and> udata s' = 2"
proof -
  let ?s = "sample_server\<lparr>commit_idx := 2\<rparr>"
  have "log_of ?s = log_of sample_server" by (simp add: views)
  note same = log_of_window [OF this]
  have "plain_log ?s"
    by (auto simp: plain_log_def pool_ok_def MAX_ENTRIES_def raft_entry_is_cfg_change_def)
  then have ready: "apply_ready ?s"
    using same by (simp add: apply_ready_def raft_snapshot_is_in_progress_def)
  have two: "nat 2 = Suc (Suc 0)" by simp
  show ?thesis
    using raft_apply_all_spec [OF ready, of "\<lambda>u e i. (0, u + 1)" ref_contiki] same
    by (auto simp: two numeral_2_eq_2)
qed

section \<open>What a tick keeps\<close>

text \<open>
  A tick changes neither log nor commit index nor configuration, obeys the rule of votes, and applies
  at most one entry, which is committed.
\<close>

definition ticked :: "'u raft_server \<Rightarrow> 'u raft_server \<Rightarrow> bool" where
  "ticked s s' \<longleftrightarrow>
     vote_step s s' \<and> log_of s' = log_of s \<and> config_of s' = config_of s \<and>
     commit_idx s' = commit_idx s \<and> last_applied_idx s \<le> last_applied_idx s' \<and>
     (last_applied_idx s \<le> commit_idx s \<longrightarrow> last_applied_idx s' \<le> commit_idx s)"

lemma ticked_refl [simp]: "ticked s s"
  by (simp add: ticked_def)

lemma ticked_trans: "ticked s t \<Longrightarrow> ticked t u \<Longrightarrow> ticked s u"
  by (auto simp: ticked_def intro: vote_step_trans)

definition apply_step :: "'u raft_server \<Rightarrow> 'u raft_server \<Rightarrow> bool" where
  "apply_step s s' \<longleftrightarrow>
     ticked s s' \<and> me_state s' = me_state s \<and> election_of s' = election_of s"

lemma apply_step_trans: "apply_step s t \<Longrightarrow> apply_step t u \<Longrightarrow> apply_step s u"
  by (auto simp: apply_step_def intro: ticked_trans)

lemma membership_apply_step: "membership_step s s' \<Longrightarrow> apply_step s s'"
  by (auto simp: membership_step_def apply_step_def ticked_def views vote_step_def)

lemma apply_cfg_frame: "post (apply_cfg ct s ety i) (\<lambda>(e, s'). apply_step s s')"
proof -
  have upd: "membership_step s (upd_node t a f)" if "membership_step s t" for t a f
    by (rule membership_step_trans [OF that upd_node_step])
  have con: "membership_step s (t\<lparr>connected := c\<rparr>)" if "membership_step s t" for t c
    using that by (simp add: membership_step_def views)
  have rem: "post (raft_remove_node ct t p) (membership_step s)" if "membership_step s t" for t p
    by (rule post_mono [OF raft_remove_node_frame]) (rule membership_step_trans [OF that])
  have "post (apply_cfg ct s ety i) (\<lambda>(e, s'). membership_step s s')"
    unfolding apply_cfg_def wp
    by (rule post_mono [OF call_log_get_node_id_frame])
       (auto simp: Let_def wp split: option.split intro!: upd con rem)
  then show ?thesis by (rule post_mono) (auto intro: membership_apply_step)
qed

lemma apply_finish_frame: "post (apply_finish ct s ety i) (\<lambda>(e, s'). apply_step s s')"
proof -
  have refl: "apply_step s s" by (simp add: apply_step_def)
  have step: "apply_step s (s\<lparr>voting_cfg_change_log_idx := -1\<rparr>)"
    by (simp add: apply_step_def ticked_def views vote_step_def)
  have "post (apply_cfg ct t ety i) (\<lambda>(e, s'). apply_step s s')" if "apply_step s t" for t
    by (rule post_mono [OF apply_cfg_frame]) (auto intro: apply_step_trans [OF that])
  then show ?thesis
    unfolding apply_finish_def using refl step by (simp add: Let_def wp)
qed

lemma raft_apply_entry_frame:
  assumes "last_applied_idx s < commit_idx s"
  shows "post (raft_apply_entry ct s) (\<lambda>(e, s'). apply_step s s')"
proof -
  have refl: "apply_step s s" by (simp add: apply_step_def)
  have step: "apply_step s (s\<lparr>last_applied_idx := last_applied_idx s + 1, udata := u\<rparr>)"
    "apply_step s (s\<lparr>last_applied_idx := last_applied_idx s + 1\<rparr>)" for u
    using assms by (simp_all add: apply_step_def ticked_def views vote_step_def)
  have "post (apply_finish ct t ety i) (\<lambda>(e, s'). apply_step s s')" if "apply_step s t" for t ety i
    by (rule post_mono [OF apply_finish_frame]) (auto intro: apply_step_trans [OF that])
  then show ?thesis
    unfolding raft_apply_entry_def using refl step
    by (simp add: Let_def wp case_prod_beta split: option.split)
qed

text \<open>An entry that does not change the configuration leaves the members alone.\<close>

lemma raft_apply_entry_members:
  assumes "plain_log s"
  shows "post (raft_apply_entry ct s) (\<lambda>(e, s'). members_of s' = members_of s)"
proof -
  have "\<not> raft_entry_is_cfg_change (entries_mem s a)" if "raft_get_entry_from_idx s i = Some a" for a i
    using that assms
    by (auto simp: raft_get_entry_from_idx_def log_get_at_idx_def find_idx_def find_Some_iff
        plain_log_def Let_def split: if_splits)
  then show ?thesis
    unfolding raft_apply_entry_def
    by (auto simp: Let_def wp case_prod_beta apply_finish_def views split: option.split)
qed

lemma leader_ticked: "leader_step s s' \<Longrightarrow> ticked s s'"
  by (simp add: leader_step_def ticked_def views vote_step_def)

lemma send_ticked: "send_step s s' \<Longrightarrow> ticked s s'"
  by (simp add: leader_ticked send_leader_step)

lemma periodic_single_frame: "post (periodic_single ct s) (ticked s)"
proof -
  have "ticked s (s\<lparr>current_leader := me_node s, me_state := RAFT_STATE_LEADER, timeout_elapsed := 0\<rparr>)"
    by (simp add: ticked_def views vote_step_def)
  then have "post (raft_become_leader ct s) (ticked s)"
    by (intro post_mono [OF raft_become_leader_same]) (auto intro: ticked_trans leader_ticked)
  then show ?thesis by (auto simp: periodic_single_def wp)
qed

lemma heartbeat_frame: "post (raft_send_appendentries_all ct s) (\<lambda>(e, s'). ticked s s')"
proof -
  have "ticked s (s\<lparr>timeout_elapsed := 0\<rparr>)" by (simp add: ticked_def views vote_step_def)
  then show ?thesis
    by (intro post_mono [OF raft_send_appendentries_all_frame]) (auto intro: ticked_trans send_ticked)
qed

lemma raft_election_start_frame: "post (raft_election_start ct s) (\<lambda>(e, s'). ticked s s')"
  unfolding raft_election_start_def
  by (rule post_mono [OF raft_become_candidate_same]) (auto simp: ticked_def views)

lemma periodic_timeout_frame: "post (periodic_timeout ct s) (\<lambda>(e, s'). ticked s s')"
  unfolding periodic_timeout_def
  by (auto simp: wp intro!: post_mono [OF heartbeat_frame] post_mono [OF raft_election_start_frame])

text \<open>A rule for the tick: what its four parts keep, the tick keeps.\<close>

lemma raft_periodic_rule:
  assumes "\<And>t. post (periodic_single ct (s\<lparr>timeout_elapsed := t\<rparr>)) R"
    and "\<And>t. R t \<Longrightarrow> post (periodic_timeout ct t) (\<lambda>(e, s'). R' s')"
    and "\<And>t. R' t \<Longrightarrow> last_applied_idx t < commit_idx t \<Longrightarrow> post (raft_apply_entry ct t) (\<lambda>(e, s'). R' s')"
  shows "post (raft_periodic ct s ms) (\<lambda>(e, s'). R' s')"
  unfolding raft_periodic_def
  by (auto simp: wp raft_get_commit_idx_def intro!: post_mono [OF assms(1)] post_mono [OF assms(2)]
      post_mono [OF assms(3)])

lemma raft_periodic_frame: "post (raft_periodic ct s ms) (\<lambda>(e, s'). ticked s s')"
proof (rule raft_periodic_rule)
  fix t
  have t: "ticked s (s\<lparr>timeout_elapsed := t\<rparr>)" by (simp add: ticked_def views vote_step_def)
  show "post (periodic_single ct (s\<lparr>timeout_elapsed := t\<rparr>)) (ticked s)"
    by (rule post_mono [OF periodic_single_frame]) (rule ticked_trans [OF t])
next
  fix t assume t: "ticked s t"
  show "post (periodic_timeout ct t) (\<lambda>(e, s'). ticked s s')"
    by (rule post_mono [OF periodic_timeout_frame]) (auto intro: ticked_trans [OF t])
  assume "last_applied_idx t < commit_idx t"
  then show "post (raft_apply_entry ct t) (\<lambda>(e, s'). ticked s s')"
    by (intro post_mono [OF raft_apply_entry_frame])
       (auto simp: apply_step_def intro: ticked_trans [OF t])
qed

section \<open>Roles and a tick\<close>

text \<open>
  With several voting nodes a tick makes nobody a leader.  Either the role is kept or lost, or an
  election starts: the server is a candidate of the next term that nobody has voted for yet.
\<close>

definition campaign :: "'u raft_server \<Rightarrow> 'u raft_server \<Rightarrow> bool" where
  "campaign s s' \<longleftrightarrow>
     me_state s' = RAFT_STATE_CANDIDATE \<and> current_term s' = current_term s + 1 \<and>
     (\<forall>a \<in> set (nodes_list s'). \<not> raft_node_has_vote_for_me (nodes_mem s' a))"

lemma raft_election_start_roles:
  "post (raft_election_start ct s) (\<lambda>(e, s'). same_voters s s' \<and> (quiet s s' \<or> campaign s s'))"
  unfolding raft_election_start_def
  by (rule post_mono [OF raft_become_candidate_same])
     (auto simp: campaign_def same_voters_def quiet_def views)

lemma raft_periodic_roles:
  assumes "raft_get_num_voting_nodes s \<noteq> 1" "plain_log s"
  shows "post (raft_periodic ct s ms) (\<lambda>(e, s'). same_voters s s' \<and> (quiet s s' \<or> campaign s s'))"
proof -
  let ?R = "\<lambda>s'. (\<exists>t. s' = s\<lparr>timeout_elapsed := t\<rparr>)"
  let ?R' = "\<lambda>s'. plain_log s' \<and> same_voters s s' \<and> (quiet s s' \<or> campaign s s')"
  have start: "post (periodic_timeout ct t) (\<lambda>(e, s'). ?R' s')" if "?R t" for t
  proof -
    from that obtain t0 where t: "t = s\<lparr>timeout_elapsed := t0\<rparr>" by blast
    then have eq: "same_voters t s' = same_voters s s'" "quiet t s' = quiet s s'"
      "campaign t s' = campaign s s'" for s'
      by (simp_all add: same_voters_def quiet_def campaign_def)
    have plain: "plain_log t" using t assms(2) by (simp add: plain_log_def pool_ok_def)
    have "post (periodic_timeout ct t) (\<lambda>(e, s'). same_voters t s' \<and> (quiet t s' \<or> campaign t s'))"
      unfolding periodic_timeout_def
      by (auto simp: wp intro!: post_mono [OF raft_send_appendentries_all_frame]
          post_mono [OF raft_election_start_roles])
        (auto simp: send_step_def same_voters_def quiet_def)
    from post_conj [OF this periodic_timeout_frame] show ?thesis
      by (rule post_mono) (use eq plain in \<open>auto simp: ticked_def intro: plain_log_cong [THEN iffD2]\<close>)
  qed
  have app: "post (raft_apply_entry ct t) (\<lambda>(e, s'). ?R' s')"
    if "?R' t" "last_applied_idx t < commit_idx t" for t
  proof (rule post_mono [OF post_conj [OF raft_apply_entry_frame raft_apply_entry_members]])
    fix x
    assume x: "(case x of (e, s') \<Rightarrow> apply_step t s') \<and>
      (case x of (e, s') \<Rightarrow> members_of s' = members_of t)"
    obtain e s' where [simp]: "x = (e, s')" by fastforce
    have same: "log_of s' = log_of t" "me_state s' = me_state t" "current_term s' = current_term t"
      "nodes_mem s' = nodes_mem t" "nodes_list s' = nodes_list t"
      using x by (simp_all add: apply_step_def ticked_def views)
    then have "plain_log s'" using that(1) plain_log_cong by blast
    moreover have "same_voters t s'" using x by (simp add: members_same_voters)
    ultimately show "case x of (e, s') \<Rightarrow> ?R' s'"
      using that(1) same(2-) by (auto intro: same_voters_trans simp: quiet_def campaign_def)
  qed (use that in auto)
  have single: "post (periodic_single ct (s\<lparr>timeout_elapsed := t\<rparr>)) ?R" for t
    using assms(1) by (auto simp: periodic_single_def wp raft_get_num_voting_nodes_def)
  show ?thesis
    by (rule post_mono [OF raft_periodic_rule [OF single start app]]) auto
qed

section \<open>Silence starts an election\<close>

text \<open>A number of ticks with no message in between.\<close>

fun ticks :: "contiki \<Rightarrow> nat \<Rightarrow> int \<Rightarrow> 'u raft_server \<Rightarrow> 'u raft_server result" where
  "ticks ct 0 ms s = Ok s"
| "ticks ct (Suc n) ms s = bind (raft_periodic ct s ms) (\<lambda>(_, s). ticks ct n ms s)"

lemma ticks_snoc: "ticks ct (Suc n) ms s = bind (ticks ct n ms s) (ticks ct (Suc 0) ms)"
proof (induction n arbitrary: s)
  case (Suc n)
  have "ticks ct (Suc (Suc n)) ms s = bind (raft_periodic ct s ms) (\<lambda>(_, s). ticks ct (Suc n) ms s)"
    by (rule ticks.simps(2))
  also have "\<dots> = bind (ticks ct (Suc n) ms s) (ticks ct (Suc 0) ms)"
    by (cases "raft_periodic ct s ms") (simp_all add: Suc.IH [symmetric] case_prod_beta)
  finally show ?case .
qed simp

text \<open>As long as a tick only advances the timer, the ticks reach the last one before it is due.\<close>

lemma ticks_until_due:
  assumes wait: "\<And>t. timeout_elapsed s \<le> t \<Longrightarrow> t + ms < due \<Longrightarrow>
      raft_periodic ct (s\<lparr>timeout_elapsed := t\<rparr>) ms = Ok (0, s\<lparr>timeout_elapsed := t + ms\<rparr>)"
    and "0 < ms" "timeout_elapsed s < due"
  shows "\<exists>n t. ticks ct n ms s = Ok (s\<lparr>timeout_elapsed := t\<rparr>) \<and> t = timeout_elapsed s + int n * ms \<and>
    t < due \<and> due \<le> t + ms"
proof -
  have run: "timeout_elapsed s + int n * ms < due \<Longrightarrow>
      ticks ct n ms s = Ok (s\<lparr>timeout_elapsed := timeout_elapsed s + int n * ms\<rparr>)" for n
  proof (induction n)
    case (Suc n)
    have "0 \<le> int n * ms" using assms(2) by simp
    with Suc assms(2) wait [of "timeout_elapsed s + int n * ms"] show ?case
      by (subst ticks_snoc) (simp add: algebra_simps)
  qed simp
  define q where "q = (due - 1 - timeout_elapsed s) div ms"
  have "q * ms + (due - 1 - timeout_elapsed s) mod ms = due - 1 - timeout_elapsed s"
    by (simp add: q_def)
  moreover have "0 \<le> (due - 1 - timeout_elapsed s) mod ms" "(due - 1 - timeout_elapsed s) mod ms < ms"
    using assms(2) by simp_all
  ultimately have q: "timeout_elapsed s + q * ms < due" "due \<le> timeout_elapsed s + q * ms + ms" by linarith+
  have "0 \<le> q" using assms(2,3) by (simp add: q_def pos_imp_zdiv_nonneg_iff)
  with q run [of "nat q"] show ?thesis by (intro exI [of _ "nat q"]) simp
qed

text \<open>
  A server that can stand for election: several active voting nodes, itself one of them, nothing left
  to apply, callbacks that store term and vote and can send.
\<close>

definition electable :: "'u raft_server \<Rightarrow> bool" where
  "electable s \<longleftrightarrow>
     1 < raft_get_num_voting_nodes s \<and>
     (\<exists>m. raft_get_my_node s = Some m \<and> raft_node_is_voting (nodes_mem s m)) \<and>
     \<not> raft_snapshot_is_in_progress s \<and> last_applied_idx s = commit_idx s \<and>
     persist_ok (me_cb s) \<and> cb_send_requestvote (me_cb s) \<noteq> None \<and>
     election_timeout s \<noteq> 0 \<and> in_int (current_term s + 1)"

lemma timer_reads [simp]:
  "raft_get_nodeid (s\<lparr>timeout_elapsed := t\<rparr>) = raft_get_nodeid s"
  "raft_get_my_node (s\<lparr>timeout_elapsed := t\<rparr>) = raft_get_my_node s"
  "raft_get_num_voting_nodes (s\<lparr>timeout_elapsed := t\<rparr>) = raft_get_num_voting_nodes s"
  by (simp_all add: raft_get_my_node_def raft_get_nodeid_def raft_get_num_voting_nodes_def
      cong: option.case_cong)

lemma electable_timer: "electable (s\<lparr>timeout_elapsed := t\<rparr>) = electable s"
  by (simp add: electable_def raft_snapshot_is_in_progress_def)

lemma raft_periodic_waits:
  assumes "electable s" "\<not> raft_is_leader s" "in_int (timeout_elapsed s + ms)"
    and "timeout_elapsed s + ms < election_timeout_rand s"
  shows "raft_periodic ct s ms = Ok (0, s\<lparr>timeout_elapsed := timeout_elapsed s + ms\<rparr>)"
proof -
  let ?s = "s\<lparr>timeout_elapsed := timeout_elapsed s + ms\<rparr>"
  have "electable ?s" using assms(1) electable_timer by blast
  then have "periodic_single ct ?s = Ok ?s" "periodic_timeout ct ?s = Ok (0, ?s)"
    "\<not> last_applied_idx ?s < raft_get_commit_idx ?s"
    using assms(2,4) by (simp_all add: electable_def periodic_single_def periodic_timeout_def
        raft_is_leader_def raft_get_state_def raft_get_commit_idx_def)
  with assms(3) show ?thesis by (simp add: raft_periodic_def c_int_in_int)
qed

lemma raft_periodic_elects:
  assumes "electable s" "\<not> raft_is_leader s" "in_int (timeout_elapsed s + ms)"
    and "election_timeout_rand s \<le> timeout_elapsed s + ms"
  shows "\<exists>s'. raft_periodic ct s ms = Ok (0, s') \<and> raft_is_candidate s' \<and>
    current_term s' = current_term s + 1 \<and> voted_for s' = raft_get_nodeid s"
proof -
  let ?s = "s\<lparr>timeout_elapsed := timeout_elapsed s + ms\<rparr>"
  have "electable ?s" using assms(1) electable_timer by blast
  then obtain m f where e: "1 < raft_get_num_voting_nodes ?s" "raft_get_my_node ?s = Some m"
    "raft_node_is_voting (nodes_mem ?s m)" "\<not> raft_snapshot_is_in_progress ?s"
    "last_applied_idx ?s = commit_idx ?s" "persist_ok (me_cb ?s)" "election_timeout ?s \<noteq> 0"
    "in_int (current_term ?s + 1)" "cb_send_requestvote (me_cb ?s) = Some f"
    by (auto simp: electable_def)
  from raft_become_candidate_run [OF e(6-9), of ct] obtain s'
    where c: "raft_become_candidate ct ?s = Ok (0, s')" and v: "voted_for s' = raft_get_nodeid s"
    by (auto simp: runs_def)
  from postD [OF raft_become_candidate_same c]
  have s': "current_term s' = current_term s + 1" "me_state s' = RAFT_STATE_CANDIDATE"
      "progress_of s' = progress_of s"
    by (auto simp: views)
  have "periodic_single ct ?s = Ok ?s" using e(1) by (simp add: periodic_single_def)
  moreover have "periodic_timeout ct ?s = Ok (0, s')"
    using e(1-4) c assms(2,4)
    by (simp add: periodic_timeout_def raft_is_leader_def raft_get_state_def raft_election_start_def)
  moreover have "\<not> last_applied_idx s' < raft_get_commit_idx s'"
    using s'(3) e(5) by (simp add: views raft_get_commit_idx_def)
  ultimately show ?thesis
    using assms(3) s' v
    by (simp add: raft_periodic_def c_int_in_int raft_is_candidate_def raft_get_state_def)
qed

text \<open>
  C36: A server that may stand for election starts one when it hears nothing.  It is not the leader, is
  a voting node among several, has no snapshot under way and nothing left to apply, its callbacks store
  term and vote and send vote requests, its next term and its timers are in the range of \<^verbatim>\<open>int\<close>, and its
  randomised timeout has not passed yet.  Then, after finitely many ticks of a positive length, no more
  than that timeout allows, it is a candidate of the next term that has voted for itself, and no tick on
  the way faults.
\<close>

theorem silence_starts_election:
  assumes "electable s" "\<not> raft_is_leader s" "0 < ms" "0 \<le> timeout_elapsed s"
    and "timeout_elapsed s < election_timeout_rand s" "election_timeout_rand s + ms \<le> INT_MAX"
  shows "\<exists>n s'. ticks ct n ms s = Ok s' \<and> raft_is_candidate s' \<and>
    current_term s' = current_term s + 1 \<and> voted_for s' = raft_get_nodeid s \<and>
    (int n - 1) * ms < election_timeout_rand s - timeout_elapsed s"
proof -
  have el: "electable (s\<lparr>timeout_elapsed := t\<rparr>)" "\<not> raft_is_leader (s\<lparr>timeout_elapsed := t\<rparr>)" for t
    using assms(1,2) electable_timer by (blast, simp add: raft_is_leader_def raft_get_state_def)
  have rng: "0 \<le> t \<Longrightarrow> t < election_timeout_rand s \<Longrightarrow> in_int (t + ms)" for t
    using assms(3,6) by (simp add: in_int_iff INT_MAX_def)
  have "raft_periodic ct (s\<lparr>timeout_elapsed := t\<rparr>) ms = Ok (0, s\<lparr>timeout_elapsed := t + ms\<rparr>)"
    if "timeout_elapsed s \<le> t" "t + ms < election_timeout_rand s" for t
    using raft_periodic_waits [OF el, of t ms ct] rng [of t] that assms(3,4) by simp
  from ticks_until_due [OF this assms(3,5)] obtain n t
    where n: "ticks ct n ms s = Ok (s\<lparr>timeout_elapsed := t\<rparr>)" "t = timeout_elapsed s + int n * ms"
      and t: "t < election_timeout_rand s" "election_timeout_rand s \<le> t + ms" by blast
  have "0 \<le> t" using n(2) assms(3,4) by simp
  with raft_periodic_elects [OF el, of t ms ct] rng [of t] t obtain s'
    where "raft_periodic ct (s\<lparr>timeout_elapsed := t\<rparr>) ms = Ok (0, s')"
      and s': "raft_is_candidate s'" "current_term s' = current_term s + 1" "voted_for s' = raft_get_nodeid s"
    by auto
  with n(1) have "ticks ct (Suc n) ms s = Ok s'" by (subst ticks_snoc) simp
  with s' n(2) t(1) show ?thesis by (intro exI [of _ "Suc n"] exI [of _ s']) simp
qed

theorem silence_starts_election_witness:
  "\<exists>n s'. ticks ref_contiki n 100 sample_server = Ok s' \<and> raft_is_candidate s' \<and>
     current_term s' = 2 \<and> voted_for s' = 1 \<and> n \<le> 15"
proof -
  have "raft_get_my_node sample_server = Some 0" "raft_get_nodeid sample_server = 1"
    "raft_get_num_voting_nodes sample_server = 3" "raft_node_is_voting (nodes_mem sample_server 0)"
    by (simp_all add: raft_get_my_node_def raft_get_nodeid_def node_get_defs
        raft_get_num_voting_nodes_def node_read_defs)
  moreover from this have "electable sample_server"
    by (simp add: electable_def raft_snapshot_is_in_progress_def persist_ok_def in_int_iff)
  ultimately show ?thesis
    using silence_starts_election [of sample_server 100 ref_contiki]
    by (force simp: raft_is_leader_def raft_get_state_def INT_MAX_def)
qed

text \<open>A tick of a leader with nothing left to apply: it waits, or sends a round of heartbeats.\<close>

definition settled_leader :: "'u raft_server \<Rightarrow> bool" where
  "settled_leader s \<longleftrightarrow>
     raft_is_leader s \<and> raft_get_my_node s \<noteq> None \<and> last_applied_idx s = commit_idx s"

lemma periodic_single_leader:
  "settled_leader s \<Longrightarrow> periodic_single ct (s\<lparr>timeout_elapsed := t\<rparr>) = Ok (s\<lparr>timeout_elapsed := t\<rparr>)"
  by (auto simp: settled_leader_def periodic_single_def raft_is_leader_def raft_get_state_def)

lemma leader_tick_waits:
  assumes "settled_leader s" "in_int (t + ms)" "t + ms < request_timeout s"
  shows "raft_periodic ct (s\<lparr>timeout_elapsed := t\<rparr>) ms = Ok (0, s\<lparr>timeout_elapsed := t + ms\<rparr>)"
  using assms periodic_single_leader [OF assms(1)]
  by (simp add: raft_periodic_def c_int_in_int periodic_timeout_def settled_leader_def raft_is_leader_def
      raft_get_state_def raft_get_commit_idx_def)

text \<open>
  C37: A leader that hears nothing sends heartbeats.  After finitely many ticks of a positive length,
  no more than the request timeout allows, it has sent every active peer exactly one message, with the
  entries from that peer's next index on, and starts to wait again; nothing else changes, and no tick on
  the way faults.  The leader has nothing left to apply, and no peer needs an entry that the log gave up.
\<close>

theorem leader_heartbeats:
  assumes "contiki_ok ct" "log_wf s" "snapshot_last_idx s = 0"
    and "cb_send_appendentries (me_cb s) = Some f" "\<forall>u n m. fst (f u n m) = 0"
    and "\<forall>a \<in> set (nodes_list s). is_peer s a \<longrightarrow> dropped s < next_idx (nodes_mem s a)"
    and "settled_leader s" "0 < ms" "0 \<le> timeout_elapsed s" "timeout_elapsed s < request_timeout s"
    and "request_timeout s + ms \<le> INT_MAX"
  shows "\<exists>n. (int n - 1) * ms < request_timeout s - timeout_elapsed s \<and>
    ticks ct n ms s = Ok (s\<lparr>timeout_elapsed := 0,
      udata := fold (\<lambda>a u. snd (f u (nodes_mem s a) (ae_for s a)))
                 (filter (is_peer s) (nodes_list s)) (udata s)\<rparr>)"
proof -
  have rng: "0 \<le> t \<Longrightarrow> t < request_timeout s \<Longrightarrow> in_int (t + ms)" for t
    using assms(8,11) by (simp add: in_int_iff INT_MAX_def)
  have "raft_periodic ct (s\<lparr>timeout_elapsed := t\<rparr>) ms = Ok (0, s\<lparr>timeout_elapsed := t + ms\<rparr>)"
    if "timeout_elapsed s \<le> t" "t + ms < request_timeout s" for t
    using leader_tick_waits [OF assms(7) rng] that assms(8,9) by simp
  from ticks_until_due [OF this assms(8,10)] obtain n t
    where n: "ticks ct n ms s = Ok (s\<lparr>timeout_elapsed := t\<rparr>)" "t = timeout_elapsed s + int n * ms"
      and t: "t < request_timeout s" "request_timeout s \<le> t + ms" by blast
  have "0 \<le> t" using n(2) assms(8,9) by simp
  with rng t(1) have "in_int (t + ms)" by blast
  moreover note raft_send_appendentries_all_at [OF assms(1-6), of "t + ms"]
  ultimately have "raft_periodic ct (s\<lparr>timeout_elapsed := t\<rparr>) ms = Ok (0, s\<lparr>timeout_elapsed := 0,
      udata := fold (\<lambda>a u. snd (f u (nodes_mem s a) (ae_for s a)))
                 (filter (is_peer s) (nodes_list s)) (udata s)\<rparr>)"
    using assms(7) t(2) periodic_single_leader [OF assms(7)]
    by (simp add: raft_periodic_def c_int_in_int periodic_timeout_def settled_leader_def raft_is_leader_def
      raft_get_state_def raft_get_commit_idx_def)
  with n(1) have "ticks ct (Suc n) ms s = Ok (s\<lparr>timeout_elapsed := 0,
      udata := fold (\<lambda>a u. snd (f u (nodes_mem s a) (ae_for s a)))
                 (filter (is_peer s) (nodes_list s)) (udata s)\<rparr>)" by (subst ticks_snoc) simp
  with n(2) t(1) show ?thesis by (intro exI [of _ "Suc n"]) simp
qed

theorem leader_heartbeats_witness:
  "\<exists>n s'. n \<le> 2 \<and> ticks ref_contiki n 100 sample_leader = Ok s' \<and> timeout_elapsed s' = 0 \<and> udata s' = 2"
proof -
  have "settled_leader sample_leader"
    by (simp add: settled_leader_def raft_is_leader_def raft_get_state_def raft_get_my_node_def
        raft_get_nodeid_def node_get_defs sample_leader_def)
  moreover have "request_timeout sample_leader = 200" "timeout_elapsed sample_leader = 0"
    "dropped sample_leader = 0" "udata sample_leader = 0"
    by (simp_all add: sample_leader_def dropped_def)
  ultimately obtain n where "(int n - 1) * 100 < 200"
    "ticks ref_contiki n 100 sample_leader = Ok (sample_leader\<lparr>timeout_elapsed := 0, udata := 2\<rparr>)"
    using leader_heartbeats [OF ref_contiki_ok sample_leader_log(1), of "\<lambda>u n m. (0, u + 1)" 100]
    by (auto simp: is_peer_def node_read_defs INT_MAX_def)
  then show ?thesis by (intro exI [of _ n] exI [of _ "sample_leader\<lparr>timeout_elapsed := 0, udata := 2\<rparr>"]) simp
qed

end
