(* ===== verification/Raft_Steps.thy ===== *)
theory Raft_Steps
  imports Raft_Server
begin

text \<open>
  A server as a state machine: one step per entry point of \<^verbatim>\<open>src/raft_server.c\<close> that the driver of
  the library calls, in any order and with any arguments.  The invariants hold in every state that a
  sequence of such steps can reach.
\<close>

section \<open>Steps\<close>

text \<open>
  What arrives at a server, with the identifier of the sender where there is one, and what the call
  hands back to be sent.  As in \<^verbatim>\<open>app/main.c\<close>, the sender's node is looked up by its identifier.
\<close>

datatype server_input =
    Tick int
  | Apply_All
  | Requestvote int msg_requestvote
  | Requestvote_Response int msg_requestvote_response
  | Appendentries int msg_appendentries
  | Appendentries_Response int msg_appendentries_response
  | Client_Entry raft_entry msg_entry_response

datatype server_output =
    No_Output
  | Vote_Reply msg_requestvote_response
  | Append_Reply msg_appendentries_response
  | Client_Reply msg_entry_response

inductive server_step ::
  "contiki \<Rightarrow> 'u raft_server \<Rightarrow> server_input \<Rightarrow> server_output \<Rightarrow> 'u raft_server \<Rightarrow> bool"
  for ct :: contiki where
  tick: "raft_periodic ct s ms = Ok (e, s') \<Longrightarrow> server_step ct s (Tick ms) No_Output s'"
| apply_all: "raft_apply_all ct s = Ok (e, s') \<Longrightarrow> server_step ct s Apply_All No_Output s'"
| requestvote:
    "raft_recv_requestvote ct s (raft_get_node s sender) vr = Ok (e, r, s') \<Longrightarrow>
     server_step ct s (Requestvote sender vr) (Vote_Reply r) s'"
| requestvote_response:
    "raft_recv_requestvote_response ct s (raft_get_node s sender) r = Ok (e, s') \<Longrightarrow>
     server_step ct s (Requestvote_Response sender r) No_Output s'"
| appendentries:
    "raft_recv_appendentries ct s (raft_get_node s sender) ae = Ok (e, ar, s') \<Longrightarrow>
     server_step ct s (Appendentries sender ae) (Append_Reply ar) s'"
| appendentries_response:
    "raft_recv_appendentries_response ct s (raft_get_node s sender) ar = Ok (e, s') \<Longrightarrow>
     server_step ct s (Appendentries_Response sender ar) No_Output s'"
| client_entry:
    "raft_recv_entry ct s ety cr = Ok (e, ety', cr', s') \<Longrightarrow>
     server_step ct s (Client_Entry ety cr) (Client_Reply cr') s'"

inductive_cases tickE: "server_step ct s (Tick ms) out s'"
inductive_cases apply_allE: "server_step ct s Apply_All out s'"
inductive_cases requestvoteE: "server_step ct s (Requestvote sender vr) out s'"
inductive_cases requestvote_responseE: "server_step ct s (Requestvote_Response sender r) out s'"
inductive_cases appendentriesE: "server_step ct s (Appendentries sender ae) out s'"
inductive_cases appendentries_responseE: "server_step ct s (Appendentries_Response sender ar) out s'"
inductive_cases client_entryE: "server_step ct s (Client_Entry ety cr) out s'"

lemmas server_stepE = tickE apply_allE requestvoteE requestvote_responseE appendentriesE
  appendentries_responseE client_entryE

text \<open>The step relation is a function: the call that the input stands for, with its result.\<close>

definition run_step ::
  "contiki \<Rightarrow> 'u raft_server \<Rightarrow> server_input \<Rightarrow> (server_output \<times> 'u raft_server) result" where
  "run_step ct s inp =
     (case inp of
        Tick ms \<Rightarrow> bind (raft_periodic ct s ms) (\<lambda>(e, s'). Ok (No_Output, s'))
      | Apply_All \<Rightarrow> bind (raft_apply_all ct s) (\<lambda>(e, s'). Ok (No_Output, s'))
      | Requestvote sender vr \<Rightarrow>
          bind (raft_recv_requestvote ct s (raft_get_node s sender) vr) (\<lambda>(e, r, s'). Ok (Vote_Reply r, s'))
      | Requestvote_Response sender r \<Rightarrow>
          bind (raft_recv_requestvote_response ct s (raft_get_node s sender) r) (\<lambda>(e, s'). Ok (No_Output, s'))
      | Appendentries sender ae \<Rightarrow>
          bind (raft_recv_appendentries ct s (raft_get_node s sender) ae) (\<lambda>(e, r, s'). Ok (Append_Reply r, s'))
      | Appendentries_Response sender ar \<Rightarrow>
          bind (raft_recv_appendentries_response ct s (raft_get_node s sender) ar) (\<lambda>(e, s'). Ok (No_Output, s'))
      | Client_Entry ety cr \<Rightarrow>
          bind (raft_recv_entry ct s ety cr) (\<lambda>(e, ety', cr', s'). Ok (Client_Reply cr', s')))"

lemma run_step_iff: "run_step ct s inp = Ok (out, s') \<longleftrightarrow> server_step ct s inp out s'"
  by (cases inp) (auto simp: run_step_def split: result.splits elim: server_stepE intro: server_step.intros)

inductive server_reach :: "contiki \<Rightarrow> 'u raft_server \<Rightarrow> 'u raft_server \<Rightarrow> bool"
  for ct :: contiki and s :: "'u raft_server" where
  start: "server_reach ct s s"
| step: "server_reach ct s t \<Longrightarrow> server_step ct t inp out t' \<Longrightarrow> server_reach ct s t'"

section \<open>Frames of the remaining entry points\<close>

lemma apply_all_loop_rule:
  assumes "I s" and "\<And>t. I t \<Longrightarrow> last_applied_idx t < commit_idx t \<Longrightarrow>
    post (raft_apply_entry ct t) (\<lambda>(e, t'). I t')"
  shows "post (apply_all_loop ct s) (\<lambda>(e, s'). I s')"
  using assms(1)
proof (induction "nat (commit_idx s - last_applied_idx s)" arbitrary: s rule: less_induct)
  case less
  show ?case
  proof (cases "last_applied_idx s < commit_idx s")
    case lt: True
    show ?thesis
    proof (rule postI, clarify)
      fix e s'
      assume run: "apply_all_loop ct s = Ok (e, s')"
      from lt run obtain e1 s1 where s1: "raft_apply_entry ct s = Ok (e1, s1)"
        and rest: "if e1 \<noteq> 0 then (e, s') = (e1, s1) else apply_all_loop ct s1 = Ok (e, s')"
        by (subst (asm) apply_all_loop.simps)
           (auto simp: raft_get_last_applied_idx_def raft_get_commit_idx_def split: result.splits if_splits)
      have I1: "I s1" using postD [OF assms(2) [OF less.prems lt] s1] by simp
      show "I s'"
      proof (cases "e1 = 0")
        case True
        then have "last_applied_idx s1 = last_applied_idx s + 1" "commit_idx s1 = commit_idx s"
          using postD [OF raft_apply_entry_progress s1] by auto
        then have "post (apply_all_loop ct s1) (\<lambda>(e, s'). I s')"
          using lt I1 by (intro less.hyps) simp_all
        with True rest show ?thesis by (auto dest: postD)
      next
        case False
        with rest I1 show ?thesis by simp
      qed
    qed
  next
    case False
    with less.prems show ?thesis
      by (subst apply_all_loop.simps)
         (simp add: raft_get_last_applied_idx_def raft_get_commit_idx_def wp)
  qed
qed

lemma raft_apply_all_frame: "post (raft_apply_all ct s) (\<lambda>(e, s'). apply_step s s')"
proof -
  have refl: "apply_step s s" by (simp add: apply_step_def)
  have "post (raft_apply_entry ct t) (\<lambda>(e, t'). apply_step s t')"
    if "apply_step s t" "last_applied_idx t < commit_idx t" for t
    by (rule post_mono [OF raft_apply_entry_frame [OF that(2)]]) (auto intro: apply_step_trans [OF that(1)])
  from apply_all_loop_rule [of "apply_step s", OF refl this] refl show ?thesis
    by (simp add: raft_apply_all_def wp)
qed

lemma raft_apply_all_members:
  assumes "plain_log s"
  shows "post (raft_apply_all ct s) (\<lambda>(e, s'). members_of s' = members_of s)"
proof -
  let ?I = "\<lambda>t. plain_log t \<and> members_of t = members_of s"
  have "post (raft_apply_entry ct t) (\<lambda>(e, t'). ?I t')"
    if "?I t" "last_applied_idx t < commit_idx t" for t
    using that(1) plain_log_cong
    by (intro post_mono [OF post_conj [OF raft_apply_entry_frame [OF that(2)] raft_apply_entry_members]])
       (auto simp: apply_step_def ticked_def)
  then have "post (apply_all_loop ct s) (\<lambda>(e, s'). ?I s')"
    using assms by (intro apply_all_loop_rule) auto
  then show ?thesis by (auto simp: raft_apply_all_def wp elim!: post_mono)
qed

text \<open>An invariant of the parts of the follower's handler is one of the handler.\<close>

lemma appendentries_rule:
  assumes s: "I s"
    and commit: "\<And>t c. I t \<Longrightarrow> I (t\<lparr>commit_idx := c\<rparr>)"
    and lead: "\<And>t. I t \<Longrightarrow> I (t\<lparr>current_leader := node, timeout_elapsed := 0\<rparr>)"
    and terms: "I (snd (raft_set_current_term s (ae_term ae)))"
    and follow: "\<And>t. I t \<Longrightarrow> post (raft_become_follower ct t) I"
    and del: "\<And>t i. I t \<Longrightarrow> post (raft_delete_entry_from_idx ct t i) (\<lambda>(e, t'). I t')"
    and app: "\<And>t x. I t \<Longrightarrow> x \<in> set (entries ae) \<Longrightarrow> post (raft_append_entry ct t x) (\<lambda>(c, e', t'). I t')"
  shows "post (raft_recv_appendentries ct s node ae) (\<lambda>(e, r, s'). I s')"
proof -
  have commit: "post (ae_commit t ae) I" if "I t" for t
    by (rule post_mono [OF ae_commit_frame]) (metis commit that)
  have out: "post (ae_out t ae e c k) (\<lambda>(e, r, s'). I s')" if "I t" for t e c k
    using that by (auto intro!: post_mono [OF ae_out_frame])
  have scan: "post (ae_scan ct ae 0 (entries ae) k t) (\<lambda>(r, cur', s'). I s' \<and>
      (\<forall>j rest. r = Go_On j rest \<longrightarrow> set rest \<subseteq> set (entries ae)))" if "I t" for k t
    using ae_scan_rule [of I, OF that del] .
  have append: "post (ae_append ct ae i ety k t) (\<lambda>(r, cur', s'). I s')"
    if "I t" "set ety \<subseteq> set (entries ae)" for i ety k t
    using that by (intro ae_append_rule [of I, OF _ app]) auto
  have entries: "post (ae_entries ct t ae) (\<lambda>(e, r, s'). I s')" if "I t" for t
    unfolding ae_entries_def
    using that by (auto simp: wp split: scan_end.split intro!: post_mono [OF scan] post_mono [OF append]
        post_mono [OF commit] out) (blast dest: subsetD)
  have check: "post (ae_check ct t node ae) (\<lambda>(e, r, s'). I s')" if "I t" for t
    using lead [OF that] unfolding ae_check_def Let_def
    by (auto simp: wp split: option.split intro!: out entries post_mono [OF del])
  show ?thesis
    using terms unfolding raft_recv_appendentries_def
    by (auto simp: wp Let_def case_prod_beta intro!: out check post_mono [OF follow] s)
qed

text \<open>
  An invariant of log and members that every append and every deletion keeps is kept by the follower's
  handler, and by the leader's handler of client entries.
\<close>

definition log_invariant :: "('u raft_server \<Rightarrow> bool) \<Rightarrow> bool" where
  "log_invariant I \<longleftrightarrow>
     (\<forall>s t. log_of t = log_of s \<and> members_of t = members_of s \<and> I s \<longrightarrow> I t)"

lemma log_invariantD:
  "log_invariant I \<Longrightarrow> I s \<Longrightarrow> log_of t = log_of s \<Longrightarrow> members_of t = members_of s \<Longrightarrow> I t"
  unfolding log_invariant_def by blast

lemma raft_recv_appendentries_rule:
  assumes inv: "log_invariant I" and s: "I s"
    and del: "\<And>t i. I t \<Longrightarrow> post (raft_delete_entry_from_idx ct t i) (\<lambda>(e, t'). I t')"
    and app: "\<And>t x. I t \<Longrightarrow> x \<in> set (entries ae) \<Longrightarrow> post (raft_append_entry ct t x) (\<lambda>(c, e', t'). I t')"
  shows "post (raft_recv_appendentries ct s node ae) (\<lambda>(e, r, s'). I s')"
proof (rule appendentries_rule [OF s _ _ _ _ del app])
  show "I (snd (raft_set_current_term s (ae_term ae)))"
  proof (rule log_invariantD [OF inv s])
    obtain e t where st: "raft_set_current_term s (ae_term ae) = (e, t)" by fastforce
    from raft_set_current_term_spec [OF st]
    show "log_of (snd (raft_set_current_term s (ae_term ae))) = log_of s"
      "members_of (snd (raft_set_current_term s (ae_term ae))) = members_of s" by (simp_all add: st)
  qed
  show "post (raft_become_follower ct t) I" if "I t" for t
    by (rule post_mono [OF raft_become_follower_same]) (auto intro: log_invariantD [OF inv that])
qed (auto intro: log_invariantD [OF inv] simp: views)

lemma raft_recv_entry_rule:
  assumes inv: "log_invariant I" and s: "I s"
    and app: "\<And>t. I t \<Longrightarrow> post (raft_append_entry ct t (ety\<lparr>ety_term := to_unsigned (current_term t)\<rparr>))
      (\<lambda>(c, e', t'). I t')"
  shows "post (raft_recv_entry ct s ety r) (\<lambda>(e, ety', r', s'). I s')"
proof -
  have push: "post (foreach (push_entry ct) xs t) I" if "I t" for xs t
    by (rule post_mono [OF push_loop_frame])
       (auto intro: log_invariantD [OF inv that] simp: send_step_same)
  have commit: "post (raft_set_commit_idx t k) I" if "I t" for t k
    by (rule post_mono [OF raft_set_commit_idx_frame])
       (auto intro: log_invariantD [OF inv that] simp: views)
  have cfg: "I (t\<lparr>voting_cfg_change_log_idx := k\<rparr>)" if "I t" for t k
    by (rule log_invariantD [OF inv that]) (simp_all add: views)
  show ?thesis
    unfolding raft_recv_entry_def
    by (auto simp: wp Let_def case_prod_beta s cfg intro!: post_mono [OF app] post_mono [OF push]
        post_mono [OF commit])
qed

section \<open>The rule of every step\<close>

text \<open>
  Term and vote obey the rule of elections, the commit index and the applied index do not decrease,
  and what is applied is committed.
\<close>

definition server_progress :: "'u raft_server \<Rightarrow> 'u raft_server \<Rightarrow> bool" where
  "server_progress s s' \<longleftrightarrow>
     vote_step s s' \<and> config_of s' = config_of s \<and> commit_idx s \<le> commit_idx s' \<and>
     last_applied_idx s \<le> last_applied_idx s' \<and>
     (last_applied_idx s \<le> commit_idx s \<longrightarrow> last_applied_idx s' \<le> commit_idx s')"

lemma progress_refl [simp]: "server_progress s s"
  by (simp add: server_progress_def)

lemma progress_trans: "server_progress s t \<Longrightarrow> server_progress t u \<Longrightarrow> server_progress s u"
  by (auto simp: server_progress_def intro: vote_step_trans)

lemma progress_intros:
  "ticked s s' \<Longrightarrow> server_progress s s'"
  "apply_step s s' \<Longrightarrow> server_progress s s'"
  "answered s s' \<Longrightarrow> server_progress s s'"
  "vote_handled s node r s' \<Longrightarrow> server_progress s s'"
  "handled s s' \<Longrightarrow> server_progress s s'"
  "peer_step s s' \<Longrightarrow> server_progress s s'"
  by (auto simp: server_progress_def ticked_def apply_step_def answered_def vote_handled_def handled_def
      msg_step_def peer_step_def views)

lemma server_step_progress: "server_step ct s inp out s' \<Longrightarrow> server_progress s s'"
  by (cases rule: server_step.cases, assumption)
     (auto intro: progress_intros dest!: postD [OF raft_periodic_frame] postD [OF raft_apply_all_frame]
       postD [OF raft_recv_requestvote_frame] postD [OF raft_recv_requestvote_response_frame]
       postD [OF raft_recv_appendentries_frame] postD [OF raft_recv_appendentries_response_frame]
       postD [OF raft_recv_entry_frame])

lemma server_reach_progress: "server_reach ct s s' \<Longrightarrow> server_progress s s'"
  by (induction rule: server_reach.induct) (auto intro: progress_trans server_step_progress)

section \<open>The pool of entries\<close>

lemma log_delete_pool:
  assumes "contiki_ok ct" "pool_ok s"
  shows "post (log_delete ct s i) (\<lambda>(c, s'). pool_ok s')"
proof -
  have "a < MAX_ENTRIES" if "find_idx (entries_mem s) (entries_list (me_log s)) j = Some a" for a j
    using that assms(2) by (auto simp: find_idx_def find_Some_iff pool_ok_def)
  with assms show ?thesis
    unfolding log_delete_def
    by (auto simp: wp Let_def case_prod_beta contiki_simps pool_ok_def membership_step_def views
        split: option.split intro!: post_mono [OF raft_pop_log_frame])
qed

lemma pool_log_invariant: "log_invariant pool_ok"
  by (auto simp: log_invariant_def pool_ok_def views)

lemma append_pool:
  assumes "contiki_ok ct" "pool_ok s"
  shows "post (raft_append_entry ct s e) (\<lambda>(c, e', s'). pool_ok s')"
  unfolding raft_append_entry_def Let_def
  by (rule post_mono [OF log_append_entry_pool [OF assms(1)]]) (use assms(2) in \<open>auto simp: pool_ok_def\<close>)

lemma delete_pool:
  assumes "contiki_ok ct" "pool_ok s"
  shows "post (raft_delete_entry_from_idx ct s i) (\<lambda>(c, s'). pool_ok s')"
  unfolding raft_delete_entry_from_idx_def Let_def
  using assms(2) by (auto simp: wp pool_ok_def intro!: log_delete_pool [OF assms(1), unfolded pool_ok_def])

text \<open>Only the two handlers that carry entries write the log.\<close>

lemma server_step_log:
  assumes "server_step ct s inp out s'"
    and "\<And>sender ae. inp \<noteq> Appendentries sender ae" "\<And>ety cr. inp \<noteq> Client_Entry ety cr"
  shows "log_of s' = log_of s"
  using assms(1)
  by cases
     (use assms(2,3) in \<open>auto simp: ticked_def apply_step_def answered_def vote_handled_def peer_step_def
       dest!: postD [OF raft_periodic_frame] postD [OF raft_apply_all_frame]
       postD [OF raft_recv_requestvote_frame] postD [OF raft_recv_requestvote_response_frame]
       postD [OF raft_recv_appendentries_response_frame]\<close>)

lemma server_step_pool:
  assumes "contiki_ok ct" "server_step ct s inp out s'" "pool_ok s"
  shows "pool_ok s'"
proof (cases inp)
  case (Appendentries sender ae)
  with assms(2) obtain e ar where "raft_recv_appendentries ct s (raft_get_node s sender) ae = Ok (e, ar, s')"
    by (auto elim: appendentriesE)
  from postD [OF raft_recv_appendentries_rule [OF pool_log_invariant assms(3)
        delete_pool [OF assms(1)] append_pool [OF assms(1)]] this]
  show ?thesis by simp
next
  case (Client_Entry ety cr)
  with assms(2) obtain e ety' cr' where "raft_recv_entry ct s ety cr = Ok (e, ety', cr', s')"
    by (auto elim: client_entryE)
  from postD [OF raft_recv_entry_rule [OF pool_log_invariant assms(3) append_pool [OF assms(1)]] this]
  show ?thesis by simp
qed (use server_step_log [OF assms(2)] assms(3) in \<open>simp_all add: pool_ok_def views\<close>)

lemma server_reach_pool:
  "server_reach ct s s' \<Longrightarrow> contiki_ok ct \<Longrightarrow> pool_ok s \<Longrightarrow> pool_ok s'"
  by (induction rule: server_reach.induct) (auto intro: server_step_pool)

section \<open>Without configuration changes\<close>

text \<open>
  When no entry of the log and of the messages changes the configuration, the voting nodes stay the
  same, and a step changes the role in one of three ways: quietly, by starting an election, or by
  counting a vote.
\<close>

definition plain_input :: "server_input \<Rightarrow> bool" where
  "plain_input inp \<longleftrightarrow>
     (\<forall>sender ae. inp = Appendentries sender ae \<longrightarrow>
        (\<forall>e \<in> set (entries ae). \<not> raft_entry_is_cfg_change e)) \<and>
     (\<forall>ety cr. inp = Client_Entry ety cr \<longrightarrow> \<not> raft_entry_is_cfg_change ety)"

lemma plain_input_code [code]:
  "plain_input inp \<longleftrightarrow>
     (case inp of
        Appendentries sender ae \<Rightarrow> list_all (\<lambda>e. \<not> raft_entry_is_cfg_change e) (entries ae)
      | Client_Entry ety cr \<Rightarrow> \<not> raft_entry_is_cfg_change ety
      | _ \<Rightarrow> True)"
  by (cases inp) (auto simp: plain_input_def list_all_iff)

definition plain_since :: "'u raft_server \<Rightarrow> 'u raft_server \<Rightarrow> bool" where
  "plain_since s t \<longleftrightarrow> plain_log t \<and> members_of t = members_of s"

lemma plain_since_invariant: "log_invariant (plain_since s)"
  by (auto simp: log_invariant_def plain_since_def intro: plain_log_cong [THEN iffD2])

lemma append_plain_since:
  assumes "contiki_ok ct" "plain_since s t" "\<not> raft_entry_is_cfg_change e"
  shows "post (raft_append_entry ct t e) (\<lambda>(c, e', t'). plain_since s t')"
  using log_append_entry_plain [OF assms(1) _ assms(3), of t] assms(2)
  by (auto simp: raft_append_entry_plain [OF assms(3)] plain_since_def elim!: post_mono)

lemma delete_plain_since:
  assumes "contiki_ok ct" "plain_since s t"
  shows "post (raft_delete_entry_from_idx ct t i) (\<lambda>(c, t'). plain_since s t')"
proof -
  have "post (log_delete ct t' i) (\<lambda>(c, t'). plain_since s t')" if "plain_since s t'" for t'
    using log_delete_plain [OF assms(1), of t' i] that by (auto simp: plain_since_def elim!: post_mono)
  moreover have "plain_since s (t\<lparr>voting_cfg_change_log_idx := -1\<rparr>)"
    by (rule log_invariantD [OF plain_since_invariant assms(2)]) (simp_all add: views)
  ultimately show ?thesis
    using assms(2) by (simp add: raft_delete_entry_from_idx_def wp Let_def)
qed

lemma appendentries_plain_since:
  assumes "contiki_ok ct" "plain_log s" "\<forall>e \<in> set (entries ae). \<not> raft_entry_is_cfg_change e"
  shows "post (raft_recv_appendentries ct s node ae) (\<lambda>(e, r, s'). plain_since s s')"
  using assms(2,3)
  by (intro raft_recv_appendentries_rule plain_since_invariant delete_plain_since append_plain_since assms(1))
     (auto simp: plain_since_def)

lemma recv_entry_plain_since:
  assumes "contiki_ok ct" "plain_log s" "\<not> raft_entry_is_cfg_change ety"
  shows "post (raft_recv_entry ct s ety cr) (\<lambda>(e, ety', cr', s'). plain_since s s')"
  using assms(2,3)
  by (intro raft_recv_entry_rule plain_since_invariant append_plain_since assms(1))
     (auto simp: plain_since_def)

lemma server_step_plain:
  assumes "contiki_ok ct" "server_step ct s inp out s'" "plain_log s" "plain_input inp"
  shows "plain_log s'"
  using assms(2)
proof cases
  case (appendentries sender ae e ar)
  with postD [OF appendentries_plain_since [OF assms(1,3)]] assms(4) show ?thesis
    by (auto simp: plain_since_def plain_input_def)
next
  case (client_entry ety cr e ety' cr')
  with postD [OF recv_entry_plain_since [OF assms(1,3)]] assms(4) show ?thesis
    by (auto simp: plain_since_def plain_input_def)
qed (use server_step_log [OF assms(2)] assms(3) plain_log_cong [of s' s] in simp_all)

lemma handled_quiet: "handled s s' \<Longrightarrow> members_of s' = members_of s \<Longrightarrow> quiet s s' \<and> same_voters s s'"
  by (auto simp: handled_def role_step_def quiet_def views same_voters_def)

lemma server_step_roles:
  assumes "contiki_ok ct" "server_step ct s inp out s'" "plain_log s" "plain_input inp"
    and "raft_get_num_voting_nodes s \<noteq> 1"
  shows "same_voters s s' \<and>
    (quiet s s' \<or> campaign s s' \<or>
     (\<exists>sender r. inp = Requestvote_Response sender r \<and> vote_granted r = 1 \<and>
        rvr_term r = current_term s \<and> vote_counted s (raft_get_node s sender) s'))"
  using assms(2)
proof cases
  case (tick ms e)
  with postD [OF raft_periodic_roles [OF assms(5,3)]] show ?thesis by auto
next
  case (apply_all e)
  with postD [OF raft_apply_all_members [OF assms(3)] apply_all(3)]
    postD [OF raft_apply_all_frame apply_all(3)]
  show ?thesis by (auto simp: apply_step_def views same_voters_def quiet_def)
next
  case (requestvote sender vr e r)
  with postD [OF raft_recv_requestvote_frame requestvote(3)]
    postD [OF raft_recv_requestvote_quiet requestvote(3)]
  show ?thesis by (auto simp: answered_def intro: members_same_voters)
next
  case (requestvote_response sender r e)
  with postD [OF raft_recv_requestvote_response_frame requestvote_response(3)]
  show ?thesis by (auto simp: vote_handled_def)
next
  case (appendentries sender ae e ar)
  with postD [OF appendentries_plain_since [OF assms(1,3)] appendentries(3)]
    postD [OF raft_recv_appendentries_frame appendentries(3)] assms(4)
  show ?thesis using handled_quiet by (auto simp: plain_input_def plain_since_def)
next
  case (appendentries_response sender ar e)
  with postD [OF raft_recv_appendentries_response_frame appendentries_response(3)]
  show ?thesis using peer_step_quiet by (auto simp: peer_step_def)
next
  case (client_entry ety cr e ety' cr')
  with postD [OF recv_entry_plain_since [OF assms(1,3)] client_entry(3)]
    postD [OF raft_recv_entry_frame client_entry(3)] assms(4)
  show ?thesis using handled_quiet by (auto simp: plain_input_def plain_since_def)
qed

text \<open>A granted vote is this server's vote in the term of the reply.\<close>

lemma vote_reply_is_vote:
  assumes "server_step ct s (Requestvote sender vr) (Vote_Reply r) s'" "vote_granted r = 1"
  shows "voted_for s' = candidate_id vr" "rvr_term r = current_term s'"
  using assms by (auto elim!: requestvoteE dest!: postD [OF raft_recv_requestvote_frame])

section \<open>Properties\<close>

text \<open>
  Runs of the sample server for a list of inputs: it votes for node 2 and is asked by node 3; as the
  leader it learns that node 3 holds its log and applies it; as a follower it gives up a conflicting entry
  and takes two others.
\<close>

fun run_server :: "contiki \<Rightarrow> 'u raft_server \<Rightarrow> server_input list \<Rightarrow> 'u raft_server result" where
  "run_server ct s [] = Ok s"
| "run_server ct s (inp # xs) = bind (run_step ct s inp) (\<lambda>(out, s). run_server ct s xs)"

lemma run_server_reach: "server_reach ct s t \<Longrightarrow> run_server ct t xs = Ok u \<Longrightarrow> server_reach ct s u"
proof (induction xs arbitrary: t)
  case (Cons inp xs)
  from Cons.prems(2) obtain out t' where "run_step ct t inp = Ok (out, t')" and rest: "run_server ct t' xs = Ok u"
    by auto
  then have "server_reach ct s t'" using Cons.prems(1) by (auto simp: run_step_iff intro: server_reach.step)
  then show ?case using rest by (rule Cons.IH)
qed simp

definition sample_votes :: "server_input list" where
  "sample_votes =
     [Requestvote 2 \<lparr>rv_term = 2, candidate_id = 2, last_log_idx = 2, last_log_term = 1\<rparr>,
      Requestvote 3 \<lparr>rv_term = 2, candidate_id = 3, last_log_idx = 9, last_log_term = 1\<rparr>]"

definition sample_commit :: "server_input list" where
  "sample_commit =
     [Appendentries_Response 3 \<lparr>aer_term = 1, success = 1, aer_current_idx = 2, first_idx = 1\<rparr>, Tick 100]"

definition sample_conflict :: "server_input list" where
  "sample_conflict =
     [Appendentries 2 \<lparr>ae_term = 2, prev_log_idx = 1, prev_log_term = 1, leader_commit = 0, n_entries = 2,
        entries = [sample_entry 2 2, sample_entry 2 3]\<rparr>]"

lemma sample_votes_run:
  "case run_server ref_contiki sample_server (take 1 sample_votes) of
     Fault f \<Rightarrow> False
   | Ok s \<Rightarrow> voted_for s = 2 \<and> current_term s = 2 \<and>
      (case run_server ref_contiki s (drop 1 sample_votes) of
         Fault f \<Rightarrow> False
       | Ok s' \<Rightarrow> current_term s' = 2)"
  by code_simp

lemma sample_commit_run:
  "case run_server ref_contiki sample_leader sample_commit of
     Fault f \<Rightarrow> False
   | Ok s \<Rightarrow> commit_idx s = 2 \<and> last_applied_idx s = 1"
  by code_simp

lemma sample_conflict_run:
  "case run_server ref_contiki sample_server sample_conflict of
     Fault f \<Rightarrow> False
   | Ok s \<Rightarrow> map (ety_term \<circ> entries_mem s) (entries_list (me_log s)) = [1, 2, 2] \<and> entries_list (me_log s) = [0, 1, 2]"
  by code_simp

text \<open>
  C6: A server never goes back to an older term, and once it has voted in a term it never changes that
  vote within the term, whatever messages arrive, in whatever order, and whatever its callbacks do.
\<close>

theorem one_vote_per_term:
  assumes "server_reach ct s s'"
  shows "current_term s \<le> current_term s' \<and>
    (current_term s' = current_term s \<and> raft_already_voted s \<longrightarrow>
     raft_get_voted_for s' = raft_get_voted_for s)"
  using server_reach_progress [OF assms]
  by (simp add: server_progress_def vote_step_def raft_already_voted_def raft_get_voted_for_def)

theorem one_vote_per_term_witness:
  "\<exists>s s'. run_server ref_contiki sample_server (take 1 sample_votes) = Ok s \<and> raft_get_voted_for s = 2 \<and>
     run_server ref_contiki s (drop 1 sample_votes) = Ok s' \<and> current_term s' = current_term s \<and>
     raft_get_voted_for s' = 2"
proof -
  obtain s s' where run: "run_server ref_contiki sample_server (take 1 sample_votes) = Ok s"
    "run_server ref_contiki s (drop 1 sample_votes) = Ok s'"
    and s: "voted_for s = 2" "current_term s' = current_term s"
    using sample_votes_run by (auto split: result.splits)
  have "server_reach ref_contiki s s'" by (rule run_server_reach [OF server_reach.start run(2)])
  from one_vote_per_term [OF this] s have "raft_get_voted_for s' = 2"
    by (simp add: raft_already_voted_def raft_get_voted_for_def)
  with run s show ?thesis by (auto simp: raft_get_voted_for_def)
qed

text \<open>
  C38: The commit index and the last applied index never decrease, and nothing is applied before it is
  committed, in every run of a server.
\<close>

theorem applied_is_committed:
  assumes "server_reach ct s s'" "raft_get_last_applied_idx s \<le> raft_get_commit_idx s"
  shows "raft_get_commit_idx s \<le> raft_get_commit_idx s' \<and>
    raft_get_last_applied_idx s \<le> raft_get_last_applied_idx s' \<and>
    raft_get_last_applied_idx s' \<le> raft_get_commit_idx s'"
  using server_reach_progress [OF assms(1)] assms(2)
  by (simp add: server_progress_def raft_get_commit_idx_def raft_get_last_applied_idx_def)

theorem applied_is_committed_witness:
  "\<exists>s. run_server ref_contiki sample_leader sample_commit = Ok s \<and>
     raft_get_commit_idx sample_leader = 0 \<and> raft_get_last_applied_idx s = 1 \<and>
     raft_get_last_applied_idx s \<le> raft_get_commit_idx s"
proof -
  obtain s where run: "run_server ref_contiki sample_leader sample_commit = Ok s" and s: "last_applied_idx s = 1"
    using sample_commit_run by (auto split: result.splits)
  have "server_reach ref_contiki sample_leader s" by (rule run_server_reach [OF server_reach.start run])
  moreover have "raft_get_last_applied_idx sample_leader \<le> raft_get_commit_idx sample_leader"
    by (simp add: sample_leader_def raft_get_last_applied_idx_def raft_get_commit_idx_def)
  ultimately have "raft_get_last_applied_idx s \<le> raft_get_commit_idx s"
    using applied_is_committed by blast
  with run s show ?thesis by (simp add: raft_get_last_applied_idx_def raft_get_commit_idx_def)
qed

text \<open>
  C39: The pool of entries and the list of the log agree in every reachable state: no block is in the
  list twice, every listed block is a block of the pool that is in use, and no block in use is missing
  from the list.  So no entry is leaked or freed while it is listed, even when a callback refuses an
  entry or entries are deleted out of order.
\<close>

theorem entry_pool_agrees:
  assumes "contiki_ok ct" "server_reach ct s s'" "pool_ok s"
  shows "distinct (entries_list (me_log s')) \<and> entries_used s' = set (entries_list (me_log s')) \<and>
    (\<forall>a \<in> set (entries_list (me_log s')). a < MAX_ENTRIES)"
  using server_reach_pool [OF assms(2,1,3)] by (auto simp: pool_ok_def)

theorem entry_pool_agrees_witness:
  "\<exists>s. run_server ref_contiki sample_server sample_conflict = Ok s \<and>
     map (ety_term \<circ> entries_mem s) (entries_list (me_log s)) = [1, 2, 2] \<and> entries_used s = {0, 1, 2}"
proof -
  obtain s where run: "run_server ref_contiki sample_server sample_conflict = Ok s"
    and s: "map (ety_term \<circ> entries_mem s) (entries_list (me_log s)) = [1, 2, 2]" "entries_list (me_log s) = [0, 1, 2]"
    using sample_conflict_run by (auto split: result.splits)
  have "server_reach ref_contiki sample_server s" by (rule run_server_reach [OF server_reach.start run])
  moreover have "pool_ok sample_server" by (simp add: pool_ok_def MAX_ENTRIES_def)
  ultimately have "entries_used s = {0, 1, 2}"
    using entry_pool_agrees [OF ref_contiki_ok, of sample_server s] s(2) by simp
  with run s(1) show ?thesis by (intro exI [of _ s] conjI)
qed

end
