(* ===== verification/Raft_Cluster.thy ===== *)
theory Raft_Cluster
  imports Raft_Steps
begin

text \<open>
  Several servers that exchange messages.  The network may lose, duplicate, delay and reorder messages,
  and vote requests, appendentries messages and their responses may even be made up; only vote responses
  are the ones that servers sent.  The theory proves Raft's election safety for the handlers of
  \<^verbatim>\<open>src/raft_server.c\<close>: two leaders of the same term are the same server.
\<close>

section \<open>Quorums\<close>

text \<open>
  Why votes decide: two quorums have a member in common, so that a voter with at most one vote can be
  in the quorum of one candidate only.
\<close>

locale quorums =
  fixes voters :: "'a set" and quorum :: "'a set \<Rightarrow> bool"
  assumes quorums_meet:
    "A \<subseteq> voters \<Longrightarrow> B \<subseteq> voters \<Longrightarrow> quorum A \<Longrightarrow> quorum B \<Longrightarrow> A \<inter> B \<noteq> {}"
begin

lemma one_winner:
  assumes "\<And>v c d. v \<in> voters \<Longrightarrow> vote v c \<Longrightarrow> vote v d \<Longrightarrow> c = d"
    and "quorum {v \<in> voters. vote v c}" "quorum {v \<in> voters. vote v d}"
  shows "c = d"
proof -
  have "{v \<in> voters. vote v c} \<inter> {v \<in> voters. vote v d} \<noteq> {}"
    using assms(2,3) by (intro quorums_meet) auto
  with assms(1) show ?thesis by blast
qed

end

text \<open>The test of \<^verbatim>\<open>raft_votes_is_majority\<close> picks out quorums.\<close>

lemma majority_iff:
  "0 \<le> n \<Longrightarrow> raft_votes_is_majority n k \<longleftrightarrow> k \<le> n \<and> n < 2 * k"
  by (auto simp: raft_votes_is_majority_def Let_def)

interpretation majority: quorums "set ids"
  "\<lambda>A. raft_votes_is_majority (int (length ids)) (int (card A))" for ids :: "int list"
proof
  fix A B
  assume sub: "A \<subseteq> set ids" "B \<subseteq> set ids"
    and maj: "raft_votes_is_majority (int (length ids)) (int (card A))"
      "raft_votes_is_majority (int (length ids)) (int (card B))"
  show "A \<inter> B \<noteq> {}"
  proof
    assume "A \<inter> B = {}"
    then have "card A + card B = card (A \<union> B)"
      using sub by (simp add: card_Un_disjoint finite_subset [OF _ finite_set])
    also have "\<dots> \<le> card (set ids)" using sub by (intro card_mono) auto
    also have "\<dots> \<le> length ids" by (rule card_length)
    finally show False using maj by (simp add: majority_iff)
  qed
qed

section \<open>Majorities\<close>

text \<open>The voting nodes as a set, and what a majority of them is.\<close>

definition voters :: "'u raft_server \<Rightarrow> nat set" where
  "voters s =
     {a \<in> set (nodes_list s). raft_node_is_active (nodes_mem s a) \<and> raft_node_is_voting (nodes_mem s a)}"

definition majority_of :: "nat set \<Rightarrow> nat set \<Rightarrow> bool" where
  "majority_of V A \<longleftrightarrow> card (V - A) < card (V \<inter> A)"


definition holds_up_to :: "'u raft_server \<Rightarrow> int \<Rightarrow> nat set" where
  "holds_up_to s k = {a. me_node s = Some a \<or> k \<le> match_idx (nodes_mem s a)}"

lemma length_filter_card:
  "distinct xs \<Longrightarrow> length (filter P xs) = card {a \<in> set xs. P a}"
  using distinct_length_filter [of xs P] by (simp add: Int_def conj_commute)

lemma majority_of_card:
  assumes "finite V"
  shows "majority_of V A \<longleftrightarrow> card V < 2 * card (V \<inter> A)"
proof -
  have "card V = card (V \<inter> A) + card (V - A)"
    using card_Int_Diff [OF assms, of A] .
  then show ?thesis by (simp add: majority_of_def)
qed

lemma own_and_others:
  assumes "distinct (nodes_list s)" "me_node s = Some m" "m \<in> voters s"
  shows "card (voters s \<inter> A) =
    length (filter (\<lambda>a. me_node s \<noteq> Some a \<and> raft_node_is_active (nodes_mem s a) \<and>
      raft_node_is_voting (nodes_mem s a) \<and> a \<in> A) (nodes_list s)) + (if m \<in> A then 1 else 0)"
proof -
  let ?B = "voters s \<inter> A - {m}"
  have fin: "finite (voters s)" by (simp add: voters_def)
  have "{a \<in> set (nodes_list s). me_node s \<noteq> Some a \<and> raft_node_is_active (nodes_mem s a) \<and>
      raft_node_is_voting (nodes_mem s a) \<and> a \<in> A} = ?B"
    using assms(2) by (auto simp: voters_def)
  then have "length (filter (\<lambda>a. me_node s \<noteq> Some a \<and> raft_node_is_active (nodes_mem s a) \<and>
      raft_node_is_voting (nodes_mem s a) \<and> a \<in> A) (nodes_list s)) = card ?B"
    by (simp add: length_filter_card [OF assms(1)])
  moreover have "card (voters s \<inter> A) = card ?B + (if m \<in> A then 1 else 0)"
  proof (cases "m \<in> A")
    case True
    with assms(3) fin show ?thesis
      using card.remove [of "voters s \<inter> A" m] by simp
  qed simp
  ultimately show ?thesis by simp
qed

lemma num_voters: "distinct (nodes_list s) \<Longrightarrow> raft_get_num_voting_nodes s = int (card (voters s))"
  by (simp add: raft_get_num_voting_nodes_def length_filter_card voters_def)


lemma commit_votes_card:
  assumes "distinct (nodes_list s)" "me_node s = Some m" "m \<in> voters s"
  shows "commit_votes s k = int (card (voters s \<inter> holds_up_to s k))"
proof -
  have "filter (\<lambda>a. me_node s \<noteq> Some a \<and> raft_node_is_active (nodes_mem s a) \<and>
      raft_node_is_voting (nodes_mem s a) \<and> a \<in> holds_up_to s k) (nodes_list s) =
    filter (\<lambda>a. me_node s \<noteq> Some a \<and> raft_node_is_active (nodes_mem s a) \<and>
      raft_node_is_voting (nodes_mem s a) \<and> k \<le> raft_node_get_match_idx (nodes_mem s a)) (nodes_list s)"
    by (rule filter_cong) (auto simp: holds_up_to_def node_get_defs)
  then show ?thesis
    using assms(2) by (simp add: own_and_others [OF assms] commit_votes_def) (simp add: holds_up_to_def)
qed



lemma commit_votes_peers:
  assumes "distinct (nodes_list s)"
  shows "commit_votes s k =
    1 + int (card {a \<in> voters s. me_node s \<noteq> Some a \<and> k \<le> match_idx (nodes_mem s a)})"
proof -
  have "{a \<in> set (nodes_list s). me_node s \<noteq> Some a \<and> raft_node_is_active (nodes_mem s a) \<and>
      raft_node_is_voting (nodes_mem s a) \<and> k \<le> match_idx (nodes_mem s a)} =
    {a \<in> voters s. me_node s \<noteq> Some a \<and> k \<le> match_idx (nodes_mem s a)}"
    by (auto simp: voters_def)
  then show ?thesis by (simp add: commit_votes_def length_filter_card [OF assms] node_get_defs)
qed

text \<open>
  C8: A leader whose node list has no duplicates advances its commit index only on a successful response
  of its current term, to the index the response reports, and only if that index is in its log with an entry
  of its own term.  The other active voting nodes that are known to hold the log up to there are then,
  with the leader counted as one more, more than half of the active voting nodes; so if the leader is an
  active voting node itself, a majority of them holds the entry.  The code counts a leader that is not a
  voting node as well.
\<close>

theorem commit_only_by_majority:
  assumes "raft_recv_appendentries_response ct s node r = Ok (e, s')" "commit_idx s' \<noteq> commit_idx s"
    and "distinct (nodes_list s)"
  shows "raft_is_leader s \<and> aer_term r = current_term s \<and> success r \<noteq> 0 \<and>
    commit_idx s < commit_idx s' \<and> commit_idx s' = aer_current_idx r \<and>
    commit_idx s' \<le> raft_get_current_idx s \<and>
    (\<exists>x. log_lookup s (commit_idx s') = Some x \<and> ety_term x = to_unsigned (current_term s)) \<and>
    card (voters s) <
      2 * (1 + card {a \<in> voters s. me_node s \<noteq> Some a \<and> commit_idx s' \<le> match_idx (nodes_mem s' a)}) \<and>
    (\<forall>m. me_node s = Some m \<and> m \<in> voters s \<longrightarrow> majority_of (voters s) (holds_up_to s' (commit_idx s')))"
proof -
  let ?k = "commit_idx s'"
  from postD [OF raft_recv_appendentries_response_commit assms(1)] assms(2)
  have head: "raft_is_leader s" "aer_term r = current_term s" "success r \<noteq> 0"
    "?k = aer_current_idx r" and adv: "commit_advanced s s'" by auto
  from postD [OF raft_recv_appendentries_response_frame assms(1)]
  have sv: "same_voters s s'" and lg: "log_of s' = log_of s" by (auto simp: peer_step_def)
  have same: "voters s' = voters s" "nodes_list s' = nodes_list s" "me_node s' = me_node s"
    using sv by (simp_all add: voters_def same_voters_def)
  note d = assms(3) [folded same(2)]
  have fin: "finite (voters s)" by (simp add: voters_def)
  have x: "\<exists>x. log_lookup s ?k = Some x \<and> ety_term x = to_unsigned (current_term s)"
    and most: "raft_get_num_voting_nodes s' < 2 * commit_votes s' ?k"
    using adv assms(2) log_of_window [OF lg] by (auto simp: commit_advanced_def committable_def)
  have "majority_of (voters s) (holds_up_to s' ?k)" if "me_node s = Some m" "m \<in> voters s" for m
    using most commit_votes_card [OF d, of m ?k] that
    by (simp add: num_voters [OF d] majority_of_card [OF fin] same)
  moreover have "card (voters s) < 2 * (1 + card {a \<in> voters s. me_node s \<noteq> Some a \<and> ?k \<le> match_idx (nodes_mem s' a)})"
    using most by (simp add: num_voters [OF d] commit_votes_peers [OF d] same)
  ultimately show ?thesis
    using head x adv assms(2) by (auto simp: commit_advanced_def)
qed

theorem commit_only_by_majority_witness:
  "\<exists>s'. raft_recv_appendentries_response ref_contiki sample_leader (Some 2)
       \<lparr>aer_term = 1, success = 1, aer_current_idx = 2, first_idx = 1\<rparr> = Ok (0, s') \<and>
     commit_idx s' = 2 \<and> voters sample_leader = {0, 1, 2} \<and> majority_of {0, 1, 2} (holds_up_to s' 2)"
proof -
  have v: "voters sample_leader = {0, 1, 2}" by (auto simp: voters_def node_read_defs)
  show ?thesis
    using commit_only_by_majority [OF sample_leader_commits] sample_leader_commits v by simp
qed

section \<open>The cluster\<close>

text \<open>
  The servers by their identifiers, the vote responses sent so far as triples of voter, candidate and
  response, and, for the proofs only, the votes cast so far as triples of voter, term and candidate.
\<close>

record 'u cluster =
  servers :: "int \<Rightarrow> 'u raft_server"
  replies :: "(int \<times> int \<times> msg_requestvote_response) set"
  cast :: "(int \<times> int \<times> int) set"

text \<open>
  A vote request names its sender, which is not the value -1 for no node, as the candidate, as \<^verbatim>\<open>raft_send_requestvote\<close> fills it in; a vote
  response was sent to this server; no entry changes the configuration.
\<close>

definition admissible :: "'u cluster \<Rightarrow> int \<Rightarrow> server_input \<Rightarrow> bool" where
  "admissible c i inp \<longleftrightarrow>
     plain_input inp \<and>
     (\<forall>sender vr. inp = Requestvote sender vr \<longrightarrow> candidate_id vr = sender \<and> sender \<noteq> -1) \<and>
     (\<forall>sender r. inp = Requestvote_Response sender r \<longrightarrow> (sender, i, r) \<in> replies c)"

definition cast_of :: "int \<Rightarrow> 'u raft_server \<Rightarrow> (int \<times> int \<times> int) set" where
  "cast_of i s = (if voted_for s = -1 then {} else {(i, current_term s, voted_for s)})"

definition sent_replies ::
  "int \<Rightarrow> server_input \<Rightarrow> server_output \<Rightarrow> (int \<times> int \<times> msg_requestvote_response) set" where
  "sent_replies i inp out =
     (case (inp, out) of (Requestvote sender _, Vote_Reply r) \<Rightarrow> {(i, sender, r)} | _ \<Rightarrow> {})"

definition advance ::
  "'u cluster \<Rightarrow> int \<Rightarrow> server_input \<Rightarrow> server_output \<Rightarrow> 'u raft_server \<Rightarrow> 'u cluster" where
  "advance c i inp out s' =
     c\<lparr>servers := (servers c)(i := s'), replies := replies c \<union> sent_replies i inp out,
       cast := cast c \<union> cast_of i s'\<rparr>"

inductive cluster_step :: "contiki \<Rightarrow> int list \<Rightarrow> 'u cluster \<Rightarrow> 'u cluster \<Rightarrow> bool"
  for ct :: contiki and ids :: "int list" where
  "i \<in> set ids \<Longrightarrow> admissible c i inp \<Longrightarrow> server_step ct (servers c i) inp out s' \<Longrightarrow>
   cluster_step ct ids c (advance c i inp out s')"

text \<open>
  The cluster starts with followers that all know the same two or more voting nodes, themselves among
  them.  Terms and votes may be left from an earlier life.
\<close>

definition member_of :: "int list \<Rightarrow> int \<Rightarrow> 'u raft_server \<Rightarrow> bool" where
  "member_of ids i s \<longleftrightarrow>
     distinct (node_ids s) \<and> set (node_ids s) = set ids \<and>
     (\<forall>a \<in> set (nodes_list s). raft_node_is_active (nodes_mem s a) \<and> raft_node_is_voting (nodes_mem s a)) \<and>
     (\<exists>m. me_node s = Some m \<and> m \<in> set (nodes_list s) \<and> node_id (nodes_mem s m) = i)"

definition cluster_init :: "int list \<Rightarrow> 'u cluster \<Rightarrow> bool" where
  "cluster_init ids c \<longleftrightarrow>
     distinct ids \<and> 2 \<le> length ids \<and>
     (\<forall>i \<in> set ids. 0 \<le> i \<and> member_of ids i (servers c i) \<and> plain_log (servers c i) \<and>
        raft_is_follower (servers c i)) \<and>
     replies c = {} \<and> cast c = (\<Union>i \<in> set ids. cast_of i (servers c i))"

inductive cluster_reach :: "contiki \<Rightarrow> int list \<Rightarrow> 'u cluster \<Rightarrow> bool"
  for ct :: contiki and ids :: "int list" where
  init: "cluster_init ids c \<Longrightarrow> cluster_reach ct ids c"
| step: "cluster_reach ct ids c \<Longrightarrow> cluster_step ct ids c c' \<Longrightarrow> cluster_reach ct ids c'"

section \<open>Members\<close>

lemma same_voters_member: "same_voters s s' \<Longrightarrow> member_of ids i s \<Longrightarrow> member_of ids i s'"
  by (auto simp: same_voters_def member_of_def node_ids_def)

lemma member_inj:
  "member_of ids i s \<Longrightarrow> inj_on (\<lambda>a. node_id (nodes_mem s a)) (set (nodes_list s)) \<and> distinct (nodes_list s)"
  by (auto simp: member_of_def node_ids_def distinct_map)

lemma member_nodeid: "member_of ids i s \<Longrightarrow> raft_get_nodeid s = i"
  by (auto simp: member_of_def raft_get_nodeid_def node_get_defs)

lemma member_num_voting:
  assumes "member_of ids i s" "distinct ids"
  shows "raft_get_num_voting_nodes s = int (length ids)"
proof -
  have "length (node_ids s) = length ids"
    using assms by (metis member_of_def distinct_card)
  moreover have "filter (\<lambda>a. raft_node_is_active (nodes_mem s a) \<and> raft_node_is_voting (nodes_mem s a))
      (nodes_list s) = nodes_list s"
    using assms(1) by (auto simp: member_of_def filter_id_conv)
  ultimately show ?thesis by (simp add: raft_get_num_voting_nodes_def node_ids_def)
qed

text \<open>The number of votes a server counts is at most the number of its supporters.\<close>

lemma nvotes_bound:
  assumes "member_of ids i s" "V \<subseteq> set ids"
    and "\<And>a. a \<in> set (nodes_list s) \<Longrightarrow> raft_node_has_vote_for_me (nodes_mem s a) \<Longrightarrow>
      node_id (nodes_mem s a) \<in> V"
    and "voted_for s = i \<Longrightarrow> i \<in> V"
  shows "raft_get_nvotes_for_me s \<le> int (card V)"
proof -
  let ?id = "\<lambda>a. node_id (nodes_mem s a)"
  let ?xs = "filter (\<lambda>a. me_node s \<noteq> Some a \<and> raft_node_is_active (nodes_mem s a) \<and>
    raft_node_is_voting (nodes_mem s a) \<and> raft_node_has_vote_for_me (nodes_mem s a)) (nodes_list s)"
  obtain m where m: "me_node s = Some m" "m \<in> set (nodes_list s)" "?id m = i"
    using assms(1) by (auto simp: member_of_def)
  note inj = member_inj [OF assms(1)]
  have fin: "finite V" using assms(2) finite_subset by auto
  have "inj_on ?id (set ?xs)" using inj by (auto intro: inj_on_subset)
  then have "card (?id ` set ?xs) = card (set ?xs)" by (rule card_image)
  also have "\<dots> = length ?xs" using inj by (intro distinct_card) simp
  finally have len: "length ?xs = card (?id ` set ?xs)" by simp
  have sub: "?id ` set ?xs \<subseteq> V - {i}"
    using assms(3) m inj by (auto dest: inj_onD)
  show ?thesis
  proof (cases "voted_for s = i")
    case True
    then have "i \<in> V" by (rule assms(4))
    have "length ?xs \<le> card (V - {i})" using sub fin len by (simp add: card_mono)
    moreover have "card V = Suc (card (V - {i}))"
      by (rule card.remove [OF fin \<open>i \<in> V\<close>])
    ultimately show ?thesis
      using True member_nodeid [OF assms(1)] by (simp add: raft_get_nvotes_for_me_def)
  next
    case False
    have "length ?xs \<le> card V" using sub fin len by (auto intro!: card_mono)
    with False show ?thesis
      using member_nodeid [OF assms(1)] by (simp add: raft_get_nvotes_for_me_def)
  qed
qed

section \<open>The invariant\<close>

text \<open>The members stay, and no entry changes the configuration.\<close>

definition members_inv :: "int list \<Rightarrow> 'u cluster \<Rightarrow> bool" where
  "members_inv ids c \<longleftrightarrow>
     (\<forall>i \<in> set ids. member_of ids i (servers c i) \<and> plain_log (servers c i))"

text \<open>
  The votes cast are a history: every server's current vote is in it, no vote is from the future, a
  vote of the current term is the current vote, and a voter has voted once in a term.
\<close>

definition cast_inv :: "int list \<Rightarrow> 'u cluster \<Rightarrow> bool" where
  "cast_inv ids c \<longleftrightarrow>
     (\<forall>i \<in> set ids. cast_of i (servers c i) \<subseteq> cast c) \<and>
     (\<forall>v t d. (v, t, d) \<in> cast c \<longrightarrow>
        d \<noteq> -1 \<and> t \<le> current_term (servers c v) \<and>
        (t = current_term (servers c v) \<longrightarrow> d = voted_for (servers c v))) \<and>
     (\<forall>v t d d'. (v, t, d) \<in> cast c \<and> (v, t, d') \<in> cast c \<longrightarrow> d = d')"

text \<open>Granted responses, and the votes a candidate has counted, are votes that were cast.\<close>

definition replies_inv :: "'u cluster \<Rightarrow> bool" where
  "replies_inv c \<longleftrightarrow>
     (\<forall>v d r. (v, d, r) \<in> replies c \<and> vote_granted r = 1 \<longrightarrow> (v, rvr_term r, d) \<in> cast c)"

definition counted_inv :: "int list \<Rightarrow> 'u cluster \<Rightarrow> bool" where
  "counted_inv ids c \<longleftrightarrow>
     (\<forall>i \<in> set ids. me_state (servers c i) = RAFT_STATE_CANDIDATE \<longrightarrow>
        (\<forall>a \<in> set (nodes_list (servers c i)). raft_node_has_vote_for_me (nodes_mem (servers c i) a) \<longrightarrow>
           (node_id (nodes_mem (servers c i) a), current_term (servers c i), i) \<in> cast c))"

text \<open>A leader was elected by a majority.\<close>

definition supporters :: "int list \<Rightarrow> (int \<times> int \<times> int) set \<Rightarrow> int \<Rightarrow> int \<Rightarrow> int set" where
  "supporters ids h t i = {v \<in> set ids. (v, t, i) \<in> h}"

definition elected_inv :: "int list \<Rightarrow> 'u cluster \<Rightarrow> bool" where
  "elected_inv ids c \<longleftrightarrow>
     (\<forall>i \<in> set ids. me_state (servers c i) = RAFT_STATE_LEADER \<longrightarrow>
        raft_votes_is_majority (int (length ids))
          (int (card (supporters ids (cast c) (current_term (servers c i)) i))))"

definition cluster_inv :: "int list \<Rightarrow> 'u cluster \<Rightarrow> bool" where
  "cluster_inv ids c \<longleftrightarrow>
     distinct ids \<and> 2 \<le> length ids \<and> (\<forall>i \<in> set ids. 0 \<le> i) \<and>
     members_inv ids c \<and> cast_inv ids c \<and> replies_inv c \<and> counted_inv ids c \<and> elected_inv ids c"

lemma advance_simps [simp]:
  "servers (advance c i inp out s') = (servers c)(i := s')"
  "replies (advance c i inp out s') = replies c \<union> sent_replies i inp out"
  "cast (advance c i inp out s') = cast c \<union> cast_of i s'"
  by (simp_all add: advance_def)

lemma cast_inv_step:
  assumes "cast_inv ids c" "vote_step (servers c i) s'"
  shows "cast_inv ids (advance c i inp out s')"
proof -
  let ?s = "servers c i"
  have old: "d \<noteq> -1 \<and> t \<le> current_term (servers c v) \<and>
      (t = current_term (servers c v) \<longrightarrow> d = voted_for (servers c v))" if "(v, t, d) \<in> cast c" for v t d
    using assms(1) that unfolding cast_inv_def by blast
  have upd: "d \<noteq> -1 \<and> t \<le> current_term s' \<and> (t = current_term s' \<longrightarrow> d = voted_for s')"
    if "(i, t, d) \<in> cast c \<union> cast_of i s'" for t d
    using that old [of i t d] assms(2) by (auto simp: cast_of_def vote_step_def split: if_splits)
  have "d = d'" if "(v, t, d) \<in> cast c \<union> cast_of i s'" "(v, t, d') \<in> cast c \<union> cast_of i s'" for v t d d'
  proof (cases "(v, t, d) \<in> cast c \<and> (v, t, d') \<in> cast c")
    case True
    then show ?thesis using assms(1) unfolding cast_inv_def by blast
  next
    case False
    then have "v = i" "t = current_term s'" using that by (auto simp: cast_of_def split: if_splits)
    then show ?thesis using upd that by blast
  qed
  moreover have "d \<noteq> -1 \<and> t \<le> current_term (((servers c)(i := s')) v) \<and>
      (t = current_term (((servers c)(i := s')) v) \<longrightarrow> d = voted_for (((servers c)(i := s')) v))"
    if "(v, t, d) \<in> cast c \<union> cast_of i s'" for v t d
  proof (cases "v = i")
    case True
    then show ?thesis using upd that by simp
  next
    case False
    then show ?thesis using old [of v t d] that by (auto simp: cast_of_def split: if_splits)
  qed
  moreover have "\<forall>j \<in> set ids. cast_of j (((servers c)(i := s')) j) \<subseteq> cast c \<union> cast_of i s'"
    using assms(1) by (auto simp: cast_inv_def)
  ultimately show ?thesis unfolding cast_inv_def advance_simps by blast
qed

lemma replies_inv_step:
  assumes "replies_inv c" "admissible c i inp" "server_step ct (servers c i) inp out s'"
  shows "replies_inv (advance c i inp out s')"
proof -
  have "(v, rvr_term r, d) \<in> cast_of i s'" if "(v, d, r) \<in> sent_replies i inp out" "vote_granted r = 1" for v d r
  proof -
    from that(1) obtain vr where inp: "inp = Requestvote d vr" "out = Vote_Reply r" "v = i"
      by (auto simp: sent_replies_def split: server_input.splits server_output.splits)
    with assms(3) have "server_step ct (servers c i) (Requestvote d vr) (Vote_Reply r) s'" by simp
    from vote_reply_is_vote [OF this that(2)] assms(2) inp show ?thesis
      by (auto simp: cast_of_def admissible_def)
  qed
  with assms(1) show ?thesis by (auto simp: replies_inv_def)
qed

text \<open>The two invariants on roles, for the server that moves.\<close>

lemma counted_step:
  assumes "\<forall>a \<in> set (nodes_list s). me_state s = RAFT_STATE_CANDIDATE \<and>
      raft_node_has_vote_for_me (nodes_mem s a) \<longrightarrow> (node_id (nodes_mem s a), current_term s, i) \<in> h"
    and "same_voters s s'"
    and "quiet s s' \<or> campaign s s' \<or>
      (\<exists>sender. vote_counted s (raft_get_node s sender) s' \<and> (sender, current_term s, i) \<in> h)"
    and "me_state s' = RAFT_STATE_CANDIDATE \<or> me_state s' = RAFT_STATE_LEADER \<and> me_state s = RAFT_STATE_CANDIDATE"
    and "a \<in> set (nodes_list s')" "raft_node_has_vote_for_me (nodes_mem s' a)"
  shows "(node_id (nodes_mem s' a), current_term s', i) \<in> h"
proof -
  have ids: "nodes_list s' = nodes_list s" "node_id (nodes_mem s' a) = node_id (nodes_mem s a)"
    using assms(2) by (auto simp: same_voters_def)
  from assms(3) consider (quiet) "quiet s s'" | (campaign) "campaign s s'"
    | (counted) sender where "vote_counted s (raft_get_node s sender) s'" "(sender, current_term s, i) \<in> h"
    by blast
  then show ?thesis
  proof cases
    case quiet
    with assms(1,4-6) ids show ?thesis by (auto simp: quiet_def)
  next
    case campaign
    with assms(5,6) show ?thesis by (simp add: campaign_def)
  next
    case counted
    then have "raft_get_node s sender = Some a \<or> raft_node_has_vote_for_me (nodes_mem s a)"
      using assms(6) by (simp add: vote_counted_def record_vote_frame)
    moreover have "me_state s = RAFT_STATE_CANDIDATE" "current_term s' = current_term s"
      using counted(1) by (simp_all add: vote_counted_def views)
    ultimately show ?thesis
      using counted(2) assms(1,5) ids by (auto dest: raft_get_node_Some)
  qed
qed

lemma elected_step:
  assumes mem: "member_of ids i s" "distinct ids"
    and flags: "\<forall>a \<in> set (nodes_list s). me_state s = RAFT_STATE_CANDIDATE \<and>
      raft_node_has_vote_for_me (nodes_mem s a) \<longrightarrow> (node_id (nodes_mem s a), current_term s, i) \<in> h"
    and own: "voted_for s = i \<Longrightarrow> (i, current_term s, i) \<in> h" and i: "i \<in> set ids"
    and old: "me_state s = RAFT_STATE_LEADER \<Longrightarrow>
      raft_votes_is_majority (int (length ids)) (int (card (supporters ids h (current_term s) i)))"
    and same: "same_voters s s'"
    and role: "quiet s s' \<or> campaign s s' \<or>
      (\<exists>sender. vote_counted s (raft_get_node s sender) s' \<and> (sender, current_term s, i) \<in> h)"
    and leader: "me_state s' = RAFT_STATE_LEADER"
  shows "raft_votes_is_majority (int (length ids)) (int (card (supporters ids h (current_term s') i)))"
proof -
  from role leader consider (quiet) "quiet s s'"
    | (counted) sender where "vote_counted s (raft_get_node s sender) s'"
    by (auto simp: campaign_def)
  then show ?thesis
  proof cases
    case quiet
    with old leader show ?thesis by (auto simp: quiet_def)
  next
    case counted
    let ?t = "record_vote s (raft_get_node s sender)" and ?V = "supporters ids h (current_term s) i"
    note rec = record_vote_frame [of s "raft_get_node s sender"]
    have c: "me_state s = RAFT_STATE_CANDIDATE" "current_term s' = current_term s"
      "\<And>a. raft_node_has_vote_for_me (nodes_mem ?t a) \<longleftrightarrow> raft_node_has_vote_for_me (nodes_mem s' a)"
      "raft_votes_is_majority (raft_get_num_voting_nodes s) (raft_get_nvotes_for_me ?t)"
      using counted leader by (auto simp: vote_counted_def views split: if_splits)
    have ids: "nodes_list ?t = nodes_list s'" "\<And>a. node_id (nodes_mem ?t a) = node_id (nodes_mem s' a)"
      using same rec(6) by (simp_all add: same_voters_def)
    have mem': "member_of ids i ?t" by (rule same_voters_member [OF rec(6) mem(1)])
    have "raft_get_nvotes_for_me ?t \<le> int (card ?V)"
    proof (rule nvotes_bound [OF mem'])
      show "?V \<subseteq> set ids" by (auto simp: supporters_def)
    next
      fix a
      assume a: "a \<in> set (nodes_list ?t)" "raft_node_has_vote_for_me (nodes_mem ?t a)"
      have "(node_id (nodes_mem s' a), current_term s', i) \<in> h"
        by (rule counted_step [OF flags same role]) (use a ids c leader in auto)
      moreover have "node_id (nodes_mem ?t a) \<in> set ids"
        using mem' a(1) by (auto simp: member_of_def node_ids_def)
      ultimately show "node_id (nodes_mem ?t a) \<in> ?V" using ids c(2) by (simp add: supporters_def)
    next
      assume "voted_for ?t = i"
      then have "voted_for s = i" using rec(1) by (simp add: views)
      with own i show "i \<in> ?V" by (simp add: supporters_def)
    qed
    moreover have "card ?V \<le> length ids"
      using card_mono [of "set ids" ?V] card_length [of ids] by (force simp: supporters_def)
    ultimately show ?thesis
      using c(2,4) member_num_voting [OF mem] by (simp add: majority_iff)
  qed
qed

lemma supporters_mono:
  assumes "h \<subseteq> h'" "raft_votes_is_majority (int (length ids)) (int (card (supporters ids h t i)))"
  shows "raft_votes_is_majority (int (length ids)) (int (card (supporters ids h' t i)))"
proof -
  have "card (supporters ids h t i) \<le> card (supporters ids h' t i)"
    using assms(1) by (intro card_mono) (auto simp: supporters_def)
  moreover have "card (supporters ids h' t i) \<le> card (set ids)"
    by (intro card_mono) (auto simp: supporters_def)
  ultimately show ?thesis using assms(2) card_length [of ids] by (simp add: majority_iff)
qed

lemma cluster_inv_step:
  assumes inv: "cluster_inv ids c" and ct: "contiki_ok ct" and i: "i \<in> set ids"
    and adm: "admissible c i inp" and step: "server_step ct (servers c i) inp out s'"
  shows "cluster_inv ids (advance c i inp out s')"
proof -
  let ?s = "servers c i" and ?h = "cast c \<union> cast_of i s'" and ?c = "advance c i inp out s'"
  have parts: "distinct ids" "2 \<le> length ids" "\<forall>i \<in> set ids. 0 \<le> i" "members_inv ids c"
    "cast_inv ids c" "replies_inv c" "counted_inv ids c" "elected_inv ids c"
    using inv by (simp_all add: cluster_inv_def)
  have mem: "member_of ids i ?s" "plain_log ?s" using parts(4) i by (auto simp: members_inv_def)
  have "raft_get_num_voting_nodes ?s \<noteq> 1" using member_num_voting [OF mem(1) parts(1)] parts(2) by simp
  from server_step_roles [OF ct step mem(2) _ this] adm
  have same: "same_voters ?s s'" and role: "quiet ?s s' \<or> campaign ?s s' \<or>
     (\<exists>sender r. inp = Requestvote_Response sender r \<and> vote_granted r = 1 \<and>
        rvr_term r = current_term ?s \<and> vote_counted ?s (raft_get_node ?s sender) s')"
    by (auto simp: admissible_def)
  have role': "quiet ?s s' \<or> campaign ?s s' \<or>
     (\<exists>sender. vote_counted ?s (raft_get_node ?s sender) s' \<and> (sender, current_term ?s, i) \<in> ?h)"
    using role adm parts(6) unfolding admissible_def replies_inv_def by (metis UnI1)
  have flags: "\<forall>a \<in> set (nodes_list ?s). me_state ?s = RAFT_STATE_CANDIDATE \<and>
      raft_node_has_vote_for_me (nodes_mem ?s a) \<longrightarrow> (node_id (nodes_mem ?s a), current_term ?s, i) \<in> ?h"
    using parts(7) i by (auto simp: counted_inv_def)
  have own: "(i, current_term ?s, i) \<in> ?h" if "voted_for ?s = i"
    using that parts(3,5) i by (force simp: cast_inv_def cast_of_def)
  have old: "raft_votes_is_majority (int (length ids)) (int (card (supporters ids ?h (current_term ?s) i)))"
    if "me_state ?s = RAFT_STATE_LEADER"
    using that parts(8) i by (auto simp: elected_inv_def intro: supporters_mono [of "cast c"])
  have "members_inv ids ?c"
    using parts(4) same_voters_member [OF same mem(1)] server_step_plain [OF ct step mem(2)] adm
    by (auto simp: members_inv_def admissible_def)
  moreover have "cast_inv ids ?c"
    using server_step_progress [OF step] by (intro cast_inv_step [OF parts(5)]) (simp add: server_progress_def)
  moreover have "replies_inv ?c" by (rule replies_inv_step [OF parts(6) adm step])
  moreover have "counted_inv ids ?c"
    using counted_step [OF flags same role'] parts(7) by (auto simp: counted_inv_def)
  moreover have "elected_inv ids ?c"
    using elected_step [OF mem(1) parts(1) flags own i old same role'] parts(8)
    by (auto simp: elected_inv_def intro: supporters_mono [of "cast c"])
  ultimately show ?thesis using parts(1-3) by (simp add: cluster_inv_def)
qed

lemma cluster_init_inv: "cluster_init ids c \<Longrightarrow> cluster_inv ids c"
  by (auto simp: cluster_init_def cluster_inv_def members_inv_def cast_inv_def cast_of_def replies_inv_def
      counted_inv_def elected_inv_def raft_is_follower_def raft_get_state_def split: if_splits)

lemma cluster_reach_inv: "cluster_reach ct ids c \<Longrightarrow> contiki_ok ct \<Longrightarrow> cluster_inv ids c"
  by (induction rule: cluster_reach.induct)
     (auto intro: cluster_init_inv cluster_inv_step elim!: cluster_step.cases)

section \<open>Election safety\<close>

text \<open>
  C3: Election safety.  In every reachable state of a cluster without configuration changes, two
  servers that are leaders of the same term are the same server, whatever the network loses,
  duplicates, delays or reorders, and whatever the callbacks that store terms and votes report.
\<close>

theorem election_safety:
  assumes "contiki_ok ct" "cluster_reach ct ids c" "i \<in> set ids" "j \<in> set ids"
    and "raft_is_leader (servers c i)" "raft_is_leader (servers c j)"
    and "raft_get_current_term (servers c i) = raft_get_current_term (servers c j)"
  shows "i = j"
proof -
  let ?t = "current_term (servers c i)"
  have inv: "cluster_inv ids c" by (rule cluster_reach_inv [OF assms(2,1)])
  have maj: "raft_votes_is_majority (int (length ids)) (int (card {v \<in> set ids. (v, ?t, k) \<in> cast c}))"
    if "k = i \<or> k = j" for k
    using that inv assms(3-7)
    by (auto simp: cluster_inv_def elected_inv_def supporters_def raft_is_leader_def raft_get_state_def
        raft_get_current_term_def)
  have once: "d = d'" if "(v, ?t, d) \<in> cast c" "(v, ?t, d') \<in> cast c" for v d d'
    using that inv unfolding cluster_inv_def cast_inv_def by blast
  show ?thesis
    by (rule majority.one_winner [of ids "\<lambda>v k. (v, ?t, k) \<in> cast c", OF once maj maj]) simp_all
qed

text \<open>
  A run of three servers: the first one's timer expires, the second grants its vote, and with that vote
  the first becomes the leader.
\<close>

definition sample_member :: "int \<Rightarrow> nat raft_server" where
  "sample_member i = sample_server\<lparr>me_node := Some (nat (i - 1))\<rparr>"

definition sample_cluster :: "nat cluster" where
  "sample_cluster = \<lparr>servers = sample_member, replies = {}, cast = {}\<rparr>"

lemma sample_member_fields [simp]:
  "current_term (sample_member i) = 1" "voted_for (sample_member i) = -1"
  "me_state (sample_member i) = RAFT_STATE_FOLLOWER" "nodes_list (sample_member i) = [0, 1, 2]"
  "nodes_mem (sample_member i) = nodes_mem sample_server" "me_node (sample_member i) = Some (nat (i - 1))"
  "me_cb (sample_member i) = sample_cbs" "log_of (sample_member i) = log_of sample_server"
  "election_timeout (sample_member i) = 1000" "snapshot_in_progress (sample_member i) = False"
  "commit_idx (sample_member i) = 0" "last_applied_idx (sample_member i) = 0"
  "timeout_elapsed (sample_member i) = 0" "election_timeout_rand (sample_member i) = 1500"
  "snapshot_last_idx (sample_member i) = 0" "node_ids (sample_member i) = [1, 2, 3]"
  by (simp_all add: sample_member_def views node_ids_def)

lemma sample_plain: "plain_log sample_server"
  by (auto simp: plain_log_def pool_ok_def MAX_ENTRIES_def raft_entry_is_cfg_change_def)

lemma sample_cluster_init: "cluster_init [1, 2, 3] sample_cluster"
proof -
  have "plain_log (sample_member i)" for i
    using plain_log_cong [of "sample_member i" sample_server] sample_plain by simp
  moreover have "member_of [1, 2, 3] i (sample_member i)" if "i \<in> {1, 2, 3}" for i
    using that by (auto simp: member_of_def node_read_defs)
  ultimately show ?thesis
    by (auto simp: cluster_init_def sample_cluster_def cast_of_def raft_is_follower_def raft_get_state_def)
qed

lemma sample_member_my_node:
  "raft_get_nodeid (sample_member 1) = 1" "raft_get_my_node (sample_member 1) = Some 0"
  "raft_get_nodeid (sample_member 2) = 2" "raft_get_my_node (sample_member 2) = Some 1"
  "raft_get_num_voting_nodes (sample_member i) = 3"
  "raft_get_node (sample_member i) 1 = Some 0" "raft_get_node (sample_member i) 2 = Some 1"
  by (simp_all add: raft_get_nodeid_def raft_get_my_node_def node_get_defs raft_get_num_voting_nodes_def
      node_read_defs raft_get_node_def)

lemma sample_candidate_step:
  obtains s1 where "server_step ref_contiki (sample_member 1) (Tick 1500) No_Output s1"
    "raft_is_candidate s1" "current_term s1 = 2" "voted_for s1 = 1" "same_voters (sample_member 1) s1"
    "log_of s1 = log_of sample_server" "snapshot_last_idx s1 = 0"
    "\<forall>a \<in> {0, 1, 2}. \<not> raft_node_has_vote_for_me (nodes_mem s1 a)"
proof -
  let ?s = "sample_member 1"
  have "electable ?s"
    by (simp add: electable_def sample_member_my_node raft_snapshot_is_in_progress_def persist_ok_def
        in_int_iff node_read_defs)
  from raft_periodic_elects [OF this, of 1500 ref_contiki] obtain s1
    where run: "raft_periodic ref_contiki ?s 1500 = Ok (0, s1)" and s1: "raft_is_candidate s1"
      "current_term s1 = 2" "voted_for s1 = 1"
    by (auto simp: raft_is_leader_def raft_get_state_def in_int_iff sample_member_my_node)
  have "plain_log ?s" using plain_log_cong [of ?s sample_server] sample_plain by simp
  from postD [OF raft_periodic_roles [OF _ this] run] s1(1)
  have roles: "same_voters ?s s1" "quiet ?s s1 \<or> campaign ?s s1"
    by (simp_all add: sample_member_my_node)
  have "campaign ?s s1"
    using roles(2) s1(1) by (simp add: quiet_def raft_is_candidate_def raft_get_state_def)
  then have "\<forall>a \<in> {0, 1, 2}. \<not> raft_node_has_vote_for_me (nodes_mem s1 a)"
    using roles(1) by (simp add: campaign_def same_voters_def)
  moreover have "ticked ?s s1" using postD [OF raft_periodic_frame run] by simp
  then have "log_of s1 = log_of sample_server" "snapshot_last_idx s1 = 0"
    by (simp_all add: ticked_def config_of_def)
  ultimately show thesis using that [OF tick [OF run] s1 roles(1)] by blast
qed

lemma sample_vote_step:
  obtains r s2 where "server_step ref_contiki (sample_member 2)
      (Requestvote 1 \<lparr>rv_term = 2, candidate_id = 1, last_log_idx = 2, last_log_term = 1\<rparr>)
      (Vote_Reply r) s2" "vote_granted r = 1" "rvr_term r = 2"
proof -
  let ?s = "sample_member 2"
  let ?vr = "\<lparr>rv_term = 2, candidate_id = 1, last_log_idx = 2, last_log_term = 1\<rparr>"
  have "persist_ok (me_cb ?s)" "election_timeout ?s \<noteq> 0" "current_term ?s < 2"
    by (simp_all add: persist_ok_def)
  from step_down_run [OF this, of ref_contiki] obtain t1 t2
    where t: "raft_set_current_term ?s 2 = (0, t1)" "raft_become_follower ref_contiki t1 = Ok t2"
      "answered ?s (t2\<lparr>current_leader := None\<rparr>)" "current_term t2 = 2" "voted_for t2 = -1"
      "me_state t2 = RAFT_STATE_FOLLOWER"
    by blast
  let ?t = "t2\<lparr>current_leader := None\<rparr>"
  have same: "log_of ?t = log_of ?s" "members_of ?t = members_of ?s" "me_cb ?t = me_cb ?s"
    using t(3) by (auto simp: answered_def config_of_def)
  note cong = vote_view_cong [OF same(1,2)]
  have log: "log_of ?s = log_of sample_server" by simp
  note lg = log_of_window [OF log]
  have grant: "may_vote ?s" "log_is_current ?s ?vr"
    "log_lookup ?s (raft_get_current_idx ?s) = Some (sample_entry 1 2)"
    using lg by (simp_all add: may_vote_def sample_member_my_node node_read_defs log_is_current_def
        to_unsigned_def log_lookup_wf)
  have "runs (vote_answer ?t (Some 0) ?vr) (\<lambda>(e, r, s'). vote_granted r = 1 \<and> rvr_term r = 2)"
    using cong grant log_of_window [OF same(1)] t(4-6) sample_member_my_node(4) same(3)
    by (intro runs_mono [OF vote_answer_run]) (auto simp: persist_ok_def)
  then obtain e r s2 where "vote_answer ?t (Some 0) ?vr = Ok (e, r, s2)" "vote_granted r = 1" "rvr_term r = 2"
    by (auto simp: runs_def)
  moreover from this have "raft_recv_requestvote ref_contiki ?s (raft_get_node ?s 1) ?vr = Ok (e, r, s2)"
    using t(1,2) by (simp add: raft_recv_requestvote_def sample_member_my_node raft_get_current_term_def)
  ultimately show thesis using that [OF requestvote] by blast
qed

lemma sample_elected_step:
  assumes "raft_is_candidate s1" "current_term s1 = 2" "voted_for s1 = 1" "same_voters (sample_member 1) s1"
    and "log_of s1 = log_of sample_server" "snapshot_last_idx s1 = 0"
    and "\<forall>a \<in> {0, 1, 2}. \<not> raft_node_has_vote_for_me (nodes_mem s1 a)"
    and "vote_granted r = 1" "rvr_term r = 2"
  obtains s3 where "server_step ref_contiki s1 (Requestvote_Response 2 r) No_Output s3"
    "raft_is_leader s3" "current_term s3 = 2"
proof -
  let ?t = "record_vote s1 (Some 1)"
  note rec = record_vote_frame [of s1 "Some 1"]
  note reads = same_voters_reads [OF assms(4)]
  have mem: "nodes_list s1 = [0, 1, 2]" "me_node s1 = Some 0"
    "\<And>a. raft_node_is_voting (nodes_mem s1 a)" "\<And>a. raft_node_is_active (nodes_mem s1 a)"
    using assms(4) by (simp_all add: same_voters_def node_read_defs)
  have node: "raft_get_node s1 2 = Some 1" "raft_get_nodeid s1 = 1" "raft_get_num_voting_nodes s1 = 3"
    using reads by (simp_all add: sample_member_my_node)
  have mem': "nodes_list ?t = [0, 1, 2]" "me_node ?t = Some 0" "voted_for ?t = 1"
    "\<And>a. raft_node_is_voting (nodes_mem ?t a)" "\<And>a. raft_node_is_active (nodes_mem ?t a)"
    "raft_get_nodeid ?t = 1" "raft_get_num_voting_nodes ?t = 3"
    using rec mem same_voters_reads [OF rec(6)] node assms(3) by (simp_all add: same_voters_def views)
  have "raft_get_nvotes_for_me ?t = 2"
    using assms(7) by (simp add: raft_get_nvotes_for_me_def mem' rec(10) del: One_nat_def)
  then have maj: "raft_votes_is_majority (raft_get_num_voting_nodes ?t) (raft_get_nvotes_for_me ?t)"
    by (simp add: mem' majority_iff del: One_nat_def)
  have "log_of ?t = log_of sample_server" using rec(2) assms(5) by simp
  note lg = log_of_window [OF this]
  have "log_wf ?t" "raft_get_current_idx ?t < INT_MAX" "snapshot_last_idx ?t = 0"
    using lg rec(4) assms(6) by (simp_all add: INT_MAX_def views)
  from raft_become_leader_run [OF ref_contiki_ok this(1,3,2)] obtain s3
    where lead: "raft_become_leader ref_contiki ?t = Ok s3" by blast
  have "raft_recv_requestvote_response ref_contiki s1 (raft_get_node s1 2) r = Ok (0, s3)"
    using assms(1,2,8,9) lead maj
    by (simp add: raft_recv_requestvote_response_def raft_get_current_term_def node record_vote_def)
  moreover from postD [OF leader_after_vote lead] assms(2)
  have "raft_is_leader s3" "current_term s3 = 2"
    by (auto simp: raft_is_leader_def raft_get_state_def election_of_def)
  ultimately show thesis using that [OF requestvote_response] by blast
qed

lemma sample_election:
  "\<exists>c :: nat cluster. cluster_reach ref_contiki [1, 2, 3] c \<and> raft_is_leader (servers c 1) \<and> current_term (servers c 1) = 2"
proof -
  let ?vr = "\<lparr>rv_term = 2, candidate_id = 1, last_log_idx = 2, last_log_term = 1\<rparr>"
  obtain s1 where s1: "server_step ref_contiki (sample_member 1) (Tick 1500) No_Output s1"
    "raft_is_candidate s1" "current_term s1 = 2" "voted_for s1 = 1" "same_voters (sample_member 1) s1"
    "log_of s1 = log_of sample_server" "snapshot_last_idx s1 = 0"
    "\<forall>a \<in> {0, 1, 2}. \<not> raft_node_has_vote_for_me (nodes_mem s1 a)"
    by (rule sample_candidate_step)
  obtain r s2 where s2: "server_step ref_contiki (sample_member 2) (Requestvote 1 ?vr) (Vote_Reply r) s2"
    and r: "vote_granted r = 1" "rvr_term r = 2"
    by (rule sample_vote_step)
  obtain s3 where s3: "server_step ref_contiki s1 (Requestvote_Response 2 r) No_Output s3"
    "raft_is_leader s3" "current_term s3 = 2"
    using sample_elected_step [OF s1(2-8) r] by blast
  define c1 where "c1 = advance sample_cluster 1 (Tick 1500) No_Output s1"
  define c2 where "c2 = advance c1 2 (Requestvote 1 ?vr) (Vote_Reply r) s2"
  define c3 where "c3 = advance c2 1 (Requestvote_Response 2 r) No_Output s3"
  have srv: "servers sample_cluster = sample_member" by (simp add: sample_cluster_def)
  have "cluster_step ref_contiki [1, 2, 3] sample_cluster c1"
    unfolding c1_def by (rule cluster_step.intros) (use s1(1) in \<open>simp_all add: srv admissible_def plain_input_def\<close>)
  moreover have "cluster_step ref_contiki [1, 2, 3] c1 c2"
    unfolding c2_def
    by (rule cluster_step.intros) (use s2 in \<open>simp_all add: c1_def srv admissible_def plain_input_def\<close>)
  moreover have "cluster_step ref_contiki [1, 2, 3] c2 c3"
    unfolding c3_def
    by (rule cluster_step.intros)
       (use s3(1) in \<open>simp_all add: c2_def c1_def admissible_def plain_input_def sent_replies_def\<close>)
  ultimately have "cluster_reach ref_contiki [1, 2, 3] c3"
    using cluster_reach.init [OF sample_cluster_init] by (blast intro: cluster_reach.step)
  with s3 show ?thesis by (intro exI [of _ c3]) (simp add: c3_def)
qed

theorem election_safety_witness:
  "\<exists>c :: nat cluster. cluster_reach ref_contiki [1, 2, 3] c \<and> raft_is_leader (servers c 1) \<and>
     (\<forall>j \<in> {1, 2, 3}. raft_is_leader (servers c j) \<and>
        raft_get_current_term (servers c 1) = raft_get_current_term (servers c j) \<longrightarrow> 1 = j)"
proof -
  obtain c :: "nat cluster" where c: "cluster_reach ref_contiki [1, 2, 3] c" "raft_is_leader (servers c 1)"
    using sample_election by blast
  have one: "1 \<in> set [1, 2, 3 :: int]" by simp
  have "1 = j" if "j \<in> {1, 2, 3}" "raft_is_leader (servers c j)"
    "raft_get_current_term (servers c 1) = raft_get_current_term (servers c j)" for j
    using election_safety [OF ref_contiki_ok c(1) one _ c(2) that(2,3)] that(1) by simp
  with c show ?thesis by (intro exI [of _ c]) auto
qed

end
