(* ===== verification/Raft_Proto.thy ===== *)
theory Raft_Proto
  imports Raft_Cluster
begin

text \<open>
  What goes over the air: the message types of \<^verbatim>\<open>app/proto.h\<close> and the bytes that the
  \<^verbatim>\<open>memcpy\<close> calls of \<^verbatim>\<open>app/main.c\<close> write and read.

  The structures are copied as they lie in memory.  On the target an \<^verbatim>\<open>int\<close>, an
  \<^verbatim>\<open>unsigned short\<close> and a pointer have two bytes, the low one first, and no structure is padded.
  Encoding a structure concatenates its fields; decoding takes them off a buffer again.  Reading past
  the end of a buffer is the fault \<open>Out_Of_Bounds\<close>.
\<close>

section \<open>Message types\<close>

datatype peer_message_type_e =
    MSG_HANDSHAKE
  | MSG_HANDSHAKE_RESPONSE
  | MSG_LEAVE
  | MSG_LEAVE_RESPONSE
  | MSG_REQUESTVOTE
  | MSG_REQUESTVOTE_RESPONSE
  | MSG_APPENDENTRIES
  | MSG_APPENDENTRIES_RESPONSE
  | MSG_CLIENT
  | MSG_CLIENT_RESPONSE

definition peer_message_types :: "peer_message_type_e list" where
  "peer_message_types =
     [MSG_HANDSHAKE, MSG_HANDSHAKE_RESPONSE, MSG_LEAVE, MSG_LEAVE_RESPONSE, MSG_REQUESTVOTE,
      MSG_REQUESTVOTE_RESPONSE, MSG_APPENDENTRIES, MSG_APPENDENTRIES_RESPONSE, MSG_CLIENT,
      MSG_CLIENT_RESPONSE]"

text \<open>The byte of a type is its place in the enumeration; other bytes name no type.\<close>

fun type_byte :: "peer_message_type_e \<Rightarrow> u8" where
  "type_byte MSG_HANDSHAKE = 0"
| "type_byte MSG_HANDSHAKE_RESPONSE = 1"
| "type_byte MSG_LEAVE = 2"
| "type_byte MSG_LEAVE_RESPONSE = 3"
| "type_byte MSG_REQUESTVOTE = 4"
| "type_byte MSG_REQUESTVOTE_RESPONSE = 5"
| "type_byte MSG_APPENDENTRIES = 6"
| "type_byte MSG_APPENDENTRIES_RESPONSE = 7"
| "type_byte MSG_CLIENT = 8"
| "type_byte MSG_CLIENT_RESPONSE = 9"

definition byte_type :: "u8 \<Rightarrow> peer_message_type_e option" where
  "byte_type b = find (\<lambda>t. type_byte t = b) peer_message_types"

definition get_peer_message_type :: "peer_message_type_e option \<Rightarrow> string" where
  "get_peer_message_type pmte =
     (case pmte of
        Some MSG_HANDSHAKE \<Rightarrow> ''MSG_HANDSHAKE''
      | Some MSG_HANDSHAKE_RESPONSE \<Rightarrow> ''MSG_HANDSHAKE_RESPONSE''
      | Some MSG_LEAVE \<Rightarrow> ''MSG_LEAVE''
      | Some MSG_LEAVE_RESPONSE \<Rightarrow> ''MSG_LEAVE_RESPONSE''
      | Some MSG_REQUESTVOTE \<Rightarrow> ''MSG_REQUESTVOTE''
      | Some MSG_REQUESTVOTE_RESPONSE \<Rightarrow> ''MSG_REQUESTVOTE_RESPONSE''
      | Some MSG_APPENDENTRIES \<Rightarrow> ''MSG_APPENDENTRIES''
      | Some MSG_APPENDENTRIES_RESPONSE \<Rightarrow> ''MSG_APPENDENTRIES_RESPONSE''
      | Some MSG_CLIENT \<Rightarrow> ''MSG_CLIENT''
      | Some MSG_CLIENT_RESPONSE \<Rightarrow> ''MSG_CLIENT_RESPONSE''
      | None \<Rightarrow> ''UNKNOWN'')"

section \<open>Fields\<close>

definition put_u16 :: "u16 \<Rightarrow> u8 list" where
  "put_u16 w = [word_of_int (uint w), word_of_int (uint w div 256)]"

definition put_int :: "int \<Rightarrow> u8 list" where
  "put_int i = put_u16 (to_unsigned i)"

fun get_u16 :: "u8 list \<Rightarrow> (u16 \<times> u8 list) result" where
  "get_u16 (a # b # rest) = Ok (word_of_int (uint a + 256 * uint b), rest)"
| "get_u16 _ = Fault Out_Of_Bounds"

definition get_int :: "u8 list \<Rightarrow> (int \<times> u8 list) result" where
  "get_int buf = bind (get_u16 buf) (\<lambda>(w, buf). Ok (to_signed w, buf))"

fun get_byte :: "u8 list \<Rightarrow> (u8 \<times> u8 list) result" where
  "get_byte (b # rest) = Ok (b, rest)"
| "get_byte [] = Fault Out_Of_Bounds"

section \<open>Structures\<close>

definition put_requestvote :: "msg_requestvote \<Rightarrow> u8 list" where
  "put_requestvote m =
     put_int (rv_term m) @ put_int (candidate_id m) @ put_int (last_log_idx m) @ put_int (last_log_term m)"

definition get_requestvote :: "u8 list \<Rightarrow> (msg_requestvote \<times> u8 list) result" where
  "get_requestvote buf =
     bind (get_int buf) (\<lambda>(t, buf). bind (get_int buf) (\<lambda>(c, buf).
     bind (get_int buf) (\<lambda>(i, buf). bind (get_int buf) (\<lambda>(lt, buf).
     Ok (\<lparr>rv_term = t, candidate_id = c, last_log_idx = i, last_log_term = lt\<rparr>, buf)))))"

definition put_requestvote_response :: "msg_requestvote_response \<Rightarrow> u8 list" where
  "put_requestvote_response r = put_int (rvr_term r) @ put_int (vote_granted r)"

definition get_requestvote_response :: "u8 list \<Rightarrow> (msg_requestvote_response \<times> u8 list) result" where
  "get_requestvote_response buf =
     bind (get_int buf) (\<lambda>(t, buf). bind (get_int buf) (\<lambda>(g, buf).
     Ok (\<lparr>rvr_term = t, vote_granted = g\<rparr>, buf)))"

text \<open>All of an appendentries message but the pointer to its entries.\<close>

definition put_appendentries :: "msg_appendentries \<Rightarrow> u8 list" where
  "put_appendentries m =
     put_int (ae_term m) @ put_int (prev_log_idx m) @ put_int (prev_log_term m) @
     put_int (leader_commit m) @ put_int (n_entries m)"

definition get_appendentries :: "u8 list \<Rightarrow> (msg_appendentries \<times> u8 list) result" where
  "get_appendentries buf =
     bind (get_int buf) (\<lambda>(t, buf). bind (get_int buf) (\<lambda>(p, buf).
     bind (get_int buf) (\<lambda>(pt, buf). bind (get_int buf) (\<lambda>(c, buf).
     bind (get_int buf) (\<lambda>(n, buf).
     Ok (\<lparr>ae_term = t, prev_log_idx = p, prev_log_term = pt, leader_commit = c, n_entries = n,
          entries = []\<rparr>, buf))))))"

definition put_appendentries_response :: "msg_appendentries_response \<Rightarrow> u8 list" where
  "put_appendentries_response r =
     put_int (aer_term r) @ put_int (success r) @ put_int (aer_current_idx r) @ put_int (first_idx r)"

definition get_appendentries_response ::
  "u8 list \<Rightarrow> (msg_appendentries_response \<times> u8 list) result" where
  "get_appendentries_response buf =
     bind (get_int buf) (\<lambda>(t, buf). bind (get_int buf) (\<lambda>(su, buf).
     bind (get_int buf) (\<lambda>(c, buf). bind (get_int buf) (\<lambda>(f, buf).
     Ok (\<lparr>aer_term = t, success = su, aer_current_idx = c, first_idx = f\<rparr>, buf)))))"

text \<open>
  An entry with its \<^verbatim>\<open>next\<close> pointer in front, which the sender overwrites with zeros.  The
  receiver gets the pointer and the entry.
\<close>

definition put_entry :: "raft_entry \<Rightarrow> u8 list" where
  "put_entry e =
     put_u16 0 @ put_u16 (ety_term e) @ put_u16 (ety_idx e) @ put_u16 (ety_id e) @
     put_int (ety_type e) @ [fst (ety_data e), snd (ety_data e)]"

definition get_entry :: "u8 list \<Rightarrow> ((u16 \<times> raft_entry) \<times> u8 list) result" where
  "get_entry buf =
     bind (get_u16 buf) (\<lambda>(p, buf). bind (get_u16 buf) (\<lambda>(t, buf).
     bind (get_u16 buf) (\<lambda>(i, buf). bind (get_u16 buf) (\<lambda>(ident, buf).
     bind (get_int buf) (\<lambda>(ty, buf). bind (get_byte buf) (\<lambda>(d0, buf).
     bind (get_byte buf) (\<lambda>(d1, buf).
     Ok ((p, \<lparr>ety_term = t, ety_idx = i, ety_id = ident, ety_type = ty, ety_data = (d0, d1)\<rparr>),
         buf))))))))"

section \<open>Round trips\<close>

named_theorems codec \<open>decoding what was encoded\<close>

lemma byte_type_type_byte [codec]: "byte_type (type_byte t) = Some t"
  by (cases t) (simp_all add: byte_type_def peer_message_types_def)

lemma get_put_u16 [codec]: "get_u16 (put_u16 w @ rest) = Ok (w, rest)"
proof -
  have "0 \<le> uint w" "uint w < 65536" using unsigned_less [of w, where ?'a = int] by simp_all
  then have "uint w div 256 < 256" by linarith
  then have "uint (word_of_int (uint w div 256) :: u8) = uint w div 256"
    using \<open>0 \<le> uint w\<close> by (simp add: uint_word_of_int pos_imp_zdiv_nonneg_iff)
  moreover have "uint (word_of_int (uint w) :: u8) = uint w mod 256"
    by (subst uint_word_of_int) simp
  ultimately have "uint (word_of_int (uint w) :: u8) + 256 * uint (word_of_int (uint w div 256) :: u8) = uint w"
    by simp
  then show ?thesis unfolding put_u16_def append_Cons append_Nil get_u16.simps by simp
qed

lemma get_put_int [codec]: "in_int i \<Longrightarrow> get_int (put_int i @ rest) = Ok (i, rest)"
  by (simp add: get_int_def put_int_def codec)

lemma length_put [simp]: "length (put_u16 w) = 2" "length (put_int i) = 2"
  by (simp_all add: put_u16_def put_int_def)

text \<open>The values of a structure's fields are in the range of their type.\<close>

definition requestvote_ok :: "msg_requestvote \<Rightarrow> bool" where
  "requestvote_ok m \<longleftrightarrow>
     in_int (rv_term m) \<and> in_int (candidate_id m) \<and> in_int (last_log_idx m) \<and> in_int (last_log_term m)"

definition requestvote_response_ok :: "msg_requestvote_response \<Rightarrow> bool" where
  "requestvote_response_ok r \<longleftrightarrow> in_int (rvr_term r) \<and> in_int (vote_granted r)"

definition appendentries_ok :: "msg_appendentries \<Rightarrow> bool" where
  "appendentries_ok m \<longleftrightarrow>
     in_int (ae_term m) \<and> in_int (prev_log_idx m) \<and> in_int (prev_log_term m) \<and>
     in_int (leader_commit m) \<and> in_int (n_entries m)"

definition appendentries_response_ok :: "msg_appendentries_response \<Rightarrow> bool" where
  "appendentries_response_ok r \<longleftrightarrow>
     in_int (aer_term r) \<and> in_int (success r) \<and> in_int (aer_current_idx r) \<and> in_int (first_idx r)"

lemma get_put_requestvote [codec]:
  "requestvote_ok m \<Longrightarrow> get_requestvote (put_requestvote m @ rest) = Ok (m, rest)"
  by (simp add: requestvote_ok_def get_requestvote_def put_requestvote_def codec)

lemma get_put_requestvote_response [codec]:
  "requestvote_response_ok r \<Longrightarrow>
     get_requestvote_response (put_requestvote_response r @ rest) = Ok (r, rest)"
  by (simp add: requestvote_response_ok_def get_requestvote_response_def put_requestvote_response_def codec)

lemma get_put_appendentries [codec]:
  "appendentries_ok m \<Longrightarrow> get_appendentries (put_appendentries m @ rest) = Ok (m\<lparr>entries := []\<rparr>, rest)"
  by (simp add: appendentries_ok_def get_appendentries_def put_appendentries_def codec)

lemma get_put_appendentries_response [codec]:
  "appendentries_response_ok r \<Longrightarrow>
     get_appendentries_response (put_appendentries_response r @ rest) = Ok (r, rest)"
  by (simp add: appendentries_response_ok_def get_appendentries_response_def
      put_appendentries_response_def codec)

lemma get_put_entry [codec]:
  "in_int (ety_type e) \<Longrightarrow> get_entry (put_entry e @ rest) = Ok ((0, e), rest)"
  by (simp add: get_entry_def put_entry_def codec)

text \<open>The same at the end of a buffer.\<close>

lemmas codec_end [codec] =
  get_put_u16 [where rest = "[]", simplified] get_put_int [where rest = "[]", simplified]
  get_put_requestvote [where rest = "[]", simplified]
  get_put_requestvote_response [where rest = "[]", simplified]
  get_put_appendentries [where rest = "[]", simplified]
  get_put_appendentries_response [where rest = "[]", simplified]
  get_put_entry [where rest = "[]", simplified]

lemma length_put_structs [simp]:
  "length (put_requestvote m) = 8" "length (put_requestvote_response r) = 4"
  "length (put_appendentries a) = 10" "length (put_appendentries_response ar) = 8"
  "length (put_entry e) = 12"
  by (simp_all add: put_requestvote_def put_requestvote_response_def put_appendentries_def
      put_appendentries_response_def put_entry_def)

section \<open>What decoding tells\<close>

text \<open>A structure is read from a buffer exactly if the buffer starts with its bytes.\<close>

lemma get_u16_iff: "get_u16 buf = Ok (w, rest) \<longleftrightarrow> buf = put_u16 w @ rest"
proof
  assume "get_u16 buf = Ok (w, rest)"
  then obtain a b where buf: "buf = a # b # rest" and w: "w = word_of_int (uint a + 256 * uint b)"
    by (cases buf rule: get_u16.cases) auto
  have "uint a < 256" "uint b < 256" "0 \<le> uint a" "0 \<le> uint b"
    using uint_lt2p [of a] uint_lt2p [of b] by simp_all
  then have u: "uint w = uint a + 256 * uint b"
    unfolding w uint_word_of_int by (intro mod_pos_pos_trivial) simp_all
  have "word_of_int (uint w div 256) = b" using \<open>uint a < 256\<close> by (simp add: u)
  moreover have "(word_of_int (uint w) :: u8) = a"
  proof (rule word_uint_eqI)
    have "(uint a + 256 * uint b) mod 2 ^ LENGTH(8) = uint a"
      using \<open>uint a < 256\<close> \<open>0 \<le> uint a\<close> by simp
    then show "uint (word_of_int (uint w) :: u8) = uint a" by (simp only: u uint_word_of_int)
  qed
  ultimately show "buf = put_u16 w @ rest" by (simp add: buf put_u16_def)
qed (simp add: codec)

lemma get_int_iff: "get_int buf = Ok (i, rest) \<longleftrightarrow> buf = put_int i @ rest \<and> in_int i"
proof
  assume "get_int buf = Ok (i, rest)"
  then obtain w where "get_u16 buf = Ok (w, rest)" "i = to_signed w" by (auto simp: get_int_def)
  moreover have "in_int (to_signed w)"
    using sint_range_size [of w] by (simp add: to_signed_def in_int_iff word_size)
  ultimately show "buf = put_int i @ rest \<and> in_int i"
    by (simp add: get_u16_iff put_int_def to_unsigned_def to_signed_def)
qed (simp add: codec)

lemma get_requestvote_iff:
  "get_requestvote buf = Ok (m, rest) \<longleftrightarrow> buf = put_requestvote m @ rest \<and> requestvote_ok m"
  by (cases m) (auto simp: get_requestvote_def get_int_iff put_requestvote_def requestvote_ok_def)

lemma get_requestvote_response_iff:
  "get_requestvote_response buf = Ok (m, rest) \<longleftrightarrow>
     buf = put_requestvote_response m @ rest \<and> requestvote_response_ok m"
  by (cases m) (auto simp: get_requestvote_response_def get_int_iff put_requestvote_response_def requestvote_response_ok_def)

lemma get_appendentries_response_iff:
  "get_appendentries_response buf = Ok (m, rest) \<longleftrightarrow>
     buf = put_appendentries_response m @ rest \<and> appendentries_response_ok m"
  by (cases m) (auto simp: get_appendentries_response_def get_int_iff put_appendentries_response_def
      appendentries_response_ok_def)

lemma get_appendentries_iff:
  "get_appendentries buf = Ok (m, rest) \<longleftrightarrow>
     buf = put_appendentries m @ rest \<and> appendentries_ok m \<and> entries m = []"
  by (cases m) (auto simp: get_appendentries_def get_int_iff put_appendentries_def appendentries_ok_def)

lemma byte_type_iff: "byte_type b = Some t \<longleftrightarrow> b = type_byte t"
  using byte_type_type_byte [of t] by (auto simp: byte_type_def find_Some_iff simp del: type_byte.simps)

end
