(* ===== verification/Raft_App.thy ===== *)
theory Raft_App
  imports Raft_Proto
begin

text \<open>
  The application \<^verbatim>\<open>app/main.c\<close>: a Contiki process that drives the library.  It turns the library's
  callbacks into packets, received packets into calls of the library, and timer events into ticks and
  client messages.

  The application's static objects are the library's user data in this model: the identifier of the
  node, the sequence number of the flood, the packets handed to \<^verbatim>\<open>netflood_send\<close>, and the values
  printed by the state machine.  \<^verbatim>\<open>stage_buffer\<close> is cleared and filled anew for every packet, so that
  its contents are the list of bytes written since.  Printing of debug messages is left out.  What the
  platform fixes and the repository does not contain, the size of a packet buffer and the ticks of a
  second, is the argument \<open>pf\<close>.
\<close>

section \<open>State\<close>

record platform =
  PACKETBUF_SIZE :: nat
  CLOCK_SECOND :: int

record app_net =
  sv_node_id :: u16
  netflood_seq :: int
  packets :: "(int \<times> u8 list) list"
  fsm :: "int list"

type_synonym app_server = "app_net raft_server"

definition HEADER_SIZE :: nat where
  "HEADER_SIZE = 4"

definition PAYLOAD_SIZE :: "platform \<Rightarrow> nat" where
  "PAYLOAD_SIZE pf = PACKETBUF_SIZE pf - HEADER_SIZE"

text \<open>The timeouts are converted to \<^verbatim>\<open>int\<close> when they are passed to the library.\<close>

definition ELECTION_TIMEOUT :: "platform \<Rightarrow> int" where
  "ELECTION_TIMEOUT pf = to_signed (to_unsigned (CLOCK_SECOND pf * 50))"

definition REQUEST_TIMEOUT :: "platform \<Rightarrow> int" where
  "REQUEST_TIMEOUT pf = to_signed (to_unsigned (CLOCK_SECOND pf * 8))"

definition RAFT_PERIODIC_TICK :: "platform \<Rightarrow> int" where
  "RAFT_PERIODIC_TICK pf = to_signed (to_unsigned (CLOCK_SECOND pf * 4))"

section \<open>Sending\<close>

text \<open>
  \<^verbatim>\<open>send_data\<close> puts the receiver and the sender in front of the staged bytes;
  \<^verbatim>\<open>packetbuf_copyfrom\<close> copies no more than fits.  The sequence number is a signed \<^verbatim>\<open>int\<close> that the source
  increments without a bound; here it wraps, as it does on the target, instead of being a fault.  Only the
  flood looks at it, as an unsigned byte, and it is not part of the packet.
\<close>

definition send_data :: "platform \<Rightarrow> app_net \<Rightarrow> u8 list \<Rightarrow> u16 \<Rightarrow> app_net" where
  "send_data pf u data nodeid =
     u\<lparr>packets := packets u @
          [(netflood_seq u, take (PACKETBUF_SIZE pf) (put_u16 nodeid @ put_u16 (sv_node_id u) @ data))],
       netflood_seq := to_signed (to_unsigned (netflood_seq u + 1))\<rparr>"

section \<open>Callbacks of the library\<close>

definition app_send_requestvote ::
  "platform \<Rightarrow> app_net \<Rightarrow> raft_node \<Rightarrow> msg_requestvote \<Rightarrow> int \<times> app_net" where
  "app_send_requestvote pf u node m =
     (0, send_data pf u (type_byte MSG_REQUESTVOTE # put_requestvote m)
           (to_unsigned (raft_node_get_id node)))"

text \<open>
  The loop over the entries, from the staging offset \<open>off\<close>: it ends after \<^verbatim>\<open>n_entries\<close> turns, at
  the end of the chain, or when another entry would not fit.  \<^verbatim>\<open>n_entries\<close> in the message stays as
  it was.  On \<^verbatim>\<open>NULL\<close> with entries left the source would copy from \<^verbatim>\<open>NULL\<close>; that does not
  happen, because \<^verbatim>\<open>raft_send_appendentries\<close> asserts that a message with entries has a chain, and the
  model stages nothing.
\<close>

fun stage_entries :: "platform \<Rightarrow> nat \<Rightarrow> nat \<Rightarrow> raft_entry list \<Rightarrow> u8 list" where
  "stage_entries pf off 0 chain = []"
| "stage_entries pf off (Suc n) chain =
     (case chain of
        [] \<Rightarrow> []
      | ety # _ \<Rightarrow>
          let off = off + 12; rest = raft_get_next_log_entry chain
          in put_entry ety @
             (if rest = [] then []
              else if PACKETBUF_SIZE pf \<le> off + 12 then []
              else stage_entries pf off n rest))"

definition app_send_appendentries ::
  "platform \<Rightarrow> app_net \<Rightarrow> raft_node \<Rightarrow> msg_appendentries \<Rightarrow> int \<times> app_net" where
  "app_send_appendentries pf u node m =
     (0, send_data pf u
           (type_byte MSG_APPENDENTRIES # put_appendentries m @
            stage_entries pf 11 (nat (n_entries m)) (entries m))
           (to_unsigned (raft_node_get_id node)))"

text \<open>The state machine prints the two bytes of the entry as an \<^verbatim>\<open>int\<close>.\<close>

definition entry_value :: "raft_entry \<Rightarrow> int" where
  "entry_value ety =
     to_signed (word_of_int (uint (fst (ety_data ety)) + 256 * uint (snd (ety_data ety))))"

definition app_applylog :: "app_net \<Rightarrow> raft_entry \<Rightarrow> int \<Rightarrow> int \<times> app_net" where
  "app_applylog u entry entry_idx = (0, u\<lparr>fsm := fsm u @ [entry_value entry]\<rparr>)"

definition app_persist_vote :: "app_net \<Rightarrow> int \<Rightarrow> int \<times> app_net" where
  "app_persist_vote u v = (0, u)"

definition app_persist_term :: "app_net \<Rightarrow> int \<Rightarrow> int \<Rightarrow> int \<times> app_net" where
  "app_persist_term u t v = (0, u)"

definition app_logentry_offer :: "app_net \<Rightarrow> raft_entry \<Rightarrow> int \<Rightarrow> int \<times> app_net" where
  "app_logentry_offer u ety i = (0, u)"

definition app_logentry_poll :: "app_net \<Rightarrow> raft_entry \<Rightarrow> int \<Rightarrow> int \<times> app_net" where
  "app_logentry_poll u ety i = (-1, u)"

definition app_logentry_pop :: "app_net \<Rightarrow> raft_entry \<Rightarrow> int \<Rightarrow> int \<times> app_net" where
  "app_logentry_pop u ety i = (-1, u)"

text \<open>Both bytes are promoted to \<^verbatim>\<open>int\<close> before the shift.\<close>

definition app_log_get_node_id :: "app_net \<Rightarrow> raft_entry \<Rightarrow> int \<Rightarrow> int \<times> app_net" where
  "app_log_get_node_id u ety i =
     ((uint (fst (ety_data ety)) AND 255) + (drop_bit 8 (uint (snd (ety_data ety))) AND 255), u)"

definition app_node_has_sufficient_logs :: "app_net \<Rightarrow> raft_node \<Rightarrow> int \<times> app_net" where
  "app_node_has_sufficient_logs u node = (-1, u)"

definition raft_funcs :: "platform \<Rightarrow> app_net raft_cbs" where
  "raft_funcs pf =
     \<lparr>cb_send_requestvote = Some (app_send_requestvote pf),
      cb_send_appendentries = Some (app_send_appendentries pf),
      cb_send_snapshot = None,
      cb_applylog = Some app_applylog,
      cb_persist_vote = Some app_persist_vote,
      cb_persist_term = Some app_persist_term,
      cb_log_offer = Some app_logentry_offer,
      cb_log_poll = Some app_logentry_poll,
      cb_log_pop = Some app_logentry_pop,
      cb_log_get_node_id = Some app_log_get_node_id,
      cb_node_has_sufficient_logs = Some app_node_has_sufficient_logs\<rparr>"

section \<open>Handlers of received messages\<close>

text \<open>
  Every handler gets the bytes from the type byte on.  The sender's identifier becomes an
  \<^verbatim>\<open>int\<close> when its node is looked up.
\<close>

definition sender_node :: "app_server \<Rightarrow> u16 \<Rightarrow> nat option" where
  "sender_node s sender = raft_get_node s (to_signed sender)"

definition respond :: "platform \<Rightarrow> app_server \<Rightarrow> u8 list \<Rightarrow> u16 \<Rightarrow> app_server" where
  "respond pf s data nodeid = s\<lparr>udata := send_data pf (udata s) data nodeid\<rparr>"

text \<open>
  The entries are copied one by one into a buffer of \<^verbatim>\<open>PAYLOAD_SIZE\<close> bytes on the stack; \<open>left\<close> is
  what is left of it.
\<close>

fun get_entries :: "nat \<Rightarrow> nat \<Rightarrow> u8 list \<Rightarrow> (u16 \<times> raft_entry) list result" where
  "get_entries left 0 buf = Ok []"
| "get_entries left (Suc n) buf =
     (if left < 12 then Fault Out_Of_Bounds
      else bind (get_entry buf) (\<lambda>(x, buf).
           bind (get_entries (left - 12) n buf) (\<lambda>xs. Ok (x # xs))))"

text \<open>
  The chain the library sees starts at the first copied entry and follows the \<^verbatim>\<open>next\<close> pointers that
  came with the message: with a null pointer it ends there.  Another value points outside the program's
  objects; it is followed only when the message says that there are more entries.
\<close>

definition received_chain :: "(u16 \<times> raft_entry) list \<Rightarrow> raft_entry list result" where
  "received_chain xs =
     (case xs of
        [] \<Rightarrow> Ok []
      | (p, e) # rest \<Rightarrow> if p = 0 \<or> rest = [] then Ok [e] else Fault Out_Of_Bounds)"

definition handle_msg_appendentries ::
  "platform \<Rightarrow> contiki \<Rightarrow> app_server \<Rightarrow> u8 list \<Rightarrow> u16 \<Rightarrow> app_server result" where
  "handle_msg_appendentries pf ct s buf sender =
     (let node = sender_node s sender in
      bind (get_byte buf) (\<lambda>(_, buf).
      bind (get_appendentries buf) (\<lambda>(msg_ae, buf).
      bind (get_entries (PAYLOAD_SIZE pf) (nat (n_entries msg_ae)) buf) (\<lambda>xs.
      bind (received_chain xs) (\<lambda>chain.
      bind (raft_recv_appendentries ct s node (msg_ae\<lparr>entries := chain\<rparr>)) (\<lambda>(e, aer, s).
      bind (c_assert (e = 0)) (\<lambda>_.
      Ok (respond pf s (type_byte MSG_APPENDENTRIES_RESPONSE # put_appendentries_response aer)
            sender))))))))"

definition handle_msg_appendentries_response ::
  "platform \<Rightarrow> contiki \<Rightarrow> app_server \<Rightarrow> u8 list \<Rightarrow> u16 \<Rightarrow> app_server result" where
  "handle_msg_appendentries_response pf ct s buf sender =
     (let node = sender_node s sender in
      if node = None then Ok s
      else
        bind (get_byte buf) (\<lambda>(_, buf).
        bind (get_appendentries_response buf) (\<lambda>(msg_aer, buf).
        bind (raft_recv_appendentries_response ct s node msg_aer) (\<lambda>(e, s). Ok s))))"

definition handle_msg_requestvote ::
  "platform \<Rightarrow> contiki \<Rightarrow> app_server \<Rightarrow> u8 list \<Rightarrow> u16 \<Rightarrow> app_server result" where
  "handle_msg_requestvote pf ct s buf sender =
     (let node = sender_node s sender in
      bind (get_byte buf) (\<lambda>(_, buf).
      bind (get_requestvote buf) (\<lambda>(msg_rv, buf).
      bind (raft_recv_requestvote ct s node msg_rv) (\<lambda>(e, rvr, s).
      bind (c_assert (e = 0)) (\<lambda>_.
      Ok (respond pf s (type_byte MSG_REQUESTVOTE_RESPONSE # put_requestvote_response rvr) sender))))))"

definition handle_msg_requestvote_response ::
  "platform \<Rightarrow> contiki \<Rightarrow> app_server \<Rightarrow> u8 list \<Rightarrow> u16 \<Rightarrow> app_server result" where
  "handle_msg_requestvote_response pf ct s buf sender =
     (let node = sender_node s sender in
      bind (get_byte buf) (\<lambda>(_, buf).
      bind (get_requestvote_response buf) (\<lambda>(msg_rvr, buf).
      bind (raft_recv_requestvote_response ct s node msg_rvr) (\<lambda>(e, s).
      bind (c_assert (e = 0)) (\<lambda>_. Ok s)))))"

text \<open>
  A client message becomes a normal entry with a random identifier; the library's answer is dropped.
  The random generator is the library's.
\<close>

definition app_random :: "contiki \<Rightarrow> app_server \<Rightarrow> u16 \<times> app_server" where
  "app_random ct s = (ct_random_rand ct (rand_calls s), s\<lparr>rand_calls := Suc (rand_calls s)\<rparr>)"

definition handle_msg_client ::
  "platform \<Rightarrow> contiki \<Rightarrow> app_server \<Rightarrow> u8 list \<Rightarrow> u16 \<Rightarrow> app_server result" where
  "handle_msg_client pf ct s buf sender =
     bind (get_byte buf) (\<lambda>(_, buf).
     let (ident, s) = app_random ct s in
     bind (get_byte buf) (\<lambda>(d0, buf).
     bind (get_byte buf) (\<lambda>(d1, buf).
     let entry = \<lparr>ety_term = 0, ety_idx = 0, ety_id = ident, ety_type = RAFT_LOGTYPE_NORMAL,
                  ety_data = (d0, d1)\<rparr>
     in bind (raft_recv_entry ct s entry \<lparr>er_id = 0, er_term = 0, er_idx = 0\<rparr>) (\<lambda>(e, entry, r, s).
        Ok s))))"

definition handle_msg_client_response ::
  "platform \<Rightarrow> contiki \<Rightarrow> app_server \<Rightarrow> u8 list \<Rightarrow> u16 \<Rightarrow> app_server result" where
  "handle_msg_client_response pf ct s buf recv_nodeid = Ok s"

text \<open>
  A received packet: ignored unless it is addressed to this node, otherwise dispatched on its type.  A
  read beyond the end of the packet is a fault here; the source then reads bytes of an earlier packet
  that are left in the static packet buffer.
\<close>

definition recv :: "platform \<Rightarrow> contiki \<Rightarrow> app_server \<Rightarrow> u8 list \<Rightarrow> app_server result" where
  "recv pf ct s buf =
     bind (get_u16 buf) (\<lambda>(intended_recvr, buf).
     if sv_node_id (udata s) \<noteq> intended_recvr then Ok s
     else
       bind (get_u16 buf) (\<lambda>(sender_nodeid, buf).
       bind (get_byte buf) (\<lambda>(b, _).
       case byte_type b of
         Some MSG_APPENDENTRIES \<Rightarrow> handle_msg_appendentries pf ct s buf sender_nodeid
       | Some MSG_APPENDENTRIES_RESPONSE \<Rightarrow> handle_msg_appendentries_response pf ct s buf sender_nodeid
       | Some MSG_REQUESTVOTE \<Rightarrow> handle_msg_requestvote pf ct s buf sender_nodeid
       | Some MSG_REQUESTVOTE_RESPONSE \<Rightarrow> handle_msg_requestvote_response pf ct s buf sender_nodeid
       | Some MSG_CLIENT \<Rightarrow> handle_msg_client pf ct s buf sender_nodeid
       | Some MSG_CLIENT_RESPONSE \<Rightarrow> handle_msg_client_response pf ct s buf sender_nodeid
       | _ \<Rightarrow> Ok s)))"

section \<open>Processes\<close>

text \<open>
  \<^verbatim>\<open>client_new_message\<close>.  The comparison with -1 is between an \<^verbatim>\<open>unsigned short\<close> and an
  \<^verbatim>\<open>int\<close> of the same size, hence unsigned.
\<close>

definition client_new_message :: "platform \<Rightarrow> contiki \<Rightarrow> app_server \<Rightarrow> app_server result" where
  "client_new_message pf ct s =
     (let (r, s) = app_random ct s;
          msg = put_u16 (r mod 10);
          leader_node_id = to_unsigned (raft_get_current_leader s)
      in if leader_node_id = to_unsigned (-1) then Ok s
         else
           let staged = type_byte MSG_CLIENT # msg
           in if leader_node_id \<noteq> sv_node_id (udata s) then Ok (respond pf s staged leader_node_id)
              else handle_msg_client pf ct s staged leader_node_id)"

text \<open>One round of the client process and of the periodic process.\<close>

definition client_process :: "platform \<Rightarrow> contiki \<Rightarrow> app_server \<Rightarrow> app_server result" where
  "client_process pf ct s =
     (let (r, s) = app_random ct s in if r mod 5 = 0 then client_new_message pf ct s else Ok s)"

definition raft_periodic_process :: "platform \<Rightarrow> contiki \<Rightarrow> app_server \<Rightarrow> app_server result" where
  "raft_periodic_process pf ct s =
     bind (raft_periodic ct s (RAFT_PERIODIC_TICK pf)) (\<lambda>(e, s). Ok s)"

text \<open>
  The main process up to the start of the other two, on the program's static storage.  The random
  sequence is the one after \<^verbatim>\<open>random_init\<close>.
\<close>

definition add_others :: "contiki \<Rightarrow> u16 \<Rightarrow> app_server \<Rightarrow> app_server result" where
  "add_others ct self =
     foreach (\<lambda>i s. if to_unsigned i = self then Ok s
                    else bind (raft_add_node ct s i False) (\<lambda>(_, s). Ok s)) [1, 2, 3, 4, 5]"

definition main_process :: "platform \<Rightarrow> contiki \<Rightarrow> app_server \<Rightarrow> u16 \<Rightarrow> app_server result" where
  "main_process pf ct s nid =
     bind (raft_new ct (s\<lparr>udata := (udata s)\<lparr>sv_node_id := nid\<rparr>\<rparr>)) (\<lambda>s.
     let s = raft_set_callbacks s (raft_funcs pf) (udata s) in
     bind (raft_set_election_timeout ct s (ELECTION_TIMEOUT pf)) (\<lambda>s.
     let s = raft_set_request_timeout s (REQUEST_TIMEOUT pf) in
     bind (raft_add_node ct s (to_signed nid) True) (\<lambda>(_, s).
     bind (add_others ct nid s) (\<lambda>s.
     let (r, s) = app_random ct s
     in Ok (s\<lparr>udata := (udata s)\<lparr>netflood_seq := to_signed r\<rparr>\<rparr>)))))"

end
