(* ===== verification/Raft_Transport.thy ===== *)
theory Raft_Transport
  imports Raft_App
begin

text \<open>
  What becomes of a message between two nodes that run the application: the bytes of a packet, how
  \<^verbatim>\<open>recv\<close> takes them apart, and which call of the library comes out at the other end.
\<close>

section \<open>Packets\<close>

text \<open>What is in the packet that \<^verbatim>\<open>send_data\<close> hands to the network.\<close>

definition packet :: "platform \<Rightarrow> u16 \<Rightarrow> u16 \<Rightarrow> u8 list \<Rightarrow> u8 list" where
  "packet pf receiver sender data = take (PACKETBUF_SIZE pf) (put_u16 receiver @ put_u16 sender @ data)"

lemma send_data_packet:
  "packets (send_data pf u data nodeid) =
     packets u @ [(netflood_seq u, packet pf nodeid (sv_node_id u) data)]"
  by (simp add: send_data_def packet_def)

lemma packet_fits:
  "length data + 4 \<le> PACKETBUF_SIZE pf \<Longrightarrow>
     packet pf receiver sender data = put_u16 receiver @ put_u16 sender @ data"
  by (simp add: packet_def)

lemma get_byte_Cons [codec]: "get_byte (b # rest) = Ok (b, rest)"
  by simp

lemma recv_other:
  "length data + 4 \<le> PACKETBUF_SIZE pf \<Longrightarrow> sv_node_id (udata s) \<noteq> receiver \<Longrightarrow>
     recv pf ct s (packet pf receiver sender data) = Ok s"
  by (simp add: recv_def packet_fits codec)

lemma recv_dispatch:
  assumes "Suc (length data) + 4 \<le> PACKETBUF_SIZE pf" "sv_node_id (udata s) = receiver"
  shows "recv pf ct s (packet pf receiver sender (type_byte t # data)) =
    (case t of
       MSG_APPENDENTRIES \<Rightarrow> handle_msg_appendentries pf ct s (type_byte t # data) sender
     | MSG_APPENDENTRIES_RESPONSE \<Rightarrow> handle_msg_appendentries_response pf ct s (type_byte t # data) sender
     | MSG_REQUESTVOTE \<Rightarrow> handle_msg_requestvote pf ct s (type_byte t # data) sender
     | MSG_REQUESTVOTE_RESPONSE \<Rightarrow> handle_msg_requestvote_response pf ct s (type_byte t # data) sender
     | MSG_CLIENT \<Rightarrow> handle_msg_client pf ct s (type_byte t # data) sender
     | MSG_CLIENT_RESPONSE \<Rightarrow> handle_msg_client_response pf ct s (type_byte t # data) sender
     | _ \<Rightarrow> Ok s)"
proof -
  have "packet pf receiver sender (type_byte t # data) = put_u16 receiver @ put_u16 sender @ type_byte t # data"
    using assms(1) by (intro packet_fits) simp
  then show ?thesis
    using assms(2) byte_type_type_byte [of t]
    by (simp add: recv_def codec del: type_byte.simps split: peer_message_type_e.split)
qed

text \<open>What each of the three messages does at a node that receives its packet.\<close>

lemma requestvote_arrives:
  assumes "requestvote_ok rv" "13 \<le> PACKETBUF_SIZE pf"
  shows "recv pf ct s (packet pf receiver sender (type_byte MSG_REQUESTVOTE # put_requestvote rv)) =
      (if sv_node_id (udata s) \<noteq> receiver then Ok s
       else bind (raft_recv_requestvote ct s (raft_get_node s (to_signed sender)) rv) (\<lambda>(e, r, s').
            bind (c_assert (e = 0)) (\<lambda>_.
            Ok (respond pf s' (type_byte MSG_REQUESTVOTE_RESPONSE # put_requestvote_response r) sender))))"
  using assms
  by (simp add: recv_other recv_dispatch handle_msg_requestvote_def codec sender_node_def del: type_byte.simps)

lemma requestvote_response_arrives:
  assumes "requestvote_response_ok rvr" "13 \<le> PACKETBUF_SIZE pf"
  shows "recv pf ct s (packet pf receiver sender (type_byte MSG_REQUESTVOTE_RESPONSE # put_requestvote_response rvr)) =
      (if sv_node_id (udata s) \<noteq> receiver then Ok s
       else bind (raft_recv_requestvote_response ct s (raft_get_node s (to_signed sender)) rvr) (\<lambda>(e, s').
            bind (c_assert (e = 0)) (\<lambda>_. Ok s')))"
  using assms
  by (simp add: recv_other recv_dispatch handle_msg_requestvote_response_def codec sender_node_def
      del: type_byte.simps)

lemma appendentries_response_arrives:
  assumes "appendentries_response_ok aer" "13 \<le> PACKETBUF_SIZE pf"
  shows "recv pf ct s (packet pf receiver sender (type_byte MSG_APPENDENTRIES_RESPONSE # put_appendentries_response aer)) =
      (if sv_node_id (udata s) \<noteq> receiver \<or> raft_get_node s (to_signed sender) = None then Ok s
       else bind (raft_recv_appendentries_response ct s (raft_get_node s (to_signed sender)) aer)
              (\<lambda>(e, s'). Ok s'))"
  using assms
  by (cases "sv_node_id (udata s) = receiver")
     (auto simp: recv_other recv_dispatch handle_msg_appendentries_response_def codec sender_node_def
       Let_def simp del: type_byte.simps)

lemma respond_packet:
  "packets (udata (respond pf s data nodeid)) =
     packets (udata s) @ [(netflood_seq (udata s), packet pf nodeid (sv_node_id (udata s)) data)]"
  by (simp add: respond_def send_data_packet)

text \<open>
  C30: Vote requests, votes and append acknowledgements arrive as they were sent.  The packet \<open>p\<close> that the
  callback for vote requests hands to the network has no effect on a node it is not addressed to; the
  node it is addressed to calls the library with exactly the request that was sent and with the node of
  the sender.  If the library answers, the node hands one packet \<open>q\<close> to the network, which makes the node that
  asked, and no other, call the library with exactly this vote and with the node of the voter.  In the
  same way the packet that the handler of appendentries messages sends brings the acknowledgement to the
  leader, if the leader knows the node.  The fields of the messages are in the range of \<^verbatim>\<open>int\<close> and a packet
  holds at least 13 bytes.
\<close>

theorem messages_arrive:
  assumes "requestvote_ok rv" "13 \<le> PACKETBUF_SIZE pf"
  shows "(\<exists>p. packets (snd (app_send_requestvote pf u node rv)) = packets u @ [(netflood_seq u, p)] \<and>
      (\<forall>s. sv_node_id (udata s) \<noteq> to_unsigned (node_id node) \<longrightarrow> recv pf ct s p = Ok s) \<and>
      (\<forall>s e r s1. sv_node_id (udata s) = to_unsigned (node_id node) \<and>
         raft_recv_requestvote ct s (raft_get_node s (to_signed (sv_node_id u))) rv = Ok (e, r, s1) \<longrightarrow>
         (if e \<noteq> 0 then recv pf ct s p = Fault Assert_Failed
          else \<exists>s2 q. recv pf ct s p = Ok s2 \<and> s2\<lparr>udata := udata s1\<rparr> = s1 \<and>
            packets (udata s2) = packets (udata s1) @ [(netflood_seq (udata s1), q)] \<and>
            (requestvote_response_ok r \<longrightarrow>
             (\<forall>t. recv pf ct t q =
                (if sv_node_id (udata t) \<noteq> sv_node_id u then Ok t
                 else bind (raft_recv_requestvote_response ct t
                              (raft_get_node t (to_signed (sv_node_id (udata s1)))) r)
                        (\<lambda>(e, t'). bind (c_assert (e = 0)) (\<lambda>_. Ok t')))))))) \<and>
    (\<forall>s buf sender s2. handle_msg_appendentries pf ct s buf sender = Ok s2 \<longrightarrow>
      (\<exists>ae r s1 q. raft_recv_appendentries ct s (raft_get_node s (to_signed sender)) ae = Ok (0, r, s1) \<and>
         s2\<lparr>udata := udata s1\<rparr> = s1 \<and>
         packets (udata s2) = packets (udata s1) @ [(netflood_seq (udata s1), q)] \<and>
         (appendentries_response_ok r \<longrightarrow>
          (\<forall>t. recv pf ct t q =
             (if sv_node_id (udata t) \<noteq> sender \<or> raft_get_node t (to_signed (sv_node_id (udata s1))) = None then Ok t
              else bind (raft_recv_appendentries_response ct t
                           (raft_get_node t (to_signed (sv_node_id (udata s1)))) r) (\<lambda>(e, t'). Ok t'))))))"
    (is "?request \<and> ?answer")
proof
  let ?p = "packet pf (to_unsigned (node_id node)) (sv_node_id u) (type_byte MSG_REQUESTVOTE # put_requestvote rv)"
  have sent: "packets (snd (app_send_requestvote pf u node rv)) = packets u @ [(netflood_seq u, ?p)]"
    by (simp add: app_send_requestvote_def send_data_packet node_get_defs)
  show ?request
  proof (intro exI [of _ ?p] conjI allI impI, goal_cases)
    case 1
    show ?case by (rule sent)
  next
    case (2 s)
    then show ?case by (simp add: requestvote_arrives [OF assms] del: type_byte.simps)
  next
    case (3 s e r s1)
    let ?s2 = "respond pf s1 (type_byte MSG_REQUESTVOTE_RESPONSE # put_requestvote_response r) (sv_node_id u)"
    have run: "recv pf ct s ?p = (if e \<noteq> 0 then Fault Assert_Failed else Ok ?s2)"
      using 3 by (simp add: requestvote_arrives [OF assms] c_assert_def del: type_byte.simps)
    moreover have "?s2\<lparr>udata := udata s1\<rparr> = s1" by (simp add: respond_def)
    ultimately show ?case
      using respond_packet [of pf s1] requestvote_response_arrives [OF _ assms(2)] by auto
  qed
  show ?answer
  proof (intro allI impI)
    fix s buf sender s2
    assume "handle_msg_appendentries pf ct s buf sender = Ok s2"
    then obtain ae r s1 where run: "raft_recv_appendentries ct s (raft_get_node s (to_signed sender)) ae = Ok (0, r, s1)"
      and s2: "s2 = respond pf s1 (type_byte MSG_APPENDENTRIES_RESPONSE # put_appendentries_response r) sender"
      by (auto simp: handle_msg_appendentries_def sender_node_def)
    let ?q = "packet pf sender (sv_node_id (udata s1)) (type_byte MSG_APPENDENTRIES_RESPONSE # put_appendentries_response r)"
    have "s2\<lparr>udata := udata s1\<rparr> = s1" by (simp add: s2 respond_def)
    moreover have "packets (udata s2) = packets (udata s1) @ [(netflood_seq (udata s1), ?q)]"
      by (simp only: s2 respond_packet)
    ultimately show "\<exists>ae r s1 q. raft_recv_appendentries ct s (raft_get_node s (to_signed sender)) ae = Ok (0, r, s1) \<and>
         s2\<lparr>udata := udata s1\<rparr> = s1 \<and>
         packets (udata s2) = packets (udata s1) @ [(netflood_seq (udata s1), q)] \<and>
         (appendentries_response_ok r \<longrightarrow>
          (\<forall>t. recv pf ct t q =
             (if sv_node_id (udata t) \<noteq> sender \<or> raft_get_node t (to_signed (sv_node_id (udata s1))) = None then Ok t
              else bind (raft_recv_appendentries_response ct t
                           (raft_get_node t (to_signed (sv_node_id (udata s1)))) r) (\<lambda>(e, t'). Ok t'))))"
      using run appendentries_response_arrives [OF _ assms(2)] by blast
  qed
qed

definition sky :: platform where
  "sky = \<lparr>PACKETBUF_SIZE = 128, CLOCK_SECOND = 128\<rparr>"

definition sample_app :: app_server where
  "sample_app =
     (static_storage \<lparr>sv_node_id = 1, netflood_seq = 0, packets = [], fsm = []\<rparr>)\<lparr>current_term := 1,
       voted_for := -1,
       me_log := \<lparr>log_size = 10, count = 2, base = 0, entries_list = [0, 1], log_cb = True\<rparr>,
       me_state := RAFT_STATE_FOLLOWER, nodes_list := [0, 1, 2], num_nodes := 3,
       election_timeout := 1000, election_timeout_rand := 1500, request_timeout := 200,
       me_cb := raft_funcs sky, me_node := Some 0, voting_cfg_change_log_idx := -1,
       entries_mem := (\<lambda>a. sample_entry 1 (if a = 0 then 1 else 2)), entries_used := {0, 1},
       nodes_mem := (\<lambda>a. \<lparr>next_idx = 3, match_idx = 0, flags = 2, node_id = int a + 1\<rparr>),
       nodes_used := {0, 1, 2}\<rparr>"

text \<open>
  A vote request of node 2 for an old term, addressed to node 1: it reaches the library of node 1, which
  declines, and nothing happens when node 1 overhears its own answer, which is addressed to node 2.
\<close>

lemma sample_app_fields [simp]:
  "current_term sample_app = 1" "voted_for sample_app = -1" "me_state sample_app = RAFT_STATE_FOLLOWER"
  "log_of sample_app = log_of sample_server" "members_of sample_app = members_of sample_server"
  "me_cb sample_app = raft_funcs sky" "commit_idx sample_app = 0" "log_cb (me_log sample_app)"
  "udata sample_app = \<lparr>sv_node_id = 1, netflood_seq = 0, packets = [], fsm = []\<rparr>"
  by (simp_all add: sample_app_def static_storage_def views)

lemma sample_app_nodes:
  "raft_get_node sample_app 2 = Some (Suc 0)" "raft_get_my_node sample_app = Some 0"
  "raft_get_nodeid sample_app = 1" "raft_node_is_voting (nodes_mem sample_app 0)"
  by (simp_all add: sample_app_def static_storage_def raft_get_node_def raft_get_my_node_def
      raft_get_nodeid_def node_get_defs node_read_defs)

theorem messages_arrive_witness:
  "\<exists>p q s'. packets (snd (app_send_requestvote sky \<lparr>sv_node_id = 2, netflood_seq = 7, packets = [], fsm = []\<rparr>
       \<lparr>next_idx = 3, match_idx = 0, flags = 2, node_id = 1\<rparr>
       \<lparr>rv_term = 0, candidate_id = 2, last_log_idx = 2, last_log_term = 0\<rparr>)) = [(7, p)] \<and>
     recv sky ref_contiki sample_app p = Ok s' \<and> packets (udata s') = [(0, q)] \<and>
     recv sky ref_contiki sample_app q = Ok sample_app"
proof -
  let ?rv = "\<lparr>rv_term = 0, candidate_id = 2, last_log_idx = 2, last_log_term = 0\<rparr>"
  let ?u = "\<lparr>sv_node_id = 2, netflood_seq = 7, packets = [], fsm = []\<rparr>"
  let ?node = "\<lparr>next_idx = 3, match_idx = 0, flags = 2, node_id = 1\<rparr>"
  have ok: "requestvote_ok ?rv" "13 \<le> PACKETBUF_SIZE sky" "requestvote_response_ok \<lparr>rvr_term = 1, vote_granted = 0\<rparr>"
    by (simp_all add: requestvote_ok_def requestvote_response_ok_def in_int_iff sky_def)
  have two: "to_signed 2 = 2" by (simp add: to_signed_def)
  have run: "raft_recv_requestvote ref_contiki sample_app (raft_get_node sample_app 2) ?rv =
      Ok (0, \<lparr>rvr_term = 1, vote_granted = 0\<rparr>, sample_app)"
    by (simp add: raft_recv_requestvote_def vote_answer_def should_grant_vote_def requestvote_done_def
        sample_app_nodes raft_get_current_term_def)
  have at: "sv_node_id (udata sample_app) = to_unsigned (node_id ?node)" by (simp add: to_unsigned_def)
  from messages_arrive [OF ok(1,2), of ?u ?node ref_contiki, THEN conjunct1] obtain p
    where p: "packets (snd (app_send_requestvote sky ?u ?node ?rv)) = packets ?u @ [(netflood_seq ?u, p)]"
      and arr: "\<exists>s' q. recv sky ref_contiki sample_app p = Ok s' \<and>
        packets (udata s') = packets (udata sample_app) @ [(netflood_seq (udata sample_app), q)] \<and>
        recv sky ref_contiki sample_app q = Ok sample_app"
  proof (elim exE conjE, goal_cases)
    case (1 p)
    from 1(4) [rule_format, OF conjI, OF at, of 0 "\<lparr>rvr_term = 1, vote_granted = 0\<rparr>" sample_app] run two ok(3)
    have "\<exists>s' q. recv sky ref_contiki sample_app p = Ok s' \<and>
        packets (udata s') = packets (udata sample_app) @ [(netflood_seq (udata sample_app), q)] \<and>
        recv sky ref_contiki sample_app q = Ok sample_app"
      by auto
    with 1(2) show ?case by (rule 1(1))
  qed
  from p arr show ?thesis by auto
qed

section \<open>Appendentries packets\<close>

lemma stage_entries_fit:
  assumes "PACKETBUF_SIZE pf = 128" "k < 9"
  shows "stage_entries pf (11 + 12 * k) n chain = concat (map put_entry (take (min n (9 - k)) chain))"
  using assms(2)
proof (induction n arbitrary: k chain)
  case (Suc n)
  show ?case
  proof (cases chain)
    case (Cons e rest)
    have next_rest: "raft_get_next_log_entry chain = rest"
      by (simp add: Cons raft_get_next_log_entry_def log_get_next_entry_def)
    show ?thesis
    proof (cases "k = 8")
      case True
      then show ?thesis using assms(1) Cons next_rest by (simp add: Let_def)
    next
      case False
      then have k: "Suc k < 9" using Suc.prems by simp
      have "min (Suc n) (9 - k) = Suc (min n (9 - Suc k))" using k by simp
      with Suc.IH [OF k, of rest] k assms(1) Cons next_rest show ?thesis
        by (simp add: Let_def algebra_simps)
    qed
  qed simp
qed simp

text \<open>Reading back what was staged; after that the buffer is empty.\<close>

lemma get_entries_staged:
  assumes "\<forall>e \<in> set es. in_int (ety_type e)" "12 * length es \<le> left"
  shows "get_entries left (length es) (concat (map put_entry es)) = Ok (map (\<lambda>e. (0, e)) es)"
  using assms
  by (induction es arbitrary: left) (auto simp: codec)

lemma get_entries_short:
  assumes "\<forall>e \<in> set es. in_int (ety_type e)" "length es < n"
  shows "get_entries left n (concat (map put_entry es)) = Fault Out_Of_Bounds"
  using assms
proof (induction es arbitrary: left n)
  case Nil
  then show ?case by (cases n) (simp_all add: get_entry_def)
next
  case (Cons e es)
  then obtain m where "n = Suc m" "length es < m" by (cases n) auto
  with Cons show ?case by (simp add: codec)
qed

lemma length_concat_put_entry [simp]: "length (concat (map put_entry es)) = 12 * length es"
  by (induction es) auto

lemma appendentries_packet:
  assumes "appendentries_ok m" "n_entries m = int (length (entries m))" "PACKETBUF_SIZE pf = 128"
    and "\<forall>e \<in> set (entries m). in_int (ety_type e)" "sv_node_id (udata s) = to_unsigned (node_id node)"
  shows "\<exists>p. packets (snd (app_send_appendentries pf u node m)) = packets u @ [(netflood_seq u, p)] \<and>
    length p = 15 + 12 * min 9 (length (entries m)) \<and>
    recv pf ct s p =
      (if length (entries m) \<le> 9
       then bind (raft_recv_appendentries ct s (raft_get_node s (to_signed (sv_node_id u)))
                   (m\<lparr>entries := take 1 (entries m)\<rparr>)) (\<lambda>(e, r, s').
            bind (c_assert (e = 0)) (\<lambda>_.
            Ok (respond pf s' (type_byte MSG_APPENDENTRIES_RESPONSE # put_appendentries_response r)
                  (sv_node_id u))))
       else Fault Out_Of_Bounds)"
proof -
  let ?es = "take 9 (entries m)"
  let ?data = "put_appendentries m @ concat (map put_entry ?es)"
  let ?p = "packet pf (to_unsigned (node_id node)) (sv_node_id u) (type_byte MSG_APPENDENTRIES # ?data)"
  have "stage_entries pf 11 (length (entries m)) (entries m) = concat (map put_entry ?es)"
    using stage_entries_fit [OF assms(3), of 0 "length (entries m)" "entries m"] by (simp add: min_def)
  then have sent: "packets (snd (app_send_appendentries pf u node m)) = packets u @ [(netflood_seq u, ?p)]"
    using assms(2) by (simp add: app_send_appendentries_def send_data_packet node_get_defs)
  have len: "Suc (length ?data) + 4 \<le> PACKETBUF_SIZE pf"
    using assms(3) by simp
  have ty: "\<forall>e \<in> set ?es. in_int (ety_type e)" using assms(4) by (meson in_set_takeD)
  have hdl: "recv pf ct s ?p = handle_msg_appendentries pf ct s (type_byte MSG_APPENDENTRIES # ?data) (sv_node_id u)"
    using recv_dispatch [OF len assms(5), where t = MSG_APPENDENTRIES] by simp
  have n: "nat (n_entries m) = length (entries m)" using assms(2) by simp
  have "recv pf ct s ?p =
      (if length (entries m) \<le> 9
       then bind (raft_recv_appendentries ct s (raft_get_node s (to_signed (sv_node_id u)))
                   (m\<lparr>entries := take 1 (entries m)\<rparr>)) (\<lambda>(e, r, s').
            bind (c_assert (e = 0)) (\<lambda>_.
            Ok (respond pf s' (type_byte MSG_APPENDENTRIES_RESPONSE # put_appendentries_response r)
                  (sv_node_id u))))
       else Fault Out_Of_Bounds)"
  proof (cases "length (entries m) \<le> 9")
    case True
    then have es: "?es = entries m" by simp
    have "get_entries (PAYLOAD_SIZE pf) (nat (n_entries m)) (concat (map put_entry ?es)) =
        Ok (map (\<lambda>e. (0, e)) (entries m))"
      using get_entries_staged [OF assms(4), of "PAYLOAD_SIZE pf"] True assms(3) es n
      by (simp add: PAYLOAD_SIZE_def HEADER_SIZE_def)
    moreover have "received_chain (map (\<lambda>e. (0, e)) (entries m)) = Ok (take 1 (entries m))"
      by (cases "entries m") (simp_all add: received_chain_def)
    ultimately show ?thesis
      using hdl True get_put_appendentries [OF assms(1), of "concat (map put_entry ?es)"]
      by (simp add: handle_msg_appendentries_def sender_node_def)
  next
    case False
    then have "get_entries (PAYLOAD_SIZE pf) (nat (n_entries m)) (concat (map put_entry ?es)) =
        Fault Out_Of_Bounds"
      using n by (intro get_entries_short [OF ty]) simp
    then show ?thesis
      using hdl False get_put_appendentries [OF assms(1), of "concat (map put_entry ?es)"]
      by (simp add: handle_msg_appendentries_def)
  qed
  moreover have "length ?p = 15 + 12 * min 9 (length (entries m))"
    using packet_fits [of "type_byte MSG_APPENDENTRIES # ?data" pf] len by (simp add: min.commute)
  ultimately show ?thesis using sent by blast
qed

text \<open>
  C31: What an appendentries message becomes on its way, with packet buffers of 128 bytes.  A message
  with at most one entry arrives unchanged.  One with two to nine entries arrives as a message that
  announces all of them but gives the library the first one only, because the copied entries are not
  linked.  One with more entries is cut off in the packet while its count is not, and the receiver
  reads past the end of the packet.  The packet, with its header, always fits the staging buffer.
\<close>

theorem appendentries_arrive:
  assumes "appendentries_ok m" "n_entries m = int (length (entries m))" "PACKETBUF_SIZE pf = 128"
    and "\<forall>e \<in> set (entries m). in_int (ety_type e)" "sv_node_id (udata s) = to_unsigned (node_id node)"
  shows "\<exists>p. packets (snd (app_send_appendentries pf u node m)) = packets u @ [(netflood_seq u, p)] \<and>
    length p = 15 + 12 * min 9 (length (entries m)) \<and>
    recv pf ct s p =
      (if length (entries m) \<le> 9
       then bind (raft_recv_appendentries ct s (raft_get_node s (to_signed (sv_node_id u)))
                   (m\<lparr>entries := take 1 (entries m)\<rparr>)) (\<lambda>(e, r, s').
            bind (c_assert (e = 0)) (\<lambda>_.
            Ok (respond pf s' (type_byte MSG_APPENDENTRIES_RESPONSE # put_appendentries_response r)
                  (sv_node_id u))))
       else Fault Out_Of_Bounds)"
  by (rule appendentries_packet [OF assms])

theorem appendentries_arrive_witness:
  "\<exists>p. packets (snd (app_send_appendentries sky \<lparr>sv_node_id = 2, netflood_seq = 0, packets = [], fsm = []\<rparr>
        \<lparr>next_idx = 1, match_idx = 0, flags = 2, node_id = 1\<rparr>
        \<lparr>ae_term = 1, prev_log_idx = 2, prev_log_term = 1, leader_commit = 0, n_entries = 10,
         entries = replicate 10 (sample_entry 1 3)\<rparr>)) = [(0, p)] \<and>
      length p = 123 \<and> recv sky ref_contiki sample_app p = Fault Out_Of_Bounds"
proof -
  let ?m = "\<lparr>ae_term = 1, prev_log_idx = 2, prev_log_term = 1, leader_commit = 0, n_entries = 10,
         entries = replicate 10 (sample_entry 1 3)\<rparr>"
  have "appendentries_ok ?m" "n_entries ?m = int (length (entries ?m))" "PACKETBUF_SIZE sky = 128"
    "\<forall>e \<in> set (entries ?m). in_int (ety_type e)"
    "sv_node_id (udata sample_app) = to_unsigned (node_id \<lparr>next_idx = 1, match_idx = 0, flags = 2, node_id = 1\<rparr>)"
    by (simp_all add: appendentries_ok_def in_int_iff sky_def to_unsigned_def)
  from appendentries_arrive [OF this, where u = "\<lparr>sv_node_id = 2, netflood_seq = 0, packets = [], fsm = []\<rparr>"
      and ct = ref_contiki]
  show ?thesis by simp
qed

section \<open>Conflicts and duplicates\<close>

lemma ae_check_entries:
  fixes s :: "'u raft_server"
  assumes "ae_prev_ok s ae" "entries ae' = xs" "ae' = ae\<lparr>entries := xs\<rparr>"
    and "ae_term ae = current_term s" "\<not> raft_is_candidate s"
  shows "raft_recv_appendentries ct s node ae' =
    ae_entries ct (s\<lparr>current_leader := node, timeout_elapsed := 0\<rparr>) ae'"
proof -
  let ?s = "s\<lparr>current_leader := node, timeout_elapsed := 0\<rparr>"
  have "log_of ?s = log_of s" by (simp add: views)
  note same = log_of_window [OF this]
  have "ae_check ct s node ae' = ae_entries ct ?s ae'"
    using same assms(1,3)
    by (auto simp: ae_check_def Let_def ae_prev_ok_def log_lookup_def raft_get_entry_from_idx_def)
  with assms(3-5) show ?thesis by (simp add: raft_recv_appendentries_def)
qed

text \<open>
  C34: A conflict stops a node.  When the entry of a message of the current term conflicts with an
  uncommitted entry at the same index, which is when Raft replaces the follower's entry, the node
  refuses to delete it, because its \<^verbatim>\<open>log_pop\<close> callback reports failure, and its handler runs
  into \<^verbatim>\<open>assert(e == 0)\<close>.
\<close>

theorem conflict_stops_node:
  assumes "log_wf s" "me_cb s = raft_funcs pf" "log_cb (me_log s)" "PACKETBUF_SIZE pf = 128"
    and "appendentries_ok m" "n_entries m = 1" "entries m = [e]" "in_int (ety_type e)"
    and "sv_node_id (udata s) = to_unsigned (node_id node)"
    and "\<not> raft_is_candidate s" "ae_term m = current_term s" "ae_prev_ok s m"
    and "log_lookup s (prev_log_idx m + 1) = Some x" "ety_term x \<noteq> ety_term e"
    and "commit_idx s \<le> prev_log_idx m"
  shows "\<exists>p. packets (snd (app_send_appendentries pf u node m)) = packets u @ [(netflood_seq u, p)] \<and>
    recv pf ct s p = Fault Assert_Failed"
proof -
  let ?i = "prev_log_idx m + 1" and ?n = "raft_get_node s (to_signed (sv_node_id u))"
  let ?s = "s\<lparr>current_leader := ?n, timeout_elapsed := 0\<rparr>"
  let ?t = "if ?i \<le> voting_cfg_change_log_idx s then ?s\<lparr>voting_cfg_change_log_idx := -1\<rparr> else ?s"
  have m: "m\<lparr>entries := [e]\<rparr> = m" using assms(7) by (cases m) simp
  obtain p where p: "packets (snd (app_send_appendentries pf u node m)) = packets u @ [(netflood_seq u, p)]"
    and r: "recv pf ct s p = bind (raft_recv_appendentries ct s ?n m) (\<lambda>(e, r, s').
            bind (c_assert (e = 0)) (\<lambda>_.
            Ok (respond pf s' (type_byte MSG_APPENDENTRIES_RESPONSE # put_appendentries_response r)
                  (sv_node_id u))))"
    using appendentries_packet [OF assms(5) _ assms(4) _ assms(9), where u = u and ct = ct] assms(6-8) m by auto
  have prev: "0 \<le> prev_log_idx m" by (rule ae_prev_range(1) [OF assms(1,12)])
  obtain a where a: "raft_get_entry_from_idx s ?i = Some a" "x = entries_mem s a"
    using assms(13) by (auto simp: log_lookup_def raft_get_entry_from_idx_def)
  have rng: "in_int ?i"
    using assms(13) prev current_idx_range(2) [OF assms(1)]
    by (auto simp: log_lookup_wf [OF assms(1)] in_int_iff split: if_splits)
  have base: "base (me_log s) = 0" "find_idx (entries_mem s) (entries_list (me_log s)) ?i = Some a"
    using a(1) assms(1) prev
    by (auto simp: log_wf_def raft_get_entry_from_idx_def log_get_at_idx_def Let_def split: if_splits)
  have "log_delete ct ?t ?i = Ok (-1, ?t\<lparr>udata := udata ?t\<rparr>)"
    using assms(2,3) prev base by (simp add: log_delete_def raft_funcs_def app_logentry_pop_def)
  then have del: "raft_delete_entry_from_idx ct ?s ?i = Ok (-1, ?t\<lparr>udata := udata ?t\<rparr>)"
    using assms(15) by (simp add: raft_delete_entry_from_idx_def raft_get_commit_idx_def)
  have "raft_get_entry_from_idx ?s ?i = Some a"
    using a(1) by (simp add: raft_get_entry_from_idx_def log_get_at_idx_def Let_def cong: if_cong)
  then have "ae_scan ct m 0 [e] (prev_log_idx m) ?s = Ok (Goto_Out (-1), prev_log_idx m, ?t\<lparr>udata := udata ?t\<rparr>)"
    using del assms(6,14,15) a(2) rng
    by (subst ae_scan.simps) (simp add: c_int_in_int)
  moreover have "raft_recv_appendentries ct s ?n m = ae_entries ct ?s m"
    using ae_check_entries [OF assms(12) _ _ assms(11,10), of m "entries m" ct ?n] by simp
  ultimately show ?thesis
    using p r rng assms(7) by (simp add: ae_entries_def ae_out_def c_int_in_int)
qed

text \<open>
  C35: A repeated message with several entries stops a node.  When a follower already has the first two
  entries of a message with two to nine entries, the library follows the missing link of the copied
  entry and dereferences \<^verbatim>\<open>NULL\<close>.
\<close>

theorem duplicates_stop_node:
  assumes "log_wf s" "PACKETBUF_SIZE pf = 128" "appendentries_ok m" "n_entries m = int (length (entries m))"
    and "entries m = e # e' # rest" "length rest \<le> 7" "\<forall>e \<in> set (entries m). in_int (ety_type e)"
    and "sv_node_id (udata s) = to_unsigned (node_id node)"
    and "\<not> raft_is_candidate s" "ae_term m = current_term s" "ae_prev_ok s m"
    and "log_lookup s (prev_log_idx m + 1) = Some x" "ety_term x = ety_term e"
    and "log_lookup s (prev_log_idx m + 2) = Some y"
  shows "\<exists>p. packets (snd (app_send_appendentries pf u node m)) = packets u @ [(netflood_seq u, p)] \<and>
    recv pf ct s p = Fault Null_Deref"
proof -
  let ?i = "prev_log_idx m + 1" and ?n = "raft_get_node s (to_signed (sv_node_id u))"
  let ?s = "s\<lparr>current_leader := ?n, timeout_elapsed := 0\<rparr>" and ?m = "m\<lparr>entries := [e]\<rparr>"
  obtain p where p: "packets (snd (app_send_appendentries pf u node m)) = packets u @ [(netflood_seq u, p)]"
    and r: "recv pf ct s p = bind (raft_recv_appendentries ct s ?n ?m) (\<lambda>(e, r, s').
            bind (c_assert (e = 0)) (\<lambda>_.
            Ok (respond pf s' (type_byte MSG_APPENDENTRIES_RESPONSE # put_appendentries_response r)
                  (sv_node_id u))))"
    using appendentries_packet [OF assms(3,4,2,7,8), where u = u and ct = ct] assms(5,6) by auto
  have prev: "0 \<le> prev_log_idx m" by (rule ae_prev_range(1) [OF assms(1,11)])
  have rng: "in_int ?i" "in_int (?i + 1)"
    using assms(14) prev current_idx_range(2) [OF assms(1)]
    by (auto simp: log_lookup_wf [OF assms(1)] in_int_iff split: if_splits)
  have "log_of ?s = log_of s" by (simp add: views)
  note same = log_of_window [OF this]
  obtain a b where "raft_get_entry_from_idx ?s ?i = Some a" "x = entries_mem s a"
    "raft_get_entry_from_idx ?s (?i + 1) = Some b"
    using assms(12,14) same by (auto simp: log_lookup_def raft_get_entry_from_idx_def algebra_simps)
  moreover have "raft_get_next_log_entry [e] = []"
    by (simp add: raft_get_next_log_entry_def log_get_next_entry_def)
  ultimately have "ae_scan ct ?m 0 [e] (prev_log_idx m) ?s = Fault Null_Deref"
    using assms(4,5,13) rng
    by (subst ae_scan.simps, simp add: c_int_in_int, subst ae_scan.simps) (simp add: c_int_in_int)
  moreover have "raft_recv_appendentries ct s ?n ?m = ae_entries ct ?s ?m"
    by (rule ae_check_entries [OF assms(11) _ _ assms(10,9)]) simp_all
  ultimately show ?thesis using p r by (simp add: ae_entries_def)
qed

lemma sample_app_log:
  "log_wf sample_app" "raft_get_current_idx sample_app = 2" "dropped sample_app = 0"
  "log_lookup sample_app = log_lookup sample_server"
proof -
  have "log_of sample_app = log_of sample_server" by simp
  then show "log_wf sample_app" "raft_get_current_idx sample_app = 2" "dropped sample_app = 0"
    "log_lookup sample_app = log_lookup sample_server"
    using sample_log_wf
    by (simp_all add: views log_wf_def window_def dropped_def raft_get_current_idx_def
        log_get_current_idx_def log_count_def log_lookup_def [abs_def] log_get_at_idx_def [abs_def] Let_def cong: if_cong)
qed

theorem conflict_stops_node_witness:
  "\<exists>p. packets (snd (app_send_appendentries sky \<lparr>sv_node_id = 2, netflood_seq = 0, packets = [], fsm = []\<rparr>
        \<lparr>next_idx = 1, match_idx = 0, flags = 2, node_id = 1\<rparr>
        \<lparr>ae_term = 1, prev_log_idx = 1, prev_log_term = 1, leader_commit = 0, n_entries = 1,
         entries = [sample_entry 2 2]\<rparr>)) = [(0, p)] \<and>
      recv sky ref_contiki sample_app p = Fault Assert_Failed"
proof -
  let ?m = "\<lparr>ae_term = 1, prev_log_idx = 1, prev_log_term = 1, leader_commit = 0, n_entries = 1,
         entries = [sample_entry 2 2]\<rparr>"
  have "appendentries_ok ?m" "in_int (ety_type (sample_entry 2 2))" "PACKETBUF_SIZE sky = 128"
    "ae_prev_ok sample_app ?m" "\<not> raft_is_candidate sample_app"
    by (simp_all add: appendentries_ok_def in_int_iff sky_def to_unsigned_def ae_prev_ok_def
        sample_app_log log_lookup_wf raft_is_candidate_def raft_get_state_def)
  then show ?thesis
    using conflict_stops_node [OF sample_app_log(1), of sky ?m "sample_entry 2 2"
        "\<lparr>next_idx = 1, match_idx = 0, flags = 2, node_id = 1\<rparr>" "sample_entry 1 2"
        "\<lparr>sv_node_id = 2, netflood_seq = 0, packets = [], fsm = []\<rparr>" ref_contiki]
    by (simp add: to_unsigned_def sample_app_log log_lookup_wf)
qed

theorem duplicates_stop_node_witness:
  "\<exists>p. packets (snd (app_send_appendentries sky \<lparr>sv_node_id = 2, netflood_seq = 0, packets = [], fsm = []\<rparr>
        \<lparr>next_idx = 1, match_idx = 0, flags = 2, node_id = 1\<rparr>
        \<lparr>ae_term = 1, prev_log_idx = 0, prev_log_term = 0, leader_commit = 0, n_entries = 2,
         entries = [sample_entry 1 1, sample_entry 1 2]\<rparr>)) = [(0, p)] \<and>
      recv sky ref_contiki sample_app p = Fault Null_Deref"
proof -
  let ?m = "\<lparr>ae_term = 1, prev_log_idx = 0, prev_log_term = 0, leader_commit = 0, n_entries = 2,
         entries = [sample_entry 1 1, sample_entry 1 2]\<rparr>"
  have "appendentries_ok ?m" "PACKETBUF_SIZE sky = 128" "ae_prev_ok sample_app ?m"
    "\<not> raft_is_candidate sample_app"
    by (simp_all add: appendentries_ok_def in_int_iff sky_def ae_prev_ok_def sample_app_log
        raft_is_candidate_def raft_get_state_def)
  then show ?thesis
    using duplicates_stop_node [OF sample_app_log(1), of sky ?m "sample_entry 1 1" "sample_entry 1 2" "[]"
        "\<lparr>next_idx = 1, match_idx = 0, flags = 2, node_id = 1\<rparr>" "sample_entry 1 1" "sample_entry 1 2"
        "\<lparr>sv_node_id = 2, netflood_seq = 0, packets = [], fsm = []\<rparr>" ref_contiki]
    by (simp add: to_unsigned_def sample_app_log log_lookup_wf in_int_iff)
qed

end
