(* ===== verification/Raft_Start.thy ===== *)
theory Raft_Start
  imports Raft_Transport
begin

text \<open>
  The start of the application, which gives an initial state of the cluster, and the application as a
  driver: a packet is the step of the library's state machine that its bytes stand for, or no step.
\<close>

section \<open>Start\<close>

text \<open>What adding a fresh node does to a membership in which every node votes.\<close>

definition all_voting :: "'u raft_server \<Rightarrow> bool" where
  "all_voting s \<longleftrightarrow>
     nodes_wf s \<and>
     (\<forall>a \<in> set (nodes_list s). raft_node_is_active (nodes_mem s a) \<and> raft_node_is_voting (nodes_mem s a))"

lemma add_fresh_node:
  assumes "contiki_ok ct" "all_voting s" "i \<notin> set (node_ids s)" "length (nodes_list s) < MAX_NODES"
  shows "\<exists>a s'. raft_add_node ct s i is_self = Ok (Some a, s') \<and> all_voting s' \<and>
    node_ids s' = node_ids s @ [i] \<and> length (nodes_list s') = Suc (length (nodes_list s)) \<and>
    me_node s' = (if is_self then Some a else me_node s) \<and> a \<in> set (nodes_list s') \<and>
    node_id (nodes_mem s' a) = i \<and> set (nodes_list s) \<subseteq> set (nodes_list s') \<and>
    (\<forall>b \<in> set (nodes_list s). nodes_mem s' b = nodes_mem s b) \<and>
    membership_step s s' \<and> udata s' = udata s \<and> rand_calls s' = rand_calls s"
proof -
  have wf: "nodes_wf s" using assms(2) by (simp add: all_voting_def)
  have none: "raft_get_node s i = None" using assms(3) by (simp add: raft_get_node_None)
  from raft_add_node_new [OF assms(1) wf none assms(4), of is_self] obtain a where
    a: "a \<notin> set (nodes_list s)" "a < MAX_NODES"
    and run: "raft_add_node ct s i is_self =
       Ok (Some a, s\<lparr>nodes_used := insert a (nodes_used s),
                    nodes_mem := (nodes_mem s)(a := raft_node_init i),
                    nodes_list := nodes_list s @ [a], num_nodes := num_nodes s + 1,
                    me_node := (if is_self then Some a else me_node s)\<rparr>)" (is "_ = Ok (_, ?s')") .
  have "nodes_wf ?s'" using add_node_wf [OF wf a none, of is_self] by simp
  moreover have "node_ids ?s' = node_ids s @ [i]" using a(1) by (auto simp: node_ids_def)
  moreover have "raft_node_is_active (raft_node_init i)" "raft_node_is_voting (raft_node_init i)"
    "node_id (raft_node_init i) = i"
    by simp_all
  moreover have "b \<noteq> a" if "b \<in> set (nodes_list s)" for b using that a(1) by blast
  ultimately have "all_voting ?s'" "node_ids ?s' = node_ids s @ [i]" "membership_step s ?s'"
    "\<forall>b \<in> set (nodes_list s). nodes_mem ?s' b = nodes_mem s b" "node_id (nodes_mem ?s' a) = i"
    using assms(2) by (auto simp: all_voting_def membership_step_def views)
  then show ?thesis
    using run by (intro exI [of _ a] exI [of _ ?s']) (simp add: subset_insertI)
qed
lemma add_others_loop:
  assumes "contiki_ok ct" "all_voting s" "distinct xs" "length (nodes_list s) + length xs \<le> MAX_NODES"
    and "\<forall>i \<in> set xs. to_unsigned i \<noteq> self \<longrightarrow> i \<notin> set (node_ids s)"
  shows "\<exists>s'. foreach (\<lambda>i s. if to_unsigned i = self then Ok s
        else bind (raft_add_node ct s i False) (\<lambda>(_, s). Ok s)) xs s = Ok s' \<and>
    all_voting s' \<and> node_ids s' = node_ids s @ filter (\<lambda>i. to_unsigned i \<noteq> self) xs \<and>
    me_node s' = me_node s \<and> set (nodes_list s) \<subseteq> set (nodes_list s') \<and>
    (\<forall>b \<in> set (nodes_list s). nodes_mem s' b = nodes_mem s b) \<and>
    membership_step s s' \<and> udata s' = udata s"
  using assms(2-5)
proof (induction xs arbitrary: s)
  case (Cons i xs)
  show ?case
  proof (cases "to_unsigned i = self")
    case True
    with Cons.IH [of s] Cons.prems show ?thesis by auto
  next
    case False
    have "i \<notin> set (node_ids s)" "length (nodes_list s) < MAX_NODES" using Cons.prems False by auto
    from add_fresh_node [OF assms(1) Cons.prems(1) this, of False] obtain a t
      where t: "raft_add_node ct s i False = Ok (Some a, t)" "all_voting t" "node_ids t = node_ids s @ [i]"
        "length (nodes_list t) = Suc (length (nodes_list s))" "me_node t = me_node s"
        "set (nodes_list s) \<subseteq> set (nodes_list t)" "\<forall>b \<in> set (nodes_list s). nodes_mem t b = nodes_mem s b"
        "membership_step s t" "udata t = udata s"
      by auto
    have "\<forall>j \<in> set xs. to_unsigned j \<noteq> self \<longrightarrow> j \<notin> set (node_ids t)"
      using Cons.prems(2,4) t(3) by auto
    from Cons.IH [OF t(2) _ _ this] Cons.prems(2,3) t(4) obtain s' where s':
      "foreach (\<lambda>i s. if to_unsigned i = self then Ok s
        else bind (raft_add_node ct s i False) (\<lambda>(_, s). Ok s)) xs t = Ok s'"
      "all_voting s'" "node_ids s' = node_ids t @ filter (\<lambda>i. to_unsigned i \<noteq> self) xs"
      "me_node s' = me_node t" "set (nodes_list t) \<subseteq> set (nodes_list s')"
      "\<forall>b \<in> set (nodes_list t). nodes_mem s' b = nodes_mem t b" "membership_step t s'" "udata s' = udata t"
      by auto
    have "\<forall>b \<in> set (nodes_list s). nodes_mem s' b = nodes_mem s b"
      using s'(6) t(6,7) by auto
    moreover have "membership_step s s'" using membership_step_trans [OF t(8) s'(7)] .
    ultimately show ?thesis using s' t False by (intro exI [of _ s']) auto
  qed
qed auto

lemma small_unsigned: "0 \<le> i \<Longrightarrow> i \<le> 5 \<Longrightarrow> 0 \<le> j \<Longrightarrow> j \<le> 5 \<Longrightarrow> to_unsigned i = to_unsigned j \<longleftrightarrow> i = j"
  by (rule to_unsigned_inj) (simp_all add: in_int_iff)

text \<open>The server before its nodes are added.\<close>

lemma main_prefix:
  fixes s :: app_server
  assumes "contiki_ok ct" "entries_used s = {}" "nodes_used s = {}" "CLOCK_SECOND pf = 128"
  shows "\<exists>t1 t. raft_new ct (s\<lparr>udata := (udata s)\<lparr>sv_node_id := nid\<rparr>\<rparr>) = Ok t1 \<and>
    raft_set_election_timeout ct (raft_set_callbacks t1 (raft_funcs pf) (udata t1)) (ELECTION_TIMEOUT pf) = Ok t \<and>
    me_state t = RAFT_STATE_FOLLOWER \<and> election_of t = (0, -1) \<and> progress_of t = (0, 0) \<and>
    me_log t = \<lparr>log_size = 10, count = 0, base = 0, entries_list = [], log_cb = True\<rparr> \<and>
    entries_used t = {} \<and> nodes_list t = [] \<and> num_nodes t = 0 \<and> nodes_used t = {} \<and> me_node t = None \<and>
    snapshot_in_progress t = False \<and> me_cb t = raft_funcs pf \<and> election_timeout t = 6400 \<and>
    6400 \<le> election_timeout_rand t \<and> election_timeout_rand t < 12800 \<and> timeout_elapsed t = 0 \<and>
    sv_node_id (udata t) = nid"
proof -
  let ?s = "s\<lparr>udata := (udata s)\<lparr>sv_node_id := nid\<rparr>\<rparr>"
  have "entries_used ?s = {}" "nodes_used ?s = {}" using assms(2,3) by simp_all
  from raft_new_run [OF assms(1) this] obtain t1 where t1: "raft_new ct ?s = Ok t1"
    and f: "me_state t1 = RAFT_STATE_FOLLOWER" "election_of t1 = (0, -1)" "progress_of t1 = (0, 0)"
      "me_log t1 = \<lparr>log_size = 10, count = 0, base = 0, entries_list = [], log_cb = False\<rparr>"
      "entries_used t1 = {}" "nodes_list t1 = []" "num_nodes t1 = 0" "nodes_used t1 = {}" "me_node t1 = None"
      "snapshot_in_progress t1 = False" "timeout_elapsed t1 = 0" "udata t1 = udata ?s"
    by (auto simp: runs_def)
  let ?c = "raft_set_callbacks t1 (raft_funcs pf) (udata t1)"
  have ms: "ELECTION_TIMEOUT pf = 6400" using assms(4) by (simp add: ELECTION_TIMEOUT_def in_int_iff)
  let ?et = "to_unsigned 6400" and ?r = "ct_random_rand ct (rand_calls t1)"
  let ?t = "?c\<lparr>election_timeout := 6400, rand_calls := Suc (rand_calls t1),
    election_timeout_rand := to_signed (?et + ?r mod ?et)\<rparr>"
  have "raft_set_election_timeout ct ?c (ELECTION_TIMEOUT pf) = Ok ?t"
    by (simp add: ms raft_set_election_timeout_def raft_randomize_election_timeout_def raft_set_callbacks_def
        Let_def)
  moreover have "6400 \<le> election_timeout_rand ?t" "election_timeout_rand ?t < 12800"
    using random_timeout_bounds [of 6400 ?r] by simp_all
  moreover have "me_state ?t = RAFT_STATE_FOLLOWER" "election_of ?t = (0, -1)" "progress_of ?t = (0, 0)"
    "me_log ?t = \<lparr>log_size = 10, count = 0, base = 0, entries_list = [], log_cb = True\<rparr>"
    "entries_used ?t = {}" "nodes_list ?t = []" "num_nodes ?t = 0" "nodes_used ?t = {}" "me_node ?t = None"
    "snapshot_in_progress ?t = False" "me_cb ?t = raft_funcs pf" "election_timeout ?t = 6400"
    "timeout_elapsed ?t = 0" "sv_node_id (udata ?t) = nid"
    using f by (simp_all add: raft_set_callbacks_def views log_set_callbacks_def)
  ultimately show ?thesis using t1 by blast
qed

lemma main_members:
  fixes t :: app_server
  assumes "contiki_ok ct" "nodes_list t = []" "num_nodes t = 0" "nodes_used t = {}" "me_node t = None"
    and "1 \<le> i" "i \<le> 5"
  shows "\<exists>a t1 t2. raft_add_node ct t i True = Ok (Some a, t1) \<and> add_others ct (to_unsigned i) t1 = Ok t2 \<and>
    member_of [1, 2, 3, 4, 5] i t2 \<and> membership_step t t2 \<and> udata t2 = udata t"
proof -
  have av: "all_voting t" using assms(2-5) by (simp add: all_voting_def nodes_wf_def node_ids_def)
  have "i \<notin> set (node_ids t)" "length (nodes_list t) < MAX_NODES"
    using assms(2) by (simp_all add: node_ids_def MAX_NODES_def)
  from add_fresh_node [OF assms(1) av this, of True] obtain a t1
    where t1: "raft_add_node ct t i True = Ok (Some a, t1)" "all_voting t1" "node_ids t1 = [i]"
      "length (nodes_list t1) = 1" "me_node t1 = Some a" "a \<in> set (nodes_list t1)"
      "node_id (nodes_mem t1 a) = i" "membership_step t t1" "udata t1 = udata t"
    using assms(2) by (auto simp: node_ids_def)
  let ?xs = "[1, 2, 3, 4, 5 :: int]"
  have "\<forall>j \<in> set ?xs. to_unsigned j \<noteq> to_unsigned i \<longrightarrow> j \<notin> set (node_ids t1)"
    using t1(3) by auto
  moreover have "distinct ?xs" "length (nodes_list t1) + length ?xs \<le> MAX_NODES"
    using t1(4) by (simp_all add: MAX_NODES_def)
  ultimately obtain t2 where t2: "add_others ct (to_unsigned i) t1 = Ok t2" "all_voting t2"
      "node_ids t2 = i # filter (\<lambda>j. to_unsigned j \<noteq> to_unsigned i) ?xs" "me_node t2 = Some a"
      "set (nodes_list t1) \<subseteq> set (nodes_list t2)" "\<forall>b \<in> set (nodes_list t1). nodes_mem t2 b = nodes_mem t1 b"
      "membership_step t1 t2" "udata t2 = udata t1"
    using add_others_loop [OF assms(1) t1(2), of ?xs "to_unsigned i"] t1(3,5) unfolding add_others_def by auto
  have "filter (\<lambda>j. to_unsigned j \<noteq> to_unsigned i) ?xs = filter (\<lambda>j. j \<noteq> i) ?xs"
    using assms(6,7) by (intro filter_cong refl) (auto simp: small_unsigned)
  then have "set (node_ids t2) = set ?xs" using t2(3) assms(6,7) by auto
  then have "member_of ?xs i t2"
    using t2 t1(6,7) by (auto simp: member_of_def all_voting_def nodes_wf_def)
  moreover have "membership_step t t2" by (rule membership_step_trans [OF t1(8) t2(7)])
  ultimately show ?thesis using t1(1,9) t2(1,8) by auto
qed

lemma main_process_run:
  fixes s :: app_server
  assumes "contiki_ok ct" "entries_used s = {}" "nodes_used s = {}" "CLOCK_SECOND pf = 128"
    and "1 \<le> i" "i \<le> 5"
  shows "\<exists>s'. main_process pf ct s (to_unsigned i) = Ok s' \<and> member_of [1, 2, 3, 4, 5] i s' \<and>
    me_state s' = RAFT_STATE_FOLLOWER \<and> election_of s' = (0, -1) \<and> progress_of s' = (0, 0) \<and>
    me_log s' = \<lparr>log_size = 10, count = 0, base = 0, entries_list = [], log_cb = True\<rparr> \<and>
    entries_used s' = {} \<and> snapshot_in_progress s' = False \<and> me_cb s' = raft_funcs pf \<and>
    election_timeout s' = 6400 \<and> 6400 \<le> election_timeout_rand s' \<and> election_timeout_rand s' < 12800 \<and>
    timeout_elapsed s' = 0 \<and> sv_node_id (udata s') = to_unsigned i"
proof -
  have id: "to_signed (to_unsigned i) = i" using assms(5,6) by (simp add: in_int_iff)
  from main_prefix [OF assms(1-4), of "to_unsigned i"] obtain t0 t
    where p: "raft_new ct (s\<lparr>udata := (udata s)\<lparr>sv_node_id := to_unsigned i\<rparr>\<rparr>) = Ok t0"
    "raft_set_election_timeout ct (raft_set_callbacks t0 (raft_funcs pf) (udata t0)) (ELECTION_TIMEOUT pf) = Ok t"
    and f: "me_state t = RAFT_STATE_FOLLOWER" "election_of t = (0, -1)" "progress_of t = (0, 0)"
    "me_log t = \<lparr>log_size = 10, count = 0, base = 0, entries_list = [], log_cb = True\<rparr>"
    "entries_used t = {}" "nodes_list t = []" "num_nodes t = 0" "nodes_used t = {}" "me_node t = None"
    "snapshot_in_progress t = False" "me_cb t = raft_funcs pf" "election_timeout t = 6400"
    "6400 \<le> election_timeout_rand t" "election_timeout_rand t < 12800" "timeout_elapsed t = 0"
    "sv_node_id (udata t) = to_unsigned i"
    by blast
  let ?t = "raft_set_request_timeout t (REQUEST_TIMEOUT pf)"
  have "nodes_list ?t = []" "num_nodes ?t = 0" "nodes_used ?t = {}" "me_node ?t = None"
    using f by (simp_all add: raft_set_request_timeout_def)
  from main_members [OF assms(1) this assms(5,6)] obtain a t1 t2
    where m: "raft_add_node ct ?t i True = Ok (Some a, t1)" "add_others ct (to_unsigned i) t1 = Ok t2"
      "member_of [1, 2, 3, 4, 5] i t2" "membership_step ?t t2" "udata t2 = udata ?t"
    by blast
  let ?s' = "t2\<lparr>rand_calls := Suc (rand_calls t2),
    udata := (udata t2)\<lparr>netflood_seq := to_signed (ct_random_rand ct (rand_calls t2))\<rparr>\<rparr>"
  have run: "main_process pf ct s (to_unsigned i) = Ok ?s'"
    using p m(1,2) id by (simp add: main_process_def app_random_def)
  have "member_of [1, 2, 3, 4, 5] i ?s'" using m(3) by (simp add: member_of_def node_ids_def)
  then show ?thesis
    using f m(4,5) by (intro exI [of _ ?s'])
      (simp add: run membership_step_def views raft_set_request_timeout_def)
qed

text \<open>
  C32: The start of the application on each of the nodes 1 to 5, from the program's static storage: it
  does not fault and gives a follower in term 0 with an empty log that knows the five nodes, itself
  among them, as active voting nodes, and can stand for election; its random timeout is within one and
  two election timeouts.
\<close>

theorem main_process_spec:
  fixes s :: app_server
  assumes "contiki_ok ct" "entries_used s = {}" "nodes_used s = {}" "CLOCK_SECOND pf = 128"
    and "1 \<le> i" "i \<le> 5"
  shows "\<exists>s'. main_process pf ct s (to_unsigned i) = Ok s' \<and> raft_is_follower s' \<and>
    raft_get_current_term s' = 0 \<and> raft_get_nodeid s' = i \<and> raft_get_num_voting_nodes s' = 5 \<and>
    set (node_ids s') = {1, 2, 3, 4, 5} \<and> log_wf s' \<and> window s' = [] \<and> electable s' \<and>
    6400 \<le> election_timeout_rand s' \<and> election_timeout_rand s' < 12800"
proof -
  from main_process_run [OF assms] obtain s' where run: "main_process pf ct s (to_unsigned i) = Ok s'"
    and mem: "member_of [1, 2, 3, 4, 5] i s'" and f: "me_state s' = RAFT_STATE_FOLLOWER"
      "election_of s' = (0, -1)" "progress_of s' = (0, 0)"
      "me_log s' = \<lparr>log_size = 10, count = 0, base = 0, entries_list = [], log_cb = True\<rparr>"
      "entries_used s' = {}" "snapshot_in_progress s' = False" "me_cb s' = raft_funcs pf"
      "election_timeout s' = 6400" "6400 \<le> election_timeout_rand s'" "election_timeout_rand s' < 12800"
    by blast
  have id: "raft_get_nodeid s' = i" by (rule member_nodeid [OF mem])
  have n: "raft_get_num_voting_nodes s' = 5" using member_num_voting [OF mem] by simp
  have "raft_get_my_node s' \<noteq> None"
    using mem id by (auto simp: raft_get_my_node_def find_None_iff member_of_def node_get_defs)
  then obtain m where "raft_get_my_node s' = Some m" by blast
  moreover from this have "m \<in> set (nodes_list s')"
    by (auto simp: raft_get_my_node_def find_Some_iff)
  then have "raft_node_is_voting (nodes_mem s' m)" using mem by (simp add: member_of_def)
  ultimately have "electable s'"
    using f n by (simp add: electable_def raft_snapshot_is_in_progress_def views raft_funcs_def persist_ok_def
        app_persist_term_def app_persist_vote_def in_int_iff)
  moreover have "log_wf s' \<and> window s' = []" using empty_log_wf [of s'] f(4,5) by simp
  moreover have "set (node_ids s') = {1, 2, 3, 4, 5}" using mem by (simp add: member_of_def)
  ultimately show ?thesis
    using run id n f by (simp add: raft_is_follower_def raft_get_state_def raft_get_current_term_def views)
qed

definition app_storage :: app_server where
  "app_storage = static_storage \<lparr>sv_node_id = 0, netflood_seq = 0, packets = [], fsm = []\<rparr>"

theorem main_process_spec_witness:
  "\<exists>s'. main_process sky ref_contiki app_storage (to_unsigned 3) = Ok s' \<and> raft_get_nodeid s' = 3 \<and>
     electable s'"
proof -
  have "entries_used app_storage = {}" "nodes_used app_storage = {}" "CLOCK_SECOND sky = 128"
    by (simp_all add: app_storage_def static_storage_def sky_def)
  from main_process_spec [OF ref_contiki_ok this, of 3] show ?thesis by auto
qed

text \<open>
  C33: Five nodes that run the application form a cluster to which election safety applies: their states
  after the start are an initial state of the cluster, with no votes cast and no responses under way.
\<close>

theorem application_starts_cluster:
  assumes "contiki_ok ct" "CLOCK_SECOND pf = 128" "\<And>i. entries_used (st i) = {} \<and> nodes_used (st i) = {}"
    and "\<And>i. i \<in> {1, 2, 3, 4, 5} \<Longrightarrow> main_process pf ct (st i) (to_unsigned i) = Ok (servers c i)"
    and "replies c = {}" "cast c = {}"
  shows "cluster_init [1, 2, 3, 4, 5] c"
proof -
  have start: "member_of [1, 2, 3, 4, 5] i (servers c i) \<and> plain_log (servers c i) \<and>
      raft_is_follower (servers c i) \<and> cast_of i (servers c i) = {}" if i: "i \<in> {1, 2, 3, 4, 5}" for i
  proof -
    have "1 \<le> i" "i \<le> 5" using i by auto
    from main_process_run [OF assms(1) _ _ assms(2) this, of "st i"] assms(3,4) [of i] i obtain s'
      where s': "s' = servers c i" "member_of [1, 2, 3, 4, 5] i s'" "me_state s' = RAFT_STATE_FOLLOWER"
        "election_of s' = (0, -1)" "entries_used s' = {}"
        "me_log s' = \<lparr>log_size = 10, count = 0, base = 0, entries_list = [], log_cb = True\<rparr>"
      by auto
    then show ?thesis
      by (auto simp: plain_log_def pool_ok_def raft_is_follower_def raft_get_state_def cast_of_def views)
  qed
  then show ?thesis using assms(5,6) by (simp add: cluster_init_def)
qed

text \<open>The cluster of five nodes, each at the end of its main process.\<close>

definition app_cluster :: "app_net cluster" where
  "app_cluster =
     \<lparr>servers = (\<lambda>i. case main_process sky ref_contiki app_storage (to_unsigned i) of
                      Ok s \<Rightarrow> s | Fault _ \<Rightarrow> app_storage),
      replies = {}, cast = {}\<rparr>"

theorem application_starts_cluster_witness: "cluster_init [1, 2, 3, 4, 5] app_cluster"
proof (rule application_starts_cluster [OF ref_contiki_ok])
  show "CLOCK_SECOND sky = 128" by (simp add: sky_def)
  show pools: "entries_used app_storage = {} \<and> nodes_used app_storage = {}" for i :: int
    by (simp add: app_storage_def static_storage_def)
  show "main_process sky ref_contiki app_storage (to_unsigned i) = Ok (servers app_cluster i)"
    if "i \<in> {1, 2, 3, 4, 5}" for i
    using main_process_run [OF ref_contiki_ok, of app_storage sky i] pools that
    by (auto simp: app_cluster_def sky_def)
qed (simp_all add: app_cluster_def)

section \<open>The application as a driver of the library\<close>

text \<open>
  The call of the library that a packet stands for: the packet starts with the identifiers of this node
  and of the sender, the byte of the message's type and the bytes of the message.  An acknowledgement counts only
  if the sender is known.  The entry of a client's message gets a random identifier.
\<close>

inductive delivers :: "platform \<Rightarrow> contiki \<Rightarrow> app_server \<Rightarrow> u8 list \<Rightarrow> server_input \<Rightarrow> bool"
  for pf :: platform and ct :: contiki and s :: app_server where
  vote_request:
    "requestvote_ok rv \<Longrightarrow>
     pkt = put_u16 (sv_node_id (udata s)) @ put_u16 sender @ type_byte MSG_REQUESTVOTE # put_requestvote rv @ rest \<Longrightarrow>
     delivers pf ct s pkt (Requestvote (to_signed sender) rv)"
| vote:
    "requestvote_response_ok r \<Longrightarrow>
     pkt = put_u16 (sv_node_id (udata s)) @ put_u16 sender @
       type_byte MSG_REQUESTVOTE_RESPONSE # put_requestvote_response r @ rest \<Longrightarrow>
     delivers pf ct s pkt (Requestvote_Response (to_signed sender) r)"
| entries:
    "appendentries_ok ae \<Longrightarrow> entries ae = [] \<Longrightarrow>
     get_entries (PAYLOAD_SIZE pf) (nat (n_entries ae)) rest = Ok xs \<Longrightarrow> received_chain xs = Ok chain \<Longrightarrow>
     pkt = put_u16 (sv_node_id (udata s)) @ put_u16 sender @ type_byte MSG_APPENDENTRIES # put_appendentries ae @ rest \<Longrightarrow>
     delivers pf ct s pkt (Appendentries (to_signed sender) (ae\<lparr>entries := chain\<rparr>))"
| acknowledgement:
    "appendentries_response_ok ar \<Longrightarrow> raft_get_node s (to_signed sender) \<noteq> None \<Longrightarrow>
     pkt = put_u16 (sv_node_id (udata s)) @ put_u16 sender @
       type_byte MSG_APPENDENTRIES_RESPONSE # put_appendentries_response ar @ rest \<Longrightarrow>
     delivers pf ct s pkt (Appendentries_Response (to_signed sender) ar)"
| client:
    "pkt = put_u16 (sv_node_id (udata s)) @ put_u16 sender @ type_byte MSG_CLIENT # d0 # d1 # rest \<Longrightarrow>
     delivers pf ct s pkt (Client_Entry
       \<lparr>ety_term = 0, ety_idx = 0, ety_id = ct_random_rand ct (rand_calls s), ety_type = RAFT_LOGTYPE_NORMAL,
        ety_data = (d0, d1)\<rparr> \<lparr>er_id = 0, er_term = 0, er_idx = 0\<rparr>)"

text \<open>What is drawn from the random generator before the call, and what is sent after it.\<close>

definition drawn :: "app_server \<Rightarrow> server_input \<Rightarrow> app_server" where
  "drawn s inp =
     (case inp of Client_Entry _ _ \<Rightarrow> s\<lparr>rand_calls := Suc (rand_calls s)\<rparr> | _ \<Rightarrow> s)"

definition answer :: "platform \<Rightarrow> server_input \<Rightarrow> server_output \<Rightarrow> app_server \<Rightarrow> app_server" where
  "answer pf inp out t =
     (case (inp, out) of
        (Requestvote sender _, Vote_Reply r) \<Rightarrow>
          t\<lparr>udata := send_data pf (udata t)
             (type_byte MSG_REQUESTVOTE_RESPONSE # put_requestvote_response r) (to_unsigned sender)\<rparr>
      | (Appendentries sender _, Append_Reply r) \<Rightarrow>
          t\<lparr>udata := send_data pf (udata t)
             (type_byte MSG_APPENDENTRIES_RESPONSE # put_appendentries_response r) (to_unsigned sender)\<rparr>
      | _ \<Rightarrow> t)"

lemma delivers_step:
  assumes "delivers pf ct s pkt inp" "recv pf ct s pkt = Ok s'"
  shows "\<exists>out t. server_step ct (drawn s inp) inp out t \<and> s' = answer pf inp out t"
proof -
  have wrap: "to_unsigned (to_signed w) = w" for w :: u16 by (simp add: to_unsigned_def to_signed_def)
  show ?thesis
    using assms
  proof cases
    case (vote_request rv sender rest)
    with assms(2) show ?thesis
      by (force simp: recv_def codec handle_msg_requestvote_def sender_node_def drawn_def answer_def respond_def wrap
          simp del: type_byte.simps intro: requestvote)
  next
    case (vote r sender rest)
    with assms(2) show ?thesis
      by (force simp: recv_def codec handle_msg_requestvote_response_def sender_node_def drawn_def answer_def
          simp del: type_byte.simps intro: requestvote_response)
  next
    case (entries ae rest xs chain sender)
    with assms(2) show ?thesis
      by (force simp: recv_def codec handle_msg_appendentries_def sender_node_def drawn_def answer_def respond_def wrap
          simp del: type_byte.simps intro: appendentries)
  next
    case (acknowledgement ar sender rest)
    with assms(2) show ?thesis
      by (force simp: recv_def codec handle_msg_appendentries_response_def sender_node_def drawn_def answer_def
          simp del: type_byte.simps not_None_eq intro: appendentries_response)
  next
    case (client sender d0 d1 rest)
    with assms(2) show ?thesis
      by (force simp: recv_def codec handle_msg_client_def app_random_def drawn_def answer_def
          simp del: type_byte.simps intro: client_entry)
  qed
qed

text \<open>A packet that stands for no call changes nothing.\<close>

lemma recv_idle:
  assumes "\<nexists>inp. delivers pf ct s pkt inp" "recv pf ct s pkt = Ok s'"
  shows "s' = s"
proof (rule ccontr)
  assume ne: "s' \<noteq> s"
  from assms(2) ne obtain sender b body t
    where pkt: "pkt = put_u16 (sv_node_id (udata s)) @ put_u16 sender @ b # body" and t: "byte_type b = Some t"
      and run: "(case t of
         MSG_APPENDENTRIES \<Rightarrow> handle_msg_appendentries pf ct s (b # body) sender
       | MSG_APPENDENTRIES_RESPONSE \<Rightarrow> handle_msg_appendentries_response pf ct s (b # body) sender
       | MSG_REQUESTVOTE \<Rightarrow> handle_msg_requestvote pf ct s (b # body) sender
       | MSG_REQUESTVOTE_RESPONSE \<Rightarrow> handle_msg_requestvote_response pf ct s (b # body) sender
       | MSG_CLIENT \<Rightarrow> handle_msg_client pf ct s (b # body) sender
       | MSG_CLIENT_RESPONSE \<Rightarrow> handle_msg_client_response pf ct s (b # body) sender
       | _ \<Rightarrow> Ok s) = Ok s'"
    by (auto simp: recv_def get_u16_iff split: if_splits option.splits elim!: get_byte.elims)
  note pkt = pkt [unfolded t [unfolded byte_type_iff]]
  have no: "\<not> delivers pf ct s pkt inp" for inp using assms(1) by blast
  show False
  proof (cases t)
    case MSG_REQUESTVOTE
    with run obtain rv rest where "requestvote_ok rv" "body = put_requestvote rv @ rest"
      by (auto simp: handle_msg_requestvote_def get_requestvote_iff)
    with pkt MSG_REQUESTVOTE delivers.vote_request no show False by blast
  next
    case MSG_REQUESTVOTE_RESPONSE
    with run obtain r rest where "requestvote_response_ok r" "body = put_requestvote_response r @ rest"
      by (auto simp: handle_msg_requestvote_response_def get_requestvote_response_iff)
    with pkt MSG_REQUESTVOTE_RESPONSE delivers.vote no show False by blast
  next
    case MSG_APPENDENTRIES
    with run obtain ae rest xs chain where "appendentries_ok ae" "entries ae = []" "body = put_appendentries ae @ rest"
      "get_entries (PAYLOAD_SIZE pf) (nat (n_entries ae)) rest = Ok xs" "received_chain xs = Ok chain"
      by (auto simp: handle_msg_appendentries_def get_appendentries_iff)
    with pkt MSG_APPENDENTRIES delivers.entries no show False by blast
  next
    case MSG_APPENDENTRIES_RESPONSE
    with run ne obtain ar rest where "appendentries_response_ok ar" "body = put_appendentries_response ar @ rest"
      "raft_get_node s (to_signed sender) \<noteq> None"
      by (auto simp: handle_msg_appendentries_response_def get_appendentries_response_iff sender_node_def Let_def
          simp del: not_None_eq split: if_splits)
    with pkt MSG_APPENDENTRIES_RESPONSE delivers.acknowledgement no show False by blast
  next
    case MSG_CLIENT
    with run obtain d0 d1 rest where "body = d0 # d1 # rest"
      by (auto simp: handle_msg_client_def Let_def case_prod_beta elim!: get_byte.elims)
    with pkt MSG_CLIENT delivers.client no show False by blast
  qed (use run ne in \<open>simp_all add: handle_msg_client_response_def\<close>)
qed

lemma periodic_process_iff:
  "raft_periodic_process pf ct s = Ok s' \<longleftrightarrow> server_step ct s (Tick (RAFT_PERIODIC_TICK pf)) No_Output s'"
  by (auto simp: raft_periodic_process_def intro: tick elim: tickE)

text \<open>The entry that the application makes of a client's message, with the identifier and the two bytes.\<close>

definition client_entry_of :: "u16 \<Rightarrow> u8 list \<Rightarrow> server_input" where
  "client_entry_of eid msg =
     Client_Entry \<lparr>ety_term = 0, ety_idx = 0, ety_id = eid, ety_type = RAFT_LOGTYPE_NORMAL,
                   ety_data = (msg ! 0, msg ! 1)\<rparr> \<lparr>er_id = 0, er_term = 0, er_idx = 0\<rparr>"

lemma client_process_step:
  fixes s :: app_server
  assumes "client_process pf ct s = Ok s'"
  defines "rand \<equiv> \<lambda>k. ct_random_rand ct (rand_calls s + k)"
  defines "leader \<equiv> to_unsigned (raft_get_current_leader s)"
  shows "if rand 0 mod 5 \<noteq> 0 then s' = s\<lparr>rand_calls := rand_calls s + 1\<rparr>
    else if leader = to_unsigned (-1) then s' = s\<lparr>rand_calls := rand_calls s + 2\<rparr>
    else if leader \<noteq> sv_node_id (udata s)
    then s' = s\<lparr>rand_calls := rand_calls s + 2,
                udata := send_data pf (udata s) (type_byte MSG_CLIENT # put_u16 (rand 1 mod 10)) leader\<rparr>
    else \<exists>out. server_step ct (s\<lparr>rand_calls := rand_calls s + 3\<rparr>)
           (client_entry_of (rand 2) (put_u16 (rand 1 mod 10))) out s'"
proof -
  have "raft_get_current_leader (s\<lparr>rand_calls := k\<rparr>) = raft_get_current_leader s" for k
    by (simp add: raft_get_current_leader_def cong: option.case_cong)
  with assms(1) show ?thesis
    by (auto simp: client_process_def client_new_message_def app_random_def respond_def Let_def rand_def leader_def
        handle_msg_client_def put_u16_def client_entry_of_def numeral_2_eq_2 numeral_3_eq_3
        split: if_splits intro: client_entry)
qed

text \<open>What all events keep of the server's term, vote, commit index and applied index.\<close>

lemma drawn_progress: "server_progress (drawn s inp) t \<Longrightarrow> server_progress s (answer pf inp out t)"
  by (auto simp: server_progress_def vote_step_def views drawn_def answer_def split: server_input.splits server_output.splits)

lemma recv_progress:
  assumes "recv pf ct s pkt = Ok s'"
  shows "server_progress s s'"
proof (cases "\<exists>inp. delivers pf ct s pkt inp")
  case True
  with delivers_step [OF _ assms] obtain inp out t
    where "server_step ct (drawn s inp) inp out t" "s' = answer pf inp out t" by blast
  then show ?thesis by (auto dest: server_step_progress intro: drawn_progress)
next
  case False
  from recv_idle [OF this assms] show ?thesis by simp
qed

lemma client_process_progress:
  assumes "client_process pf ct s = Ok s'"
  shows "server_progress s s'"
proof -
  have draw: "server_progress s (s\<lparr>rand_calls := k\<rparr>)" "server_progress s (s\<lparr>rand_calls := k, udata := u\<rparr>)" for k u
    by (simp_all add: server_progress_def vote_step_def views)
  have "server_progress s s'" if "server_step ct (s\<lparr>rand_calls := k\<rparr>) inp out s'" for k inp out
    using progress_trans [OF draw(1) server_step_progress [OF that]] .
  with client_process_step [OF assms] draw show ?thesis by (auto split: if_splits)
qed

text \<open>
  C29: The application drives the library.  A received packet that does not make the node fault is
  exactly the step of the library that its bytes stand for, followed by the answer to the sender; a
  packet for another node, of another type or, for an acknowledgement, from an unknown node changes
  nothing.  A timer event is exactly a tick of the library.  A client event draws random numbers; one in
  five makes a message of a random digit, which is dropped without a known leader, sent to
  the leader, or, on the leader, taken as an entry by the library.  So in the application as in the
  library the term never decreases, a vote is not changed within its term, and commit and applied index
  never decrease.
\<close>

theorem application_drives_library:
  fixes s :: app_server and ct :: contiki
  defines "rand \<equiv> \<lambda>k. ct_random_rand ct (rand_calls s + k)"
  defines "leader \<equiv> to_unsigned (raft_get_current_leader s)"
  shows "(\<forall>s'. recv pf ct s pkt = Ok s' \<longrightarrow>
      s' = s \<and> (\<nexists>inp. delivers pf ct s pkt inp) \<or>
      (\<exists>inp out t. delivers pf ct s pkt inp \<and> server_step ct (drawn s inp) inp out t \<and> s' = answer pf inp out t)) \<and>
    (\<forall>s'. raft_periodic_process pf ct s = Ok s' \<longleftrightarrow>
      server_step ct s (Tick (RAFT_PERIODIC_TICK pf)) No_Output s') \<and>
    (\<forall>s'. client_process pf ct s = Ok s' \<longrightarrow>
      (if rand 0 mod 5 \<noteq> 0 then s' = s\<lparr>rand_calls := rand_calls s + 1\<rparr>
       else if leader = to_unsigned (-1) then s' = s\<lparr>rand_calls := rand_calls s + 2\<rparr>
       else if leader \<noteq> sv_node_id (udata s)
       then s' = s\<lparr>rand_calls := rand_calls s + 2,
                   udata := send_data pf (udata s) (type_byte MSG_CLIENT # put_u16 (rand 1 mod 10)) leader\<rparr>
       else \<exists>out. server_step ct (s\<lparr>rand_calls := rand_calls s + 3\<rparr>)
              (client_entry_of (rand 2) (put_u16 (rand 1 mod 10))) out s')) \<and>
    (\<forall>s'. recv pf ct s pkt = Ok s' \<or> client_process pf ct s = Ok s' \<or> raft_periodic_process pf ct s = Ok s' \<longrightarrow>
      current_term s \<le> current_term s' \<and>
      (current_term s' = current_term s \<and> voted_for s \<noteq> -1 \<longrightarrow> voted_for s' = voted_for s) \<and>
      commit_idx s \<le> commit_idx s' \<and> last_applied_idx s \<le> last_applied_idx s')"
proof (intro conjI allI, goal_cases)
  case (1 s')
  show ?case using delivers_step [of pf ct s pkt _ s'] recv_idle [of pf ct s pkt s'] by blast
next
  case (2 s')
  show ?case by (rule periodic_process_iff)
next
  case (3 s')
  show ?case unfolding rand_def leader_def by (rule impI) (rule client_process_step)
next
  case (4 s')
  have "server_progress s s'"
    if "recv pf ct s pkt = Ok s' \<or> client_process pf ct s = Ok s' \<or> raft_periodic_process pf ct s = Ok s'"
    using that recv_progress client_process_progress by (auto simp: periodic_process_iff dest: server_step_progress)
  then show ?case by (auto simp: server_progress_def vote_step_def)
qed

text \<open>
  A vote request of node 2 in term 2 makes node 1 vote for it, and one that is addressed to node 3 does
  nothing at node 1.
\<close>

definition sample_packet :: "u16 \<Rightarrow> u8 list" where
  "sample_packet receiver =
     put_u16 receiver @ put_u16 2 @ type_byte MSG_REQUESTVOTE # put_requestvote (sample_requestvote 2 2)"

lemma sample_packet_run:
  "case recv sky ref_contiki sample_app (sample_packet 1) of
     Fault f \<Rightarrow> False
   | Ok s' \<Rightarrow> current_term s' = 2 \<and> voted_for s' = 2"
  "case recv sky ref_contiki sample_app (sample_packet 3) of Fault f \<Rightarrow> False | Ok s' \<Rightarrow> True"
  by code_simp+

lemma sample_packet_delivers:
  "delivers sky ref_contiki sample_app (sample_packet 1) inp \<Longrightarrow> inp = Requestvote 2 (sample_requestvote 2 2)"
  "\<not> delivers sky ref_contiki sample_app (sample_packet 3) inp"
proof -
  have u16: "put_u16 x @ r = put_u16 y @ r' \<longleftrightarrow> x = y \<and> r = r'" for x y r r'
    using get_u16_iff [of "put_u16 x @ r" y r'] get_put_u16 [of x r] by auto
  show "\<not> delivers sky ref_contiki sample_app (sample_packet 3) inp"
    by (auto simp: sample_packet_def u16 elim!: delivers.cases simp del: type_byte.simps)
  have two: "to_signed 2 = 2" by (simp add: to_signed_def)
  have same: "rv = sample_requestvote 2 2"
    if "requestvote_ok rv" "put_requestvote (sample_requestvote 2 2) = put_requestvote rv @ rest" for rv rest
  proof -
    have "requestvote_ok (sample_requestvote 2 2)"
      by (simp add: requestvote_ok_def sample_requestvote_def in_int_iff)
    from get_put_requestvote [OF this, of "[]"]
    have "get_requestvote (put_requestvote rv @ rest) = Ok (sample_requestvote 2 2, [])"
      by (simp only: append_Nil2 that(2))
    with get_put_requestvote [OF that(1), of rest] show ?thesis by simp
  qed
  show "delivers sky ref_contiki sample_app (sample_packet 1) inp \<Longrightarrow> inp = Requestvote 2 (sample_requestvote 2 2)"
    by (erule delivers.cases) (auto simp: sample_packet_def u16 two dest: same)
qed

theorem application_drives_library_witness:
  "(\<exists>s' out t. recv sky ref_contiki sample_app (sample_packet 1) = Ok s' \<and>
      server_step ref_contiki sample_app (Requestvote 2 (sample_requestvote 2 2)) out t \<and>
      s' = answer sky (Requestvote 2 (sample_requestvote 2 2)) out t \<and> current_term s' = 2 \<and> voted_for s' = 2) \<and>
   recv sky ref_contiki sample_app (sample_packet 3) = Ok sample_app"
proof -
  obtain s' s'' where one: "recv sky ref_contiki sample_app (sample_packet 1) = Ok s'" "current_term s' = 2" "voted_for s' = 2"
    and three: "recv sky ref_contiki sample_app (sample_packet 3) = Ok s''"
    using sample_packet_run by (auto split: result.splits)
  note drives = application_drives_library [where s = sample_app and pf = sky and ct = ref_contiki, THEN conjunct1, rule_format]
  from drives [OF three] sample_packet_delivers(2) have "s'' = sample_app" by blast
  moreover from drives [OF one(1)] have "\<exists>out t. server_step ref_contiki sample_app (Requestvote 2 (sample_requestvote 2 2)) out t \<and>
      s' = answer sky (Requestvote 2 (sample_requestvote 2 2)) out t"
  proof
    assume "s' = sample_app \<and> (\<nexists>inp. delivers sky ref_contiki sample_app (sample_packet 1) inp)"
    with one(2) show ?thesis by simp
  next
    assume "\<exists>inp out t. delivers sky ref_contiki sample_app (sample_packet 1) inp \<and>
      server_step ref_contiki (drawn sample_app inp) inp out t \<and> s' = answer sky inp out t"
    then obtain inp out t where "delivers sky ref_contiki sample_app (sample_packet 1) inp"
      and step: "server_step ref_contiki (drawn sample_app inp) inp out t" "s' = answer sky inp out t" by blast
    from sample_packet_delivers(1) [OF this(1)] step show ?thesis by (auto simp: drawn_def)
  qed
  ultimately show ?thesis using one three by blast
qed

end
