(* ===== verification/Raft_Network.thy ===== *)
theory Raft_Network
  imports Raft_Cluster
begin

text \<open>
  Which appendentries messages leave a server.  The messages handed to the callback
  \<^verbatim>\<open>send_appendentries\<close> are read off the user's data by a function \<open>sent\<close>; the theory shows that
  every step of a server adds only messages that a leader builds from its own log.
\<close>

section \<open>Callbacks that send\<close>

text \<open>
  The callback \<^verbatim>\<open>send_appendentries\<close> may put the message it is given on the network, with the
  identifier of the node it is for, or lose it; no other callback sends appendentries messages.
\<close>

definition records :: "('u \<Rightarrow> (int \<times> msg_appendentries) set) \<Rightarrow> 'u raft_cbs \<Rightarrow> bool" where
  "records sent cbs \<longleftrightarrow>
     (\<forall>f u n m. cb_send_appendentries cbs = Some f \<longrightarrow>
        sent (snd (f u n m)) \<subseteq> insert (node_id n, m) (sent u)) \<and>
     (\<forall>f u n m. cb_send_requestvote cbs = Some f \<longrightarrow> sent (snd (f u n m)) \<subseteq> sent u) \<and>
     (\<forall>f u n. cb_send_snapshot cbs = Some f \<longrightarrow> sent (snd (f u n)) \<subseteq> sent u) \<and>
     (\<forall>f u e i. cb_applylog cbs = Some f \<longrightarrow> sent (snd (f u e i)) \<subseteq> sent u) \<and>
     (\<forall>f u i. cb_persist_vote cbs = Some f \<longrightarrow> sent (snd (f u i)) \<subseteq> sent u) \<and>
     (\<forall>f u i j. cb_persist_term cbs = Some f \<longrightarrow> sent (snd (f u i j)) \<subseteq> sent u) \<and>
     (\<forall>f u e i. cb_log_offer cbs = Some f \<longrightarrow> sent (snd (f u e i)) \<subseteq> sent u) \<and>
     (\<forall>f u e i. cb_log_pop cbs = Some f \<longrightarrow> sent (snd (f u e i)) \<subseteq> sent u) \<and>
     (\<forall>f u e i. cb_log_get_node_id cbs = Some f \<longrightarrow> sent (snd (f u e i)) \<subseteq> sent u) \<and>
     (\<forall>f u n. cb_node_has_sufficient_logs cbs = Some f \<longrightarrow> sent (snd (f u n)) \<subseteq> sent u)"

lemma recordsD:
  assumes "records sent cbs"
  shows "cb_send_appendentries cbs = Some f1 \<Longrightarrow> sent (snd (f1 u n m)) \<subseteq> insert (node_id n, m) (sent u)"
    and "cb_send_requestvote cbs = Some f2 \<Longrightarrow> sent (snd (f2 u n rv)) \<subseteq> sent u"
    and "cb_applylog cbs = Some f3 \<Longrightarrow> sent (snd (f3 u e i)) \<subseteq> sent u"
    and "cb_persist_vote cbs = Some f4 \<Longrightarrow> sent (snd (f4 u i)) \<subseteq> sent u"
    and "cb_persist_term cbs = Some f5 \<Longrightarrow> sent (snd (f5 u i j)) \<subseteq> sent u"
    and "cb_log_offer cbs = Some f6 \<Longrightarrow> sent (snd (f6 u e i)) \<subseteq> sent u"
    and "cb_log_pop cbs = Some f7 \<Longrightarrow> sent (snd (f7 u e i)) \<subseteq> sent u"
    and "cb_node_has_sufficient_logs cbs = Some f8 \<Longrightarrow> sent (snd (f8 u n)) \<subseteq> sent u"
    and "cb_log_get_node_id cbs = Some f9 \<Longrightarrow> sent (snd (f9 u e i)) \<subseteq> sent u"
    and "cb_send_snapshot cbs = Some f10 \<Longrightarrow> sent (snd (f10 u n)) \<subseteq> sent u"
  using assms by (simp_all add: records_def)

section \<open>Silence\<close>

text \<open>A part of a handler that sends no appendentries message, with callbacks that record.\<close>

definition silent ::
  "('u \<Rightarrow> (int \<times> msg_appendentries) set) \<Rightarrow> 'u raft_server \<Rightarrow> 'u raft_server \<Rightarrow> bool" where
  "silent sent s s' \<longleftrightarrow> me_cb s' = me_cb s \<and> sent (udata s') \<subseteq> sent (udata s)"

lemma silent_refl [simp]: "silent sent s s"
  by (simp add: silent_def)

lemma silent_trans: "silent sent s t \<Longrightarrow> silent sent t u \<Longrightarrow> silent sent s u"
  by (auto simp: silent_def)

lemma silent_same: "me_cb s' = me_cb s \<Longrightarrow> udata s' = udata s \<Longrightarrow> silent sent s s'"
  by (simp add: silent_def)

lemma set_term_silent:
  "records sent (me_cb s) \<Longrightarrow> silent sent s (snd (raft_set_current_term s t))"
  by (auto simp: raft_set_current_term_def silent_def Let_def case_prod_beta split: option.split
      dest: recordsD(5))

lemma vote_silent:
  "records sent (me_cb s) \<Longrightarrow> silent sent s (snd (raft_vote_for_nodeid s i))"
  by (auto simp: raft_vote_for_nodeid_def silent_def Let_def case_prod_beta split: option.split
      dest: recordsD(4))

lemma follower_silent: "post (raft_become_follower ct s) (silent sent s)"
  by (rule post_mono [OF raft_become_follower_same]) (simp add: silent_def config_of_def)

lemma requestvote_loop_silent:
  assumes "records sent (me_cb s)"
  shows "post (requestvote_loop xs s) (silent sent s)"
proof -
  have "post (requestvote_loop xs s) (\<lambda>s'. records sent (me_cb s) \<longrightarrow> silent sent s s')"
    unfolding requestvote_loop_def
    by (rule foreach_rel [where R = "\<lambda>s s'. records sent (me_cb s) \<longrightarrow> silent sent s s'"])
       (auto simp: raft_send_requestvote_def wp Let_def case_prod_beta silent_def
         split: option.split dest: recordsD(2))
  with assms show ?thesis by simp
qed

lemma candidate_silent:
  assumes "records sent (me_cb s)"
  shows "post (raft_become_candidate ct s) (\<lambda>(e, s'). silent sent s s')"
proof -
  obtain e s1 where st: "raft_set_current_term s (current_term s + 1) = (e, s1)" by fastforce
  define s2 where "s2 = s1\<lparr>nodes_mem := clear_votes (nodes_list s1) (nodes_mem s1)\<rparr>"
  obtain e2 s3 where v: "raft_vote s2 (me_node s2) = (e2, s3)" by fastforce
  have "silent sent s s1" using set_term_silent [OF assms, of "current_term s + 1"] st by simp
  moreover from this have "silent sent s2 s3"
    using vote_silent [of sent s2] v assms by (simp add: raft_vote_def silent_def s2_def) (metis snd_conv)
  ultimately have s3: "silent sent s s1" "silent sent s s3" by (auto simp: silent_def s2_def)
  have loop: "post (requestvote_loop xs t) (silent sent s)" if "silent sent s t" for xs t
    using that assms
    by (intro post_mono [OF requestvote_loop_silent]) (auto intro: silent_trans simp: silent_def)
  show ?thesis
    using s3 st v
    by (auto simp: raft_become_candidate_def raft_get_current_term_def wp clear_votes_loop
        s2_def [symmetric] raft_set_state_def silent_def config_of_def
        intro!: post_mono [OF raft_randomize_same] post_mono [OF loop])
qed

lemma requestvote_silent:
  assumes "records sent (me_cb s)"
  shows "post (raft_recv_requestvote ct s node vr) (\<lambda>(e, r, s'). silent sent s s')"
proof -
  have answer: "post (vote_answer t n vr) (\<lambda>(e, r, s'). silent sent s s')" if "silent sent s t" for t n
  proof -
    have "records sent (me_cb t)" using that assms by (simp add: silent_def)
    from silent_trans [OF that vote_silent [OF this]] that show ?thesis
      by (auto simp: vote_answer_def requestvote_done_def wp case_prod_beta Let_def silent_def intro!: postI)
  qed
  have follow: "post (raft_become_follower ct t) (silent sent s)" if "silent sent s t" for t
    by (rule post_mono [OF follower_silent]) (rule silent_trans [OF that])
  obtain e s1 where st: "raft_set_current_term s (rv_term vr) = (e, s1)" by fastforce
  have "silent sent s s1" using set_term_silent [OF assms, of "rv_term vr"] st by simp
  then show ?thesis
    by (auto simp: raft_recv_requestvote_def Let_def wp st requestvote_done_def
        intro!: answer post_mono [OF follow]) (auto simp: silent_def)
qed

lemma append_silent:
  assumes "records sent (me_cb s)" "\<not> raft_entry_is_cfg_change e"
  shows "post (raft_append_entry ct s e) (\<lambda>(c, e', s'). silent sent s s')"
proof -
  have "me_cb (log_make_room ct t) = me_cb t" "udata (log_make_room ct t) = udata t" for t :: "'a raft_server"
    by (simp_all add: log_make_room_def pop_and_free_def Let_def split: prod.split option.split)
  with assms show ?thesis
    by (auto simp: raft_append_entry_plain log_append_entry_def wp Let_def case_prod_beta raft_offer_log_def
        silent_def split: option.split dest: recordsD(6) [THEN subsetD])
qed

lemma delete_silent:
  assumes "records sent (me_cb s)" "plain_log s"
  shows "post (raft_delete_entry_from_idx ct s i) (\<lambda>(c, s'). silent sent s s')"
proof -
  have cfg: "\<not> raft_entry_is_cfg_change (entries_mem s a)"
    if "find_idx (entries_mem s) (entries_list (me_log s)) j = Some a" for a j
    using that assms(2) by (auto simp: find_idx_def find_Some_iff plain_log_def)
  have "post (log_delete ct t i) (\<lambda>(c, s'). silent sent s s')"
    if "t = s \<or> t = s\<lparr>voting_cfg_change_log_idx := -1\<rparr>" for t
    using that assms(1) cfg
    by (auto simp: log_delete_def wp Let_def case_prod_beta raft_pop_log_def silent_def
        split: option.split dest: recordsD(7) [THEN subsetD])
  then show ?thesis by (auto simp: raft_delete_entry_from_idx_def wp Let_def)
qed

lemma appendentries_silent:
  assumes "contiki_ok ct" "records sent (me_cb s)" "plain_log s"
    and "\<forall>e \<in> set (entries ae). \<not> raft_entry_is_cfg_change e"
  shows "post (raft_recv_appendentries ct s node ae) (\<lambda>(e, r, s'). silent sent s s')"
proof -
  let ?I = "\<lambda>t. silent sent s t \<and> plain_since s t"
  have upd: "?I t'" if "?I t" "silent sent t t'" "log_of t' = log_of t" "members_of t' = members_of t" for t t'
    using that log_invariantD [OF plain_since_invariant] by (blast intro: silent_trans)
  have del: "post (raft_delete_entry_from_idx ct t i) (\<lambda>(e, t'). ?I t')" if "?I t" for t i
    using that assms(1,2)
    by (intro post_mono [OF post_conj [OF delete_silent delete_plain_since]])
       (auto simp: plain_since_def silent_def)
  have app: "post (raft_append_entry ct t x) (\<lambda>(c, e', t'). ?I t')" if "?I t" "x \<in> set (entries ae)" for t x
    using that assms(1,2,4)
    by (intro post_mono [OF post_conj [OF append_silent append_plain_since]])
       (auto simp: plain_since_def silent_def)
  have "post (raft_recv_appendentries ct s node ae) (\<lambda>(e, r, s'). ?I s')"
  proof (rule appendentries_rule [OF _ _ _ _ _ del app])
    show I: "?I s" using assms(3) by (simp add: plain_since_def)
    show "?I (snd (raft_set_current_term s (ae_term ae)))"
    proof -
      obtain e t where st: "raft_set_current_term s (ae_term ae) = (e, t)" by fastforce
      from raft_set_current_term_spec [OF st] set_term_silent [OF assms(2), of "ae_term ae"] st
      show ?thesis using upd [OF I] by simp
    qed
    show "post (raft_become_follower ct t) ?I" if "?I t" for t
      by (rule post_mono [OF raft_become_follower_same])
         (rule upd [OF that], simp_all add: silent_def config_of_def)
    show "?I (t\<lparr>commit_idx := c\<rparr>)" if "?I t" for t c
      by (rule upd [OF that]) (simp_all add: silent_def views)
    show "?I (t\<lparr>current_leader := node, timeout_elapsed := 0\<rparr>)" if "?I t" for t
      by (rule upd [OF that]) (simp_all add: silent_def views)
  qed
  then show ?thesis by (rule post_mono) auto
qed

lemma apply_silent:
  assumes "records sent (me_cb s)" "plain_log s"
  shows "post (raft_apply_entry ct s) (\<lambda>(e, s'). silent sent s s')"
proof -
  have "\<not> raft_entry_is_cfg_change (entries_mem s a)" if "raft_get_entry_from_idx s i = Some a" for a i
    using that assms(2)
    by (auto simp: raft_get_entry_from_idx_def log_get_at_idx_def find_idx_def find_Some_iff
        plain_log_def Let_def split: if_splits)
  then show ?thesis
    using assms(1) unfolding raft_apply_entry_def
    by (auto simp: Let_def wp case_prod_beta apply_finish_def silent_def split: option.split
        dest: recordsD(3) [THEN subsetD])
qed

lemma apply_all_silent:
  assumes "records sent (me_cb s)" "plain_log s"
  shows "post (raft_apply_all ct s) (\<lambda>(e, s'). silent sent s s')"
proof -
  let ?I = "\<lambda>t. plain_log t \<and> silent sent s t"
  have "post (raft_apply_entry ct t) (\<lambda>(e, t'). ?I t')"
    if "?I t" "last_applied_idx t < commit_idx t" for t
    using that(1) assms(1) plain_log_cong
    by (intro post_mono [OF post_conj [OF raft_apply_entry_frame [OF that(2)] apply_silent]])
       (auto simp: apply_step_def ticked_def silent_def)
  then have "post (apply_all_loop ct s) (\<lambda>(e, s'). ?I s')"
    using assms(2) by (intro apply_all_loop_rule) auto
  then show ?thesis by (auto simp: raft_apply_all_def wp elim!: post_mono)
qed

section \<open>What a leader says\<close>

text \<open>The message with everything from an index on, and with the index and the term of the entry before.\<close>

definition ae_at :: "'u raft_server \<Rightarrow> int \<Rightarrow> int \<Rightarrow> msg_appendentries" where
  "ae_at s k lc =
     \<lparr>ae_term = current_term s,
      prev_log_idx = (if 1 < k then k - 1 else 0),
      prev_log_term =
        (if 1 < k
         then (case log_lookup s (k - 1) of
                 Some p \<Rightarrow> to_signed (ety_term p)
               | None \<Rightarrow> snapshot_last_term s)
         else 0),
      leader_commit = lc,
      n_entries = (if k \<le> raft_get_current_idx s then raft_get_current_idx s - k + 1 else 0),
      entries = (if k \<le> raft_get_current_idx s
                 then drop (nat (k - dropped s - 1)) (window s) else [])\<rparr>"

lemma ae_for_at: "ae_for s a = ae_at s (next_idx (nodes_mem s a)) (commit_idx s)"
  by (simp add: ae_for_def ae_at_def Let_def)

definition leader_message :: "'u raft_server \<Rightarrow> int \<Rightarrow> msg_appendentries \<Rightarrow> bool" where
  "leader_message s n ae \<longleftrightarrow>
     me_state s = RAFT_STATE_LEADER \<and>
     (\<exists>a \<in> set (nodes_list s). me_node s \<noteq> Some a \<and> node_id (nodes_mem s a) = n) \<and>
     (\<exists>k lc. dropped s < k \<and> lc \<le> commit_idx s \<and> ae = ae_at s k lc)"

text \<open>A part of a leader's handler that sends such messages and keeps what they are built from.\<close>

definition speaks ::
  "('u \<Rightarrow> (int \<times> msg_appendentries) set) \<Rightarrow> 'u raft_server \<Rightarrow> 'u raft_server \<Rightarrow> bool" where
  "speaks sent s s' \<longleftrightarrow>
     same_voters s s' \<and> log_of s' = log_of s \<and> current_term s' = current_term s \<and>
     me_state s' = me_state s \<and> config_of s' = config_of s \<and> commit_idx s \<le> commit_idx s' \<and>
     sent (udata s') \<subseteq> sent (udata s) \<union> {(n, ae). leader_message s' n ae}"

lemma leader_message_mono:
  fixes s s' :: "'u raft_server"
  assumes "leader_message s n ae"
    and "same_voters s s'" "log_of s' = log_of s" "current_term s' = current_term s"
    and "me_state s' = me_state s" "config_of s' = config_of s" "commit_idx s \<le> commit_idx s'"
  shows "leader_message s' n ae"
proof -
  have "snapshot_last_term s' = snapshot_last_term s" using assms(6) by (simp add: views)
  then have "ae_at s' k lc = ae_at s k lc" for k lc
    using log_of_window [OF assms(3)] assms(4) by (simp add: ae_at_def cong: option.case_cong)
  moreover obtain k lc where "dropped s < k" "lc \<le> commit_idx s" "ae = ae_at s k lc"
    using assms(1) by (auto simp: leader_message_def)
  ultimately have "dropped s' < k \<and> lc \<le> commit_idx s' \<and> ae = ae_at s' k lc"
    using assms(7) log_of_window [OF assms(3)] by simp
  then show ?thesis
    using assms(1,2,5) by (auto simp: leader_message_def same_voters_def)
qed

lemma speaks_refl [simp]: "speaks sent s s"
  by (auto simp: speaks_def)

lemma speaks_trans: "speaks sent s t \<Longrightarrow> speaks sent t u \<Longrightarrow> speaks sent s u"
  unfolding speaks_def using leader_message_mono [of t _ _ u] by (auto intro: same_voters_trans)

definition can_speak ::
  "('u \<Rightarrow> (int \<times> msg_appendentries) set) \<Rightarrow> contiki \<Rightarrow> 'u raft_server \<Rightarrow> bool" where
  "can_speak sent ct s \<longleftrightarrow>
     contiki_ok ct \<and> log_wf s \<and> snapshot_last_idx s = 0 \<and> records sent (me_cb s) \<and>
     me_state s = RAFT_STATE_LEADER"

lemma can_speak_speaks: "can_speak sent ct s \<Longrightarrow> speaks sent s t \<Longrightarrow> can_speak sent ct t"
  using log_of_window [of t s] by (auto simp: can_speak_def speaks_def views)

lemma raft_send_speaks:
  assumes s: "can_speak sent ct s" and st: "speaks sent s t" and a: "a \<in> set (nodes_list t)"
  shows "post (raft_send_appendentries ct t a) (\<lambda>(e, t'). speaks sent s t')"
proof (rule postI, clarify)
  fix e t'
  assume run: "raft_send_appendentries ct t a = Ok (e, t')"
  have t: "contiki_ok ct" "log_wf t" "snapshot_last_idx t = 0" "records sent (me_cb t)"
    "me_state t = RAFT_STATE_LEADER"
    using can_speak_speaks [OF s st] by (simp_all add: can_speak_def)
  have me: "me_node t \<noteq> Some a" using run by (simp add: raft_send_appendentries_def)
  let ?k = "next_idx (nodes_mem t a)"
  have "speaks sent t t'"
  proof (cases "cb_send_appendentries (me_cb t)")
    case None
    with run show ?thesis by (simp add: raft_send_appendentries_def)
  next
    case (Some f)
    have low: "dropped t < ?k"
    proof (rule ccontr)
      assume "\<not> dropped t < ?k"
      then consider "?k \<le> 0" | "0 < ?k" "?k \<le> dropped t" by linarith
      then have "\<exists>f. raft_get_entries_from_idx ct t ?k = Fault f"
        using log_get_from_idx_dropped [OF t(1,2)]
        by cases (auto simp: raft_get_entries_from_idx_def log_get_from_idx_def Let_def)
      with run Some t(3) show False by (auto simp: raft_send_appendentries_def Let_def node_get_defs)
    qed
    from raft_send_appendentries_message [OF t(1,2) me t(3) low Some] run
    have t': "t' = t\<lparr>udata := snd (f (udata t) (nodes_mem t a) (ae_for t a))\<rparr>"
      by (simp add: case_prod_beta)
    have "leader_message t (node_id (nodes_mem t a)) (ae_for t a)"
      using t(5) a me low unfolding leader_message_def ae_for_at by blast
    then have "leader_message t' (node_id (nodes_mem t a)) (ae_for t a)"
      by (rule leader_message_mono) (simp_all add: t' views same_voters_def)
    with recordsD(1) [OF t(4) Some, of "udata t" "nodes_mem t a" "ae_for t a"] t'
    show ?thesis by (auto simp: speaks_def views same_voters_def)
  qed
  with st show "speaks sent s t'" by (rule speaks_trans)
qed

text \<open>Updates of a leader's knowledge of its peers, of its commit index and of its timers say nothing.\<close>

lemma speaks_quiet:
  assumes "same_voters s s'" "log_of s' = log_of s" "current_term s' = current_term s"
    and "me_state s' = me_state s" "config_of s' = config_of s" "commit_idx s \<le> commit_idx s'"
    and "sent (udata s') \<subseteq> sent (udata s)"
  shows "speaks sent s s'"
  using assms by (auto simp: speaks_def)

lemma upd_idx_speaks [simp]:
  "speaks sent s (upd_node s a (\<lambda>n. raft_node_set_next_idx n k))"
  "speaks sent s (upd_node s a (\<lambda>n. raft_node_set_match_idx n k))"
  by (rule speaks_quiet; simp add: same_voters_def)+

lemma greet_speaks:
  assumes "can_speak sent ct s" "speaks sent s t" "a \<in> set (nodes_list t)"
  shows "post (greet ct a t) (speaks sent s)"
proof -
  have "speaks sent s (upd_node (upd_node t a (\<lambda>n. raft_node_set_next_idx n k)) a
      (\<lambda>n. raft_node_set_match_idx n 0))" for k
    by (rule speaks_trans [OF assms(2) speaks_trans]) (rule upd_idx_speaks)+
  with assms show ?thesis
    by (auto simp: greet_def wp Let_def intro!: post_mono [OF raft_send_speaks])
qed

lemma foreach_speaks:
  assumes "\<And>t a. speaks sent s t \<Longrightarrow> a \<in> set (nodes_list t) \<Longrightarrow> post (f a t) (speaks sent s)"
    and "speaks sent s t" "set xs \<subseteq> set (nodes_list s)"
  shows "post (foreach f xs t) (speaks sent s)"
  using assms(2,3)
proof (induction xs arbitrary: t)
  case (Cons a xs)
  then have "post (f a t) (speaks sent s)"
    by (intro assms(1)) (auto simp: speaks_def same_voters_def)
  with Cons show ?case by (auto simp: wp elim!: post_mono)
qed (simp add: wp)

lemma leader_speaks:
  assumes "contiki_ok ct" "log_wf s" "snapshot_last_idx s = 0" "records sent (me_cb s)"
  shows "post (raft_become_leader ct s) (speaks sent
    (s\<lparr>current_leader := me_node s, me_state := RAFT_STATE_LEADER, timeout_elapsed := 0\<rparr>))"
proof -
  let ?s = "s\<lparr>current_leader := me_node s, me_state := RAFT_STATE_LEADER, timeout_elapsed := 0\<rparr>"
  have "can_speak sent ct ?s"
    using assms log_of_window [of ?s s] by (simp add: can_speak_def views)
  then show ?thesis
    unfolding raft_become_leader_greets by (intro foreach_speaks greet_speaks) auto
qed

lemma send_all_speaks:
  assumes "can_speak sent ct s" "speaks sent s t" "set xs \<subseteq> set (nodes_list s)"
  shows "post (send_all_loop ct xs t) (\<lambda>(e, t'). speaks sent s t')"
  using assms(2,3)
proof (induction xs arbitrary: t)
  case (Cons a xs)
  then have "a \<in> set (nodes_list t)" by (auto simp: speaks_def same_voters_def)
  with Cons show ?case
    by (auto simp: wp intro!: post_mono [OF raft_send_speaks [OF assms(1)]])
qed (simp add: wp)

lemma push_speaks:
  assumes "can_speak sent ct s" "speaks sent s t" "a \<in> set (nodes_list t)"
  shows "post (push_entry ct a t) (speaks sent s)"
  using assms by (auto simp: push_entry_def wp intro!: post_mono [OF raft_send_speaks])

lemma sufficient_speaks:
  assumes "records sent (me_cb t)"
  shows "post (aer_sufficient_logs t a k) (speaks sent t)"
  using assms
  by (auto simp: aer_sufficient_logs_def wp Let_def case_prod_beta same_voters_def views
      intro!: speaks_quiet dest: recordsD(8) [THEN subsetD])

lemma update_commit_speaks: "post (aer_update_commit t k) (speaks sent t)"
proof (rule post_mono [OF aer_update_commit_rule])
  have "speaks sent t (t\<lparr>commit_idx := k\<rparr>)" if "commit_idx t < k"
    by (rule speaks_quiet) (use that in \<open>simp_all add: same_voters_def views\<close>)
  then show "speaks sent t s'"
    if "s' = t \<or> s' = t\<lparr>commit_idx := k\<rparr> \<and> commit_idx t < k \<and> k \<le> raft_get_current_idx t \<and> committable t k"
    for s' using that by auto
qed

lemma success_speaks:
  assumes "can_speak sent ct s" "a \<in> set (nodes_list s)"
  shows "post (aer_success ct s a k) (\<lambda>(e, s'). speaks sent s s')"
  unfolding aer_success_post
proof (rule impI, rule impI, rule post_mono [OF sufficient_speaks])
  show "records sent (me_cb (record_match s a k))"
    using assms(1) by (simp add: can_speak_def record_match_def)
next
  fix t assume "speaks sent (record_match s a k) t"
  moreover have "speaks sent s (record_match s a k)"
    unfolding record_match_def by (rule speaks_trans) (rule upd_idx_speaks)+
  ultimately have t: "speaks sent s t" by (blast intro: speaks_trans)
  show "post (aer_update_commit t k) (\<lambda>u. post
      (if raft_get_entry_from_idx u (raft_node_get_next_idx (nodes_mem u a)) \<noteq> None
       then bind (raft_send_appendentries ct u a) (\<lambda>(_, s). Ok (0, s)) else Ok (0, u))
      (\<lambda>(e, s'). speaks sent s s'))"
  proof (rule post_mono [OF update_commit_speaks])
    fix u assume "speaks sent t u"
    with t have u: "speaks sent s u" by (rule speaks_trans)
    then have "a \<in> set (nodes_list u)" using assms(2) by (simp add: speaks_def same_voters_def)
    with u show "post (if raft_get_entry_from_idx u (raft_node_get_next_idx (nodes_mem u a)) \<noteq> None
        then bind (raft_send_appendentries ct u a) (\<lambda>(_, s). Ok (0, s)) else Ok (0, u))
      (\<lambda>(e, s'). speaks sent s s')"
      by (auto simp: wp intro!: post_mono [OF raft_send_speaks [OF assms(1)]])
  qed
qed

section \<open>What a step says\<close>

text \<open>Every message a step adds is one that the server, now a leader, builds from the log it now has.\<close>

definition said ::
  "('u \<Rightarrow> (int \<times> msg_appendentries) set) \<Rightarrow> 'u raft_server \<Rightarrow> 'u raft_server \<Rightarrow> bool" where
  "said sent s s' \<longleftrightarrow> sent (udata s') \<subseteq> sent (udata s) \<union> {(n, ae). leader_message s' n ae}"

lemma silent_said: "silent sent s s' \<Longrightarrow> said sent s s'"
  by (auto simp: silent_def said_def)

lemma speaks_said: "silent sent s t \<Longrightarrow> speaks sent t s' \<Longrightarrow> said sent s s'"
  by (auto simp: silent_def speaks_def said_def)

lemmas speaks_only_said = speaks_said [OF silent_refl]

lemma requestvote_response_said:
  assumes "contiki_ok ct" "log_wf s" "snapshot_last_idx s = 0" "records sent (me_cb s)"
  shows "post (raft_recv_requestvote_response ct s node r) (\<lambda>(e, s'). said sent s s')"
proof -
  obtain e s1 where st: "raft_set_current_term s (rvr_term r) = (e, s1)" by fastforce
  have s1: "silent sent s s1" using set_term_silent [OF assms(4), of "rvr_term r"] st by simp
  have follow: "post (raft_become_follower ct s1) (\<lambda>s'. said sent s (s'\<lparr>current_leader := None\<rparr>))"
    by (rule post_mono [OF follower_silent], rule silent_said)
       (use s1 in \<open>auto simp: silent_def\<close>)
  let ?t = "record_vote s node"
  note rec = record_vote_frame [of s node]
  have t: "me_cb ?t = me_cb s" "udata ?t = udata s"
    by (simp_all add: record_vote_def split: option.split)
  have "log_wf ?t" "snapshot_last_idx ?t = 0"
    using log_of_window [OF rec(2)] rec(4) assms(2,3) by (simp_all add: views)
  then have lead: "post (raft_become_leader ct ?t) (said sent s)"
    using assms(1,4) t
    by (intro post_mono [OF leader_speaks [of ct ?t sent]] speaks_said [rotated])
       (auto simp: silent_def)
  have quiet: "said sent s ?t" using t by (intro silent_said silent_same)
  show ?thesis
    using silent_said [OF s1] quiet lead
    by (auto simp: raft_recv_requestvote_response_def Let_def wp st record_vote_def [symmetric]
        silent_said intro!: post_mono [OF follow] elim!: post_mono)
qed

lemma response_speaks:
  assumes "can_speak sent ct s" "\<not> current_term s < aer_term r"
    and "\<And>a. node = Some a \<Longrightarrow> a \<in> set (nodes_list s)"
  shows "post (raft_recv_appendentries_response ct s node r) (\<lambda>(e, s'). speaks sent s s')"
proof -
  have send: "post (raft_send_appendentries ct (upd_node s a (\<lambda>n. raft_node_set_next_idx n k)) a)
      (\<lambda>(e, s'). speaks sent s s')" if "node = Some a" for a k
    using assms(3) [OF that] by (intro raft_send_speaks [OF assms(1)]) simp_all
  show ?thesis
    using assms(2,3)
    by (auto simp: raft_recv_appendentries_response_def wp Let_def
        intro!: post_mono [OF send] post_mono [OF success_speaks [OF assms(1)]])
qed

lemma response_said:
  assumes "contiki_ok ct" "log_wf s" "snapshot_last_idx s = 0" "records sent (me_cb s)"
    and "\<And>a. node = Some a \<Longrightarrow> a \<in> set (nodes_list s)"
  shows "post (raft_recv_appendentries_response ct s node r) (\<lambda>(e, s'). said sent s s')"
proof (cases "raft_is_leader s \<and> \<not> current_term s < aer_term r")
  case True
  then have s: "can_speak sent ct s"
    using assms by (simp add: can_speak_def raft_is_leader_def raft_get_state_def)
  from response_speaks [OF s _ assms(5)] True
  have "post (raft_recv_appendentries_response ct s node r) (\<lambda>(e, s'). speaks sent s s')" by blast
  then show ?thesis by (rule post_mono) (auto intro: speaks_only_said)
next
  case False
  obtain e s1 where st: "raft_set_current_term s (aer_term r) = (e, s1)" by fastforce
  have s1: "silent sent s s1" using set_term_silent [OF assms(4), of "aer_term r"] st by simp
  have "post (raft_become_follower ct s1) (\<lambda>s'. said sent s (s'\<lparr>current_leader := None\<rparr>))"
    by (rule post_mono [OF follower_silent], rule silent_said)
       (use s1 in \<open>auto simp: silent_def\<close>)
  with False silent_said [OF s1] show ?thesis
    by (auto simp: raft_recv_appendentries_response_def wp st silent_said elim!: post_mono)
qed

lemma recv_entry_said:
  assumes "contiki_ok ct" "log_wf s" "snapshot_last_idx s = 0" "records sent (me_cb s)"
    and "\<not> raft_entry_is_cfg_change ety"
  shows "post (raft_recv_entry ct s ety r) (\<lambda>(e, ety', r', s'). said sent s s')"
proof (cases "raft_is_leader s")
  case False
  with assms(5) show ?thesis
    by (auto simp: raft_recv_entry_def wp silent_said raft_entry_is_cfg_change_def)
next
  case True
  let ?ety = "ety\<lparr>ety_term := to_unsigned (current_term s)\<rparr>"
  have cfg: "\<not> raft_entry_is_cfg_change ?ety" "\<not> raft_entry_is_voting_cfg_change ety"
    using assms(5) by (auto simp: raft_entry_is_cfg_change_def raft_entry_is_voting_cfg_change_def)
  have rest: "post (foreach (push_entry ct) (nodes_list t) t) (\<lambda>t.
      post (if raft_get_num_voting_nodes t = 1 then raft_set_commit_idx t (raft_get_current_idx t) else Ok t)
        (said sent s))" if app: "silent sent s t" "can_speak sent ct t" for t
  proof (rule post_mono [OF foreach_speaks [OF push_speaks [OF app(2)] speaks_refl]])
    fix u assume u: "speaks sent t u"
    have "speaks sent t (u\<lparr>commit_idx := k\<rparr>)" if "commit_idx u \<le> k" for k
      by (rule speaks_trans [OF u], rule speaks_quiet) (use that in \<open>simp_all add: same_voters_def views\<close>)
    with u show "post (if raft_get_num_voting_nodes u = 1 then raft_set_commit_idx u (raft_get_current_idx u)
        else Ok u) (said sent s)"
      by (auto simp: wp intro!: post_mono [OF raft_set_commit_idx_frame] speaks_said [OF app(1)])
  qed simp_all
  have "post (raft_append_entry ct s ?ety) (\<lambda>(c, e', t). silent sent s t \<and>
      (c = 0 \<longrightarrow> can_speak sent ct t) \<and> \<not> raft_entry_is_voting_cfg_change e')"
  proof (rule post_mono [OF post_conj [OF append_silent [OF assms(4) cfg(1)]
          post_conj [OF raft_append_entry_frame raft_append_entry_post [OF assms(1,2)]]]], clarify, intro conjI impI)
    fix c t
    assume "silent sent s t" "append_step s t" and "c = 0 \<longrightarrow> appended s
      (?ety\<lparr>ety_idx := to_unsigned (raft_get_current_idx s + 1)\<rparr>) t"
    then show "c = 0 \<Longrightarrow> can_speak sent ct t"
      using True assms
      by (auto simp: can_speak_def appended_def append_step_def views raft_is_leader_def raft_get_state_def)
    show "\<not> raft_entry_is_voting_cfg_change (?ety\<lparr>ety_idx := to_unsigned (raft_get_current_idx s + 1)\<rparr>)"
      using cfg(2) by (simp add: raft_entry_is_voting_cfg_change_def)
  qed
  then show ?thesis
    using cfg(2) True unfolding raft_recv_entry_def
    by (auto simp: wp Let_def silent_said elim!: post_mono intro!: post_mono [OF rest])
qed

lemma tick_said:
  assumes "contiki_ok ct" "log_wf s" "snapshot_last_idx s = 0" "records sent (me_cb s)"
    and "plain_log s" "raft_get_num_voting_nodes s \<noteq> 1"
  shows "post (raft_periodic ct s ms) (\<lambda>(e, s'). said sent s s')"
proof -
  let ?R = "\<lambda>t. \<exists>k. t = s\<lparr>timeout_elapsed := k\<rparr>"
  let ?R' = "\<lambda>t. plain_log t \<and> records sent (me_cb t) \<and> said sent s t"
  have single: "post (periodic_single ct (s\<lparr>timeout_elapsed := t\<rparr>)) ?R" for t
    using assms(6) by (auto simp: periodic_single_def wp raft_get_num_voting_nodes_def)
  have start: "post (periodic_timeout ct t) (\<lambda>(e, s'). ?R' s')" if "?R t" for t
  proof -
    from that obtain k where k: "t = s\<lparr>timeout_elapsed := k\<rparr>" by blast
    then have t: "silent sent s t" "log_wf t" "plain_log t"
      using assms(5) log_of_window [of t s] assms(2) plain_log_cong [of t s] by (simp_all add: silent_def views)
    have all: "post (raft_send_appendentries_all ct t) (\<lambda>(e, s'). said sent s s')"
      if "me_state t = RAFT_STATE_LEADER"
    proof -
      let ?t = "t\<lparr>timeout_elapsed := 0\<rparr>"
      have "can_speak sent ct ?t"
        using assms k that log_of_window [of ?t s] by (simp add: can_speak_def views)
      from send_all_speaks [OF this speaks_refl order_refl] show ?thesis
        unfolding raft_send_appendentries_all_def Let_def
        by (rule post_mono [of "send_all_loop ct (nodes_list ?t) ?t"])
           (use t(1) in \<open>auto intro!: speaks_said [of sent s ?t] simp: silent_def\<close>)
    qed
    have elect: "post (raft_election_start ct t) (\<lambda>(e, s'). said sent s s')"
      unfolding raft_election_start_def
      using assms(4) k t(1)
      by (intro post_mono [OF candidate_silent]) (auto intro!: silent_said intro: silent_trans)
    have "post (periodic_timeout ct t) (\<lambda>(e, s'). said sent s s')"
      unfolding periodic_timeout_def using silent_said [OF t(1)]
      by (auto simp: wp intro!: elect post_mono [OF all])
    from post_conj [OF periodic_timeout_frame this] show ?thesis
    proof (rule post_mono, clarify)
      fix s'
      assume "ticked t s'" "said sent s s'"
      moreover from this have "log_of s' = log_of t" "me_cb s' = me_cb t"
        by (simp_all add: ticked_def config_of_def)
      ultimately show "?R' s'" using t(3) assms(4) k plain_log_cong [of s' t] by simp
    qed
  qed
  have app: "post (raft_apply_entry ct t) (\<lambda>(e, s'). ?R' s')"
    if "?R' t" "last_applied_idx t < commit_idx t" for t
  proof (rule post_mono [OF post_conj [OF raft_apply_entry_frame [OF that(2)]
          post_conj [OF apply_silent raft_apply_entry_members]]])
    fix x
    assume x: "(case x of (e, s') \<Rightarrow> apply_step t s') \<and> (case x of (e, s') \<Rightarrow> silent sent t s') \<and>
      (case x of (e, s') \<Rightarrow> members_of s' = members_of t)"
    obtain e s' where [simp]: "x = (e, s')" by fastforce
    have "leader_message s' n ae" if "leader_message t n ae" for n ae
      using x that by (intro leader_message_mono [OF that])
        (auto simp: apply_step_def ticked_def election_of_def intro: members_same_voters)
    then have "said sent s s'" using x that(1) by (auto simp: said_def silent_def)
    moreover have "plain_log s'" using x that(1) plain_log_cong by (auto simp: apply_step_def ticked_def)
    ultimately show "case x of (e, s') \<Rightarrow> ?R' s'" using x that(1) by (simp add: silent_def)
  qed (use that in auto)
  show ?thesis
    by (rule post_mono [OF raft_periodic_rule [OF single start app]]) auto
qed

lemma server_step_said:
  assumes "contiki_ok ct" "server_step ct s inp out s'" "log_wf s" "snapshot_last_idx s = 0"
    and "records sent (me_cb s)" "plain_log s" "plain_input inp" "raft_get_num_voting_nodes s \<noteq> 1"
  shows "said sent s s'"
  using assms(2)
proof cases
  case (tick ms e)
  with postD [OF tick_said [OF assms(1,3-6,8)]] show ?thesis by auto
next
  case (apply_all e)
  with postD [OF apply_all_silent [OF assms(5,6)]] show ?thesis by (auto intro: silent_said)
next
  case (requestvote sender vr e r)
  with postD [OF requestvote_silent [OF assms(5)]] show ?thesis by (auto intro: silent_said)
next
  case (requestvote_response sender r e)
  with postD [OF requestvote_response_said [OF assms(1,3-5)]] show ?thesis by auto
next
  case (appendentries sender ae e ar)
  with postD [OF appendentries_silent [OF assms(1,5,6)]] assms(7) show ?thesis
    by (auto intro: silent_said simp: plain_input_def)
next
  case (appendentries_response sender ar e)
  have "a \<in> set (nodes_list s)" if "raft_get_node s sender = Some a" for a
    using raft_get_node_Some [OF that] by simp
  from postD [OF response_said [OF assms(1,3-5) this] appendentries_response(3)]
  show ?thesis by simp
next
  case (client_entry ety cr e ety' cr')
  with postD [OF recv_entry_said [OF assms(1,3-5)]] assms(7) show ?thesis by (auto simp: plain_input_def)
qed

end
