(* ===== verification/Raft_History.thy ===== *)
theory Raft_History
  imports Raft_Network
begin

text \<open>
  Logs as parts of a history.  A history says which entry was created at an index in a term and what
  the term of the entry before it was; logs and messages whose entries obey one history match.  The
  theory shows that a follower which accepts such a message keeps such a log, where the conditions under
  which the handler of \<^verbatim>\<open>src/raft_server.c\<close> does so are spelled out.
\<close>

section \<open>Histories\<close>

type_synonym history = "int \<times> int \<Rightarrow> (raft_entry \<times> u16) option"

definition history_ok :: "history \<Rightarrow> bool" where
  "history_ok H \<longleftrightarrow>
     (\<forall>t i e p. H (t, i) = Some (e, p) \<longrightarrow>
        0 < t \<and> 0 < i \<and> uint (ety_term e) = t \<and> ety_idx e = to_unsigned i)"

definition chained :: "history \<Rightarrow> (int \<Rightarrow> raft_entry option) \<Rightarrow> bool" where
  "chained H L \<longleftrightarrow>
     (\<forall>i x. L i = Some x \<longrightarrow>
        (\<exists>p. H (uint (ety_term x), i) = Some (x, p) \<and> (i = 1 \<longrightarrow> p = 0) \<and>
             (\<forall>y. L (i - 1) = Some y \<longrightarrow> ety_term y = p)))"

text \<open>The term that the entry at a position of a message expects before it.\<close>

definition pred_term :: "msg_appendentries \<Rightarrow> nat \<Rightarrow> u16" where
  "pred_term ae k = (if k = 0 then to_unsigned (prev_log_term ae) else ety_term (entries ae ! (k - 1)))"

definition message_ok :: "history \<Rightarrow> msg_appendentries \<Rightarrow> bool" where
  "message_ok H ae \<longleftrightarrow>
     n_entries ae = int (length (entries ae)) \<and> 0 \<le> prev_log_idx ae \<and>
     (\<forall>k < length (entries ae). \<exists>p.
        H (uint (ety_term (entries ae ! k)), prev_log_idx ae + 1 + int k) = Some (entries ae ! k, p) \<and>
        (if prev_log_idx ae = 0 \<and> k = 0 then p = 0
         else p = pred_term ae k \<or> k = 0 \<and> pred_term ae k = 0))"

lemma map_leD: "H \<subseteq>\<^sub>m H' \<Longrightarrow> H k = Some v \<Longrightarrow> H' k = Some v"
  by (auto simp: map_le_def dom_def)

lemma chainedD:
  assumes "chained H L" "L i = Some x"
  obtains p where "H (uint (ety_term x), i) = Some (x, p)" "i = 1 \<Longrightarrow> p = 0"
    "\<And>y. L (i - 1) = Some y \<Longrightarrow> ety_term y = p"
  using assms unfolding chained_def by blast

lemma chained_mono:
  assumes "chained H L" "\<And>i x. L' i = Some x \<Longrightarrow> L i = Some x" "H \<subseteq>\<^sub>m H'"
  shows "chained H' L'"
  unfolding chained_def
proof (intro allI impI)
  fix i x assume x: "L' i = Some x"
  from assms(1) assms(2) [OF x] obtain p where p: "H (uint (ety_term x), i) = Some (x, p)"
    "i = 1 \<Longrightarrow> p = 0" "\<And>y. L (i - 1) = Some y \<Longrightarrow> ety_term y = p"
    by (rule chainedD) blast
  moreover from p(1) have "H' (uint (ety_term x), i) = Some (x, p)"
    using assms(3) by (rule map_leD [rotated])
  ultimately show "\<exists>p. H' (uint (ety_term x), i) = Some (x, p) \<and> (i = 1 \<longrightarrow> p = 0) \<and>
      (\<forall>y. L' (i - 1) = Some y \<longrightarrow> ety_term y = p)"
    using assms(2) by blast
qed

lemma message_ok_mono: "message_ok H ae \<Longrightarrow> H \<subseteq>\<^sub>m H' \<Longrightarrow> message_ok H' ae"
  unfolding message_ok_def by (blast intro: map_leD)

text \<open>One more entry at the end of a log.\<close>

lemma chained_append:
  assumes "chained H L" "\<And>i. n \<le> i \<Longrightarrow> L i = None" "H (uint (ety_term e), n) = Some (e, p)"
    and "n = 1 \<Longrightarrow> p = 0" "\<And>y. L (n - 1) = Some y \<Longrightarrow> ety_term y = p"
    and "\<And>i x. L' i = Some x \<Longrightarrow> i \<noteq> n \<Longrightarrow> L i = Some x" "L' n = Some e"
  shows "chained H L'"
  unfolding chained_def
proof (intro allI impI)
  fix i x assume x: "L' i = Some x"
  show "\<exists>p. H (uint (ety_term x), i) = Some (x, p) \<and> (i = 1 \<longrightarrow> p = 0) \<and>
      (\<forall>y. L' (i - 1) = Some y \<longrightarrow> ety_term y = p)"
  proof (cases "i = n")
    case True
    have "ety_term y = p" if "L' (n - 1) = Some y" for y
      using assms(5,6) that by (metis diff_add_cancel less_add_one less_irrefl)
    with True assms(3,4,7) x show ?thesis by auto
  next
    case False
    then have L: "L i = Some x" using assms(6) x by blast
    with assms(2) have "i < n" by (metis linorder_not_less option.distinct(1))
    from assms(1) L obtain p where "H (uint (ety_term x), i) = Some (x, p)"
      "i = 1 \<Longrightarrow> p = 0" "\<And>y. L (i - 1) = Some y \<Longrightarrow> ety_term y = p"
      by (rule chainedD) blast
    moreover have "L (i - 1) = Some y" if "L' (i - 1) = Some y" for y
      using assms(6) [OF that] \<open>i < n\<close> by simp
    ultimately show ?thesis by blast
  qed
qed

text \<open>Two logs of one history agree below an entry they have in common.\<close>

lemma chained_agree:
  assumes "chained H L" "chained H M" "L i = Some x" "M i = Some y" "ety_term x = ety_term y"
    and "\<And>k. j \<le> k \<Longrightarrow> k \<le> i \<Longrightarrow> L k \<noteq> None \<and> M k \<noteq> None" "j \<le> i"
  shows "L j = M j"
  using assms(3-7)
proof (induction "nat (i - j)" arbitrary: i x y)
  case 0
  from chainedD [OF assms(1) 0(2)] chainedD [OF assms(2) 0(3)] 0 show ?case
    by (metis diff_gt_0_iff_gt fst_conv nle_le nat_eq_iff2 option.inject linorder_not_le zero_less_nat_eq)
next
  case (Suc d)
  then have j: "j \<le> i - 1" "d = nat (i - 1 - j)" by simp_all
  obtain x' y' where x': "L (i - 1) = Some x'" "M (i - 1) = Some y'"
    using Suc.prems(4) [of "i - 1"] j(1) by auto
  have "ety_term x' = ety_term y'"
    using chainedD [OF assms(1) Suc.prems(1)] chainedD [OF assms(2) Suc.prems(2)] x' Suc.prems(3)
    by (metis option.inject prod.inject)
  from Suc.hyps(1) [OF j(2) x' this] Suc.prems(4) j(1) show ?case by simp
qed

section \<open>Lookups after an append and after a deletion\<close>

lemma delete_last_lookup:
  assumes "contiki_ok ct" "log_wf s" "raft_get_current_idx s \<le> i" "in_int i"
    and "dropped s < raft_get_current_idx s"
  shows "post (raft_delete_entry_from_idx ct s i) (\<lambda>(c, s').
    log_wf s' \<and> dropped s' = dropped s \<and>
    (if i = raft_get_current_idx s \<and> c = 0
     then raft_get_current_idx s' = raft_get_current_idx s - 1 \<and>
          (\<forall>j. log_lookup s' j = (if j < raft_get_current_idx s then log_lookup s j else None))
     else log_of s' = log_of s))"
proof -
  let ?cur = "raft_get_current_idx s"
  note cur = current_idx_window [OF assms(2)] and range = current_idx_range [OF assms(2)]
  define t where "t = (if i \<le> voting_cfg_change_log_idx s then s\<lparr>voting_cfg_change_log_idx := -1\<rparr> else s)"
  have lg: "log_of t = log_of s" by (simp add: t_def views)
  note same = log_of_window [OF lg]
  have ne: "window t \<noteq> []" using same cur assms(5) by (auto simp del: window_Nil length_window)
  have "post (log_delete ct t i) (\<lambda>(c, s').
    log_wf s' \<and> dropped s' = dropped s \<and>
    (if i = ?cur \<and> c = 0
     then raft_get_current_idx s' = ?cur - 1 \<and>
          (\<forall>j. log_lookup s' j = (if j < ?cur then log_lookup s j else None))
     else log_of s' = log_of s))"
  proof (cases "i = ?cur")
    case False
    with assms(3,4) range have "find_idx (entries_mem t) (entries_list (me_log t)) i = None" "0 < i"
      using find_idx_window [of t i] same assms(2) by auto
    with False range(4) lg assms(2) same show ?thesis
      by (simp add: log_delete_def wp Let_def) (simp add: views)
  next
    case True
    have wf: "log_wf t" using same assms(2) by simp
    have at: "post (log_delete ct t i) (\<lambda>(c, s'). c = 0 \<longrightarrow> log_wf s' \<and> window s' = butlast (window t) \<and>
        dropped s' = dropped t)"
      using log_delete_last [OF assms(1) wf ne] same True by simp
    show ?thesis
    proof (rule post_mono [OF post_conj [OF at log_delete_error_log]], clarify, intro conjI)
      fix c s'
      assume ok: "c = 0 \<longrightarrow> log_wf s' \<and> window s' = butlast (window t) \<and> dropped s' = dropped t"
        and err: "c \<noteq> 0 \<longrightarrow> log_of s' = log_of t"
      show wf': "log_wf s'" and d': "dropped s' = dropped s"
        using ok err wf same log_of_window [of s' t] by (cases "c = 0"; simp)+
      show "if i = ?cur \<and> c = 0 then raft_get_current_idx s' = ?cur - 1 \<and>
          (\<forall>j. log_lookup s' j = (if j < ?cur then log_lookup s j else None)) else log_of s' = log_of s"
      proof (cases "c = 0")
        case zero: True
        have win: "window s' = butlast (window s)" using ok zero same by simp
        have cur': "raft_get_current_idx s' = ?cur - 1"
          using current_idx_window [OF wf'] cur d' assms(5) by (simp add: win del: length_window)
        have "log_lookup s' j = (if j < ?cur then log_lookup s j else None)" for j
          using cur cur' d' by (auto simp: log_lookup_wf [OF wf'] log_lookup_wf [OF assms(2)] win
              nth_butlast nat_less_iff simp del: length_window)
        with cur' zero True show ?thesis by simp
      qed (use err lg in simp)
    qed
  qed
  then show ?thesis by (simp add: raft_delete_entry_from_idx_def wp Let_def t_def [symmetric])
qed

section \<open>Chains\<close>

text \<open>
  An entry of a history, named by its term and its index, stands on the entry before it, and so on down
  to the first one: the entries below another one are what a log that ends with that entry holds.
\<close>

inductive below :: "history \<Rightarrow> int \<times> int \<Rightarrow> int \<times> int \<Rightarrow> bool" for H :: history where
  here: "H a \<noteq> None \<Longrightarrow> below H a a"
| before: "H (t, n) = Some (e, p) \<Longrightarrow> below H a (uint p, n - 1) \<Longrightarrow> below H a (t, n)"

inductive_cases belowE: "below H a (t, n)"

text \<open>The entry before one that was appended is in the history too, and terms do not decrease.\<close>

definition grounded :: "history \<Rightarrow> bool" where
  "grounded H \<longleftrightarrow>
     (\<forall>t n e p. H (t, n) = Some (e, p) \<longrightarrow> uint p \<le> t \<and> (p = 0 \<or> H (uint p, n - 1) \<noteq> None))"

lemma below_dom: "below H a b \<Longrightarrow> H a \<noteq> None \<and> H b \<noteq> None"
  by (induction rule: below.induct) auto

lemma below_idx: "below H a b \<Longrightarrow> snd a \<le> snd b"
  by (induction rule: below.induct) auto

lemma below_term: "below H a b \<Longrightarrow> grounded H \<Longrightarrow> fst a \<le> fst b"
proof (induction rule: below.induct)
  case (before t n e p a)
  then have "uint p \<le> t" unfolding grounded_def by blast
  with before show ?case by simp
qed simp

lemma below_trans: "below H b c \<Longrightarrow> below H a b \<Longrightarrow> below H a c"
  by (induction rule: below.induct) (auto intro: below.before)

lemma below_mono: "below H a b \<Longrightarrow> H \<subseteq>\<^sub>m H' \<Longrightarrow> below H' a b"
  by (induction rule: below.induct) (auto intro: below.intros map_leD)

lemma below_linear:
  assumes "below H b c" "below H a c" "snd a \<le> snd b"
  shows "below H a b"
  using assms
proof (induction rule: below.induct)
  case (before t n e p b)
  have "snd b \<le> n - 1" using below_idx [OF before(2)] by simp
  with before.prems(2) have "a \<noteq> (t, n)" by auto
  with before.prems(1) before.hyps(1) have "below H a (uint p, n - 1)"
    by (cases rule: belowE) (auto simp del: prod.inject)
  then show ?case by (rule before.IH) (rule before.prems(2))
qed

lemma below_same: "below H a c \<Longrightarrow> below H b c \<Longrightarrow> snd a = snd b \<Longrightarrow> a = b"
proof -
  assume ac: "below H a c" and bc: "below H b c" and eq: "snd a = snd b"
  have "below H a b" by (rule below_linear [OF bc ac]) (simp add: eq)
  then show "a = b"
  proof cases
    case (before t n e p)
    with below_idx [OF before(3)] eq show ?thesis by simp
  qed simp
qed

text \<open>An older entry of a growing history stands on the same entries as before.\<close>

lemma below_old:
  assumes "below H' a b" "H \<subseteq>\<^sub>m H'" "grounded H" "history_ok H'" "H b \<noteq> None"
  shows "below H a b"
  using assms
proof (induction rule: below.induct)
  case (here a)
  then show ?case by (intro below.here)
next
  case (before t n e p a)
  then have H: "H (t, n) = Some (e, p)" by (metis map_leD not_Some_eq)
  obtain v where "H' (uint p, n - 1) = Some v" using below_dom [OF before.hyps(2)] by auto
  then have "0 < uint p" using before.prems(3) unfolding history_ok_def by (metis surj_pair)
  then have "H (uint p, n - 1) \<noteq> None" using before.prems(2) H unfolding grounded_def by force
  with before H show ?case by (blast intro: below.before)
qed

text \<open>The last entry of a log, and the entries the log stands for, kept in the window or not.\<close>

definition tip :: "'u raft_server \<Rightarrow> (int \<times> int) option" where
  "tip s = map_option (\<lambda>x. (uint (ety_term x), raft_get_current_idx s)) (log_lookup s (raft_get_current_idx s))"

definition holds :: "history \<Rightarrow> int \<times> int \<Rightarrow> (int \<times> int) option \<Rightarrow> bool" where
  "holds H a tp \<longleftrightarrow> (\<exists>b. tp = Some b \<and> below H a b)"

lemma log_of_tip: "log_of s' = log_of s \<Longrightarrow> tip s' = tip s"
  using log_of_window [of s' s] by (simp add: tip_def)

lemma holds_mono: "holds H a tp \<Longrightarrow> H \<subseteq>\<^sub>m H' \<Longrightarrow> holds H' a tp"
  unfolding holds_def by (blast intro: below_mono)

lemma chained_below:
  assumes "chained H L" "L n = Some x" "L k = Some y" "n \<le> k"
    and "\<And>j. n \<le> j \<Longrightarrow> j \<le> k \<Longrightarrow> L j \<noteq> None"
  shows "below H (uint (ety_term x), n) (uint (ety_term y), k)"
  using assms(3-5)
proof (induction "nat (k - n)" arbitrary: k y)
  case 0
  then have "k = n" "y = x" using assms(2) by auto
  obtain p where "H (uint (ety_term x), n) = Some (x, p)" using chainedD [OF assms(1,2)] by blast
  with \<open>k = n\<close> \<open>y = x\<close> show ?case using below.here [of H "(uint (ety_term x), n)"] by simp
next
  case (Suc d)
  obtain z where z: "L (k - 1) = Some z" using Suc.prems(3) [of "k - 1"] Suc.hyps(2) by fastforce
  from Suc.hyps(1) [OF _ z] Suc.hyps(2) Suc.prems(3)
  have "below H (uint (ety_term x), n) (uint (ety_term z), k - 1)" by auto
  with chainedD [OF assms(1) Suc.prems(1)] z show ?case by (metis below.before)
qed

lemma holds_lookup:
  assumes "log_wf s" "chained H (log_lookup s)" "log_lookup s n = Some x"
  shows "holds H (uint (ety_term x), n) (tip s)"
proof -
  have n: "dropped s < n" "n \<le> raft_get_current_idx s" using assms(3) lookup_range [OF assms(1), of n] by auto
  then obtain y where y: "log_lookup s (raft_get_current_idx s) = Some y"
    using lookup_range [OF assms(1), of "raft_get_current_idx s"] by fastforce
  have "below H (uint (ety_term x), n) (uint (ety_term y), raft_get_current_idx s)"
    by (rule chained_below [OF assms(2,3) y]) (use n lookup_range [OF assms(1)] in auto)
  then show ?thesis by (auto simp: holds_def tip_def y)
qed

lemma tip_dom:
  assumes "chained H (log_lookup s)" "tip s = Some y"
  shows "H y \<noteq> None" "snd y = raft_get_current_idx s"
proof -
  obtain e where e: "log_lookup s (raft_get_current_idx s) = Some e" and y: "y = (uint (ety_term e), raft_get_current_idx s)"
    using assms(2) by (auto simp: tip_def)
  from chainedD [OF assms(1) e] show "H y \<noteq> None" unfolding y by blast
  show "snd y = raft_get_current_idx s" by (simp add: y)
qed

lemma holds_at:
  assumes "log_wf s" "chained H (log_lookup s)" "holds H a (tip s)" "dropped s < snd a"
  shows "\<exists>x. log_lookup s (snd a) = Some x \<and> uint (ety_term x) = fst a"
proof -
  obtain b where b: "tip s = Some b" "below H a b" using assms(3) by (auto simp: holds_def)
  then have "snd a \<le> raft_get_current_idx s" using below_idx [OF b(2)] by (auto simp: tip_def)
  then obtain x where x: "log_lookup s (snd a) = Some x"
    using lookup_range [OF assms(1), of "snd a"] assms(4) by auto
  from holds_lookup [OF assms(1,2) x] b have "below H (uint (ety_term x), snd a) b" by (auto simp: holds_def)
  from below_same [OF this b(2)] have "(uint (ety_term x), snd a) = a" by simp
  with x show ?thesis by (metis fst_conv)
qed

section \<open>A follower accepts a message\<close>

text \<open>
  Where the handler does what Raft asks for: a conflict is at the last entry of the log, which is not
  committed, and a message that starts at index 1 carries no entries when the log has given up its
  first entry.
\<close>

definition deliverable :: "'u raft_server \<Rightarrow> msg_appendentries \<Rightarrow> bool" where
  "deliverable s ae \<longleftrightarrow>
     (prev_log_idx ae = 0 \<longrightarrow> dropped s = 0 \<or> entries ae = []) \<and>
     (\<forall>k \<le> length (entries ae). \<forall>y.
        log_lookup s (prev_log_idx ae + int k) = Some y \<and> ety_term y \<noteq> pred_term ae k \<longrightarrow>
        prev_log_idx ae + int k = raft_get_current_idx s \<and> commit_idx s < raft_get_current_idx s)"

lemma deliverableD:
  assumes "deliverable s ae" "k \<le> length (entries ae)" "log_lookup s (prev_log_idx ae + int k) = Some y"
    and "ety_term y \<noteq> pred_term ae k"
  shows "prev_log_idx ae + int k = raft_get_current_idx s" "commit_idx s < raft_get_current_idx s"
  using assms unfolding deliverable_def by blast+

text \<open>The log has, before a position of the message, what that position expects.\<close>

definition joins :: "'u raft_server \<Rightarrow> msg_appendentries \<Rightarrow> nat \<Rightarrow> bool" where
  "joins s ae k \<longleftrightarrow>
     prev_log_idx ae + int k = 0 \<and> dropped s = 0 \<or>
     (\<exists>y. log_lookup s (prev_log_idx ae + int k) = Some y \<and> ety_term y = pred_term ae k)"

lemma joins_range:
  assumes "log_wf s" "joins s ae k" "0 \<le> prev_log_idx ae"
  shows "dropped s \<le> prev_log_idx ae + int k" "prev_log_idx ae + int k \<le> raft_get_current_idx s"
  using assms current_idx_range [OF assms(1)]
  by (auto simp: joins_def log_lookup_wf [OF assms(1)] split: if_splits)

lemma log_of_joins: "log_of s' = log_of s \<Longrightarrow> joins s' ae k = joins s ae k"
  using log_of_window [of s' s] by (simp add: joins_def)

lemma log_of_deliverable:
  "log_of s' = log_of s \<Longrightarrow> commit_idx s' = commit_idx s \<Longrightarrow> deliverable s' ae = deliverable s ae"
  using log_of_window [of s' s] by (simp add: deliverable_def)

text \<open>The log has, at a position of the message, what the message has there.\<close>

definition meets :: "'u raft_server \<Rightarrow> msg_appendentries \<Rightarrow> nat \<Rightarrow> bool" where
  "meets s ae k \<longleftrightarrow>
     prev_log_idx ae + int k = 0 \<or>
     (\<exists>y. log_lookup s (prev_log_idx ae + int k) = Some y \<and> ety_term y = pred_term ae k)"

lemma joins_meets: "joins s ae k \<Longrightarrow> meets s ae k"
  by (auto simp: joins_def meets_def)

lemma log_of_meets: "log_of s' = log_of s \<Longrightarrow> meets s' ae k = meets s ae k"
  using log_of_window [of s' s] by (simp add: meets_def)

text \<open>The entries that a message carries, the one before its first entry included.\<close>

definition carried :: "msg_appendentries \<Rightarrow> (int \<times> int) set" where
  "carried ae =
     {(uint (pred_term ae k), prev_log_idx ae + int k) | k.
        k \<le> length (entries ae) \<and> 0 < prev_log_idx ae + int k \<and> pred_term ae k \<noteq> 0}"

text \<open>
  A set of entries that a log holds and that a message leaves alone: the message carries no other entry
  at their indices, it knows the term of the entry before its first one, and the log has another entry
  to end with when it loses its last one.
\<close>

definition spares :: "msg_appendentries \<Rightarrow> (int \<times> int) set \<Rightarrow> 'u raft_server \<Rightarrow> bool" where
  "spares ae Q s \<longleftrightarrow>
     Q = {} \<or>
     (\<forall>a \<in> Q. \<forall>b \<in> carried ae. snd b = snd a \<longrightarrow> b = a) \<and>
     (0 < prev_log_idx ae \<longrightarrow> pred_term ae 0 \<noteq> 0) \<and>
     (dropped s = 0 \<or> dropped s + 1 < raft_get_current_idx s)"

lemma log_of_spares: "log_of s' = log_of s \<Longrightarrow> spares ae Q s' = spares ae Q s"
  using log_of_window [of s' s] by (simp add: spares_def)

definition follows :: "history \<Rightarrow> 'u raft_cbs \<Rightarrow> (int \<times> int) set \<Rightarrow> 'u raft_server \<Rightarrow> bool" where
  "follows H cbs Q s \<longleftrightarrow>
     log_wf s \<and> chained H (log_lookup s) \<and> me_cb s = cbs \<and> (\<forall>a \<in> Q. holds H a (tip s))"

lemma follows_cong:
  "follows H cbs Q s \<Longrightarrow> log_of s' = log_of s \<Longrightarrow> me_cb s' = me_cb s \<Longrightarrow> follows H cbs Q s'"
  using log_of_window [of s' s] log_of_tip [of s' s] by (simp add: follows_def)

lemma holds_delete:
  assumes "log_wf s" "chained H (log_lookup s)" "history_ok H" "holds H a (tip s)"
    and "snd a \<noteq> raft_get_current_idx s" "dropped s = 0 \<or> dropped s + 1 < raft_get_current_idx s"
    and "raft_get_current_idx s' = raft_get_current_idx s - 1"
    and "log_lookup s' (raft_get_current_idx s - 1) = log_lookup s (raft_get_current_idx s - 1)"
  shows "holds H a (tip s')"
proof -
  let ?cur = "raft_get_current_idx s"
  obtain y where y: "log_lookup s ?cur = Some y" "below H a (uint (ety_term y), ?cur)"
    using assms(4) by (auto simp: holds_def tip_def)
  obtain p where p: "H (uint (ety_term y), ?cur) = Some (y, p)"
    "\<And>z. log_lookup s (?cur - 1) = Some z \<Longrightarrow> ety_term z = p"
    using chainedD [OF assms(2) y(1)] by metis
  have low: "below H a (uint p, ?cur - 1)"
    using y(2) p(1) assms(5) by (cases rule: belowE) (auto simp del: prod.inject)
  have "0 < snd a" using below_dom [OF low] assms(3) unfolding history_ok_def
    by (metis not_Some_eq prod.collapse)
  then have "dropped s < ?cur - 1" using assms(6) below_idx [OF low] by auto
  then obtain z where z: "log_lookup s (?cur - 1) = Some z"
    using lookup_range [OF assms(1), of "?cur - 1"] by auto
  with low p(2) assms(7,8) show ?thesis by (simp add: holds_def tip_def)
qed

lemma holds_append:
  assumes "log_wf s" "appended s e s'" "holds H a (tip s)"
    and "H (uint (ety_term e), raft_get_current_idx s + 1) = Some (e, p)"
    and "\<And>y. log_lookup s (raft_get_current_idx s) = Some y \<Longrightarrow> ety_term y = p"
  shows "holds H a (tip s')"
proof -
  obtain y where y: "log_lookup s (raft_get_current_idx s) = Some y"
    "below H a (uint (ety_term y), raft_get_current_idx s)"
    using assms(3) by (auto simp: holds_def tip_def)
  with assms(4,5) have "below H a (uint (ety_term e), raft_get_current_idx s + 1)"
    by (auto intro: below.before)
  moreover have "raft_get_current_idx s' = raft_get_current_idx s + 1" using assms(2) by (simp add: appended_def)
  ultimately show ?thesis using appended_lookup(1) [OF assms(1,2)] by (simp add: holds_def tip_def)
qed

lemma delete_follows:
  assumes "contiki_ok ct" "history_ok H" "follows H cbs Q s" "raft_get_current_idx s \<le> i" "in_int i"
    and "dropped s < raft_get_current_idx s"
    and "Q = {} \<or> (\<forall>a \<in> Q. snd a \<noteq> raft_get_current_idx s) \<and>
      (dropped s = 0 \<or> dropped s + 1 < raft_get_current_idx s)"
  shows "post (raft_delete_entry_from_idx ct s i) (\<lambda>(c, s').
    follows H cbs Q s' \<and> dropped s' = dropped s \<and>
    (if i = raft_get_current_idx s \<and> c = 0 then raft_get_current_idx s' = raft_get_current_idx s - 1 \<and>
      (\<forall>j < raft_get_current_idx s. log_lookup s' j = log_lookup s j) else log_of s' = log_of s))"
proof -
  have wf: "log_wf s" and ch: "chained H (log_lookup s)" and cb: "me_cb s = cbs"
    and Q: "\<forall>a \<in> Q. holds H a (tip s)"
    using assms(3) by (simp_all add: follows_def)
  show ?thesis
  proof (rule post_mono [OF post_conj [OF delete_last_lookup [OF assms(1) wf assms(4-6)]
          raft_delete_entry_frame]], clarify)
    fix c s'
    assume s': "log_wf s'" "dropped s' = dropped s" "if i = raft_get_current_idx s \<and> c = 0
        then raft_get_current_idx s' = raft_get_current_idx s - 1 \<and>
          (\<forall>j. log_lookup s' j = (if j < raft_get_current_idx s then log_lookup s j else None))
        else log_of s' = log_of s" and "append_step s s'"
    then have "me_cb s' = cbs" using cb by (simp add: append_step_def config_of_def)
    moreover have "log_lookup s j = Some x" if "log_lookup s' j = Some x" for j x
      using that s'(3) log_of_window [of s' s]
      by (cases "i = raft_get_current_idx s \<and> c = 0") (auto split: if_splits)
    from chained_mono [OF ch this map_le_refl] have "chained H (log_lookup s')" .
    moreover have "holds H a (tip s')" if "a \<in> Q" for a
    proof (cases "i = raft_get_current_idx s \<and> c = 0")
      case True
      then have del: "raft_get_current_idx s' = raft_get_current_idx s - 1"
        "log_lookup s' (raft_get_current_idx s - 1) = log_lookup s (raft_get_current_idx s - 1)"
        using s'(3) by auto
      have "snd a \<noteq> raft_get_current_idx s" "dropped s = 0 \<or> dropped s + 1 < raft_get_current_idx s"
        using that assms(7) by blast+
      with that Q del show ?thesis by (blast intro: holds_delete [OF wf ch assms(2)])
    next
      case False
      with that Q s'(3) log_of_tip [of s' s] show ?thesis by auto
    qed
    ultimately show "follows H cbs Q s' \<and> dropped s' = dropped s \<and>
      (if i = raft_get_current_idx s \<and> c = 0 then raft_get_current_idx s' = raft_get_current_idx s - 1 \<and>
        (\<forall>j < raft_get_current_idx s. log_lookup s' j = log_lookup s j) else log_of s' = log_of s)"
      using s' by (simp add: follows_def)
  qed
qed

text \<open>A conflict at the last index is not at an entry that the message spares.\<close>

lemma conflict_spared:
  assumes "follows H cbs Q s" "spares ae Q s" "k \<le> length (entries ae)" "history_ok H" "message_ok H ae"
    and "log_lookup s (prev_log_idx ae + int k) = Some y" "ety_term y \<noteq> pred_term ae k"
    and "prev_log_idx ae + int k = raft_get_current_idx s" "0 < raft_get_current_idx s"
  shows "Q = {} \<or> (\<forall>a \<in> Q. snd a \<noteq> raft_get_current_idx s) \<and>
    (dropped s = 0 \<or> dropped s + 1 < raft_get_current_idx s)"
proof (cases "Q = {}")
  case False
  then have sp: "\<forall>a \<in> Q. \<forall>b \<in> carried ae. snd b = snd a \<longrightarrow> b = a"
    "0 < prev_log_idx ae \<longrightarrow> pred_term ae 0 \<noteq> 0" "dropped s = 0 \<or> dropped s + 1 < raft_get_current_idx s"
    using assms(2) by (auto simp: spares_def)
  have "pred_term ae k \<noteq> 0"
  proof (cases k)
    case 0
    with sp(2) assms(8,9) show ?thesis by simp
  next
    case (Suc m)
    then obtain p where "H (uint (ety_term (entries ae ! m)), prev_log_idx ae + 1 + int m) = Some (entries ae ! m, p)"
      using assms(3,5) unfolding message_ok_def by (metis Suc_le_lessD)
    then have "0 < uint (ety_term (entries ae ! m))" using assms(4) unfolding history_ok_def by blast
    with Suc show ?thesis by (auto simp: pred_term_def)
  qed
  then have car: "(uint (pred_term ae k), raft_get_current_idx s) \<in> carried ae"
    using assms(3,8,9) unfolding carried_def by (metis (mono_tags, lifting) mem_Collect_eq)
  have "snd a \<noteq> raft_get_current_idx s" if "a \<in> Q" for a
  proof
    assume eq: "snd a = raft_get_current_idx s"
    have "holds H a (tip s)" using assms(1) that by (simp add: follows_def)
    then obtain b where b: "tip s = Some b" "below H a b" by (auto simp: holds_def)
    then have "b = (uint (ety_term y), raft_get_current_idx s)" using assms(6,8) by (auto simp: tip_def)
    then have "a = (uint (ety_term y), raft_get_current_idx s)"
      using below_same [OF b(2) below.here] below_dom [OF b(2)] eq by simp
    moreover have "a = (uint (pred_term ae k), raft_get_current_idx s)" using sp(1) that car eq by force
    ultimately show False using assms(7) by (simp add: word_uint_eq_iff)
  qed
  with sp(3) show ?thesis by blast
qed simp

text \<open>The deletion of a conflicting entry, which is the last of the log.\<close>

lemma scan_delete_follows:
  assumes ct: "contiki_ok ct" and H: "history_ok H" "message_ok H ae"
    and s: "follows H cbs Q s" "deliverable s ae" "spares ae Q s"
    and k: "k < length (entries ae)" "joins s ae k"
    and look': "log_lookup s (prev_log_idx ae + int (Suc k)) = Some x" "ety_term x \<noteq> pred_term ae (Suc k)"
  shows "commit_idx s < prev_log_idx ae + 1 + int k"
    and "post (raft_delete_entry_from_idx ct s (prev_log_idx ae + 1 + int k)) (\<lambda>(e, s'). follows H cbs Q s' \<and>
      joins s' ae k \<and> commit_idx s' = commit_idx s \<and> current_term s' = current_term s \<and>
      (e = 0 \<longrightarrow> raft_get_current_idx s' = prev_log_idx ae + int k))"
proof -
  let ?i = "prev_log_idx ae + 1 + int k"
  have ae: "0 \<le> prev_log_idx ae" using H(2) by (simp add: message_ok_def)
  have wf: "log_wf s" using s(1) by (simp add: follows_def)
  have last: "?i = raft_get_current_idx s" "commit_idx s < ?i"
    using deliverableD [OF s(2) _ look'] k(1) by simp_all
  show "commit_idx s < ?i" by (rule last(2))
  have int: "in_int ?i" using last(1) current_idx_range(2) [OF wf] by simp
  have lt: "dropped s < raft_get_current_idx s" using lookup_range [OF wf, of "prev_log_idx ae + int (Suc k)"] look'(1) last(1) by simp
  have "Q = {} \<or> (\<forall>a \<in> Q. snd a \<noteq> raft_get_current_idx s) \<and>
      (dropped s = 0 \<or> dropped s + 1 < raft_get_current_idx s)"
    using k(1) last(1) ae by (intro conflict_spared [OF s(1,3) _ H look']) auto
  from post_conj [OF delete_follows [OF ct H(1) s(1) eq_refl [OF last(1) [symmetric]] int lt this]
      raft_delete_entry_frame]
  show "post (raft_delete_entry_from_idx ct s ?i) (\<lambda>(e, s'). follows H cbs Q s' \<and>
      joins s' ae k \<and> commit_idx s' = commit_idx s \<and> current_term s' = current_term s \<and>
      (e = 0 \<longrightarrow> raft_get_current_idx s' = prev_log_idx ae + int k))"
  proof (rule post_mono, clarify, intro conjI impI)
    fix e s'
    assume s': "if ?i = raft_get_current_idx s \<and> e = 0 then raft_get_current_idx s' = raft_get_current_idx s - 1 \<and>
        (\<forall>j < raft_get_current_idx s. log_lookup s' j = log_lookup s j) else log_of s' = log_of s"
      "dropped s' = dropped s" "append_step s s'"
    then show "commit_idx s' = commit_idx s" "current_term s' = current_term s"
      by (simp_all add: append_step_def views)
    show "joins s' ae k"
    proof (cases "e = 0")
      case True
      with s' last(1) k(2) show ?thesis by (simp add: joins_def)
    next
      case False
      with s'(1) k(2) log_of_joins [of s' s] show ?thesis by simp
    qed
    show "raft_get_current_idx s' = prev_log_idx ae + int k" if "e = 0" using s'(1) last(1) that by simp
  qed
qed

lemma ae_scan_follows:
  assumes ct: "contiki_ok ct" and H: "history_ok H" "message_ok H ae"
    and s: "follows H cbs Q s" "deliverable s ae" "spares ae Q s"
    and k: "k \<le> length (entries ae)" "joins s ae k"
  shows "post (ae_scan ct ae (int k) (drop k (entries ae)) (prev_log_idx ae + int k) s) (\<lambda>(r, cur', s').
    follows H cbs Q s' \<and> commit_idx s' = commit_idx s \<and> current_term s' = current_term s \<and>
    (\<exists>m \<le> length (entries ae). cur' = prev_log_idx ae + int m \<and> joins s' ae m \<and>
       (\<forall>j rest. r = Go_On j rest \<longrightarrow> j = int m \<and> rest = drop m (entries ae) \<and>
          (m < length (entries ae) \<longrightarrow> raft_get_current_idx s' = prev_log_idx ae + int m))))"
  (is "post _ ?P")
  using k
proof (induction "length (entries ae) - k" arbitrary: k)
  case 0
  then have "k = length (entries ae)" by simp
  with 0 s(1) H(2) show ?case by (subst ae_scan.simps) (auto simp: wp message_ok_def)
next
  case (Suc d)
  let ?i = "prev_log_idx ae + 1 + int k"
  have ae: "n_entries ae = int (length (entries ae))" "0 \<le> prev_log_idx ae"
    using H(2) by (simp_all add: message_ok_def)
  have wf: "log_wf s" using s(1) by (simp add: follows_def)
  have k: "k < length (entries ae)" using Suc.hyps(2) by simp
  then have drop: "drop k (entries ae) = entries ae ! k # drop (Suc k) (entries ae)"
    by (simp add: Cons_nth_drop_Suc)
  note low = joins_range [OF wf Suc.prems(2) ae(2)]
  show ?case
  proof (cases "raft_get_entry_from_idx s ?i")
    case None
    then have "raft_get_current_idx s = prev_log_idx ae + int k"
      using low by (simp add: raft_get_entry_from_idx_def log_get_at_idx_wf [OF wf] split: if_splits)
    with None k s(1) Suc.prems show ?thesis
      by (subst ae_scan.simps) (auto simp: wp ae(1) intro!: exI [of _ k])
  next
    case (Some a)
    then have look: "log_lookup s ?i = Some (entries_mem s a)"
      by (simp add: raft_get_entry_from_idx_def log_lookup_def)
    then have i: "dropped s < ?i" "?i \<le> raft_get_current_idx s" using lookup_range [OF wf, of ?i] by auto
    show ?thesis
    proof (cases "ety_term (entries_mem s a) = ety_term (entries ae ! k)")
      case True
      then have "joins s ae (Suc k)" using look by (auto simp: joins_def pred_term_def add.commute add.left_commute)
      then have "post (ae_scan ct ae (int (Suc k)) (drop (Suc k) (entries ae)) (prev_log_idx ae + int (Suc k)) s) ?P"
        using Suc.hyps k by (intro Suc.hyps(1)) auto
      then show ?thesis
        using True Some k next_chain [of k "entries ae"]
        by (subst ae_scan.simps) (simp add: wp ae(1) drop add.commute add.left_commute)
    next
      case False
      have look': "log_lookup s (prev_log_idx ae + int (Suc k)) = Some (entries_mem s a)"
        "ety_term (entries_mem s a) \<noteq> pred_term ae (Suc k)"
        using look False by (simp_all add: pred_term_def add.commute add.left_commute)
      note del = scan_delete_follows [OF ct H s k Suc.prems(2) look']
      with Some k False show ?thesis
        using del by (subst ae_scan.simps) (auto simp: wp ae(1) drop elim!: post_mono intro!: exI [of _ k])
    qed
  qed
qed

text \<open>With an offer callback that reports success an append succeeds or faults.\<close>

lemma append_succeeds:
  assumes "contiki_ok ct" "log_wf s" "offer_ok (me_cb s)" "\<not> raft_entry_is_cfg_change e"
  shows "post (raft_append_entry ct s e) (\<lambda>(c, e', s'). c = 0)"
proof (cases "raft_get_current_idx s < INT_MAX")
  case True
  from raft_append_entry_runs [OF assms True] show ?thesis by (rule runs_imp_post)
next
  case False
  then have "\<not> in_int (base (me_log s) + count (me_log s) + 1)"
    using current_idx_range [OF assms(2)] by (simp add: in_int_iff INT_MAX_def)
  then show ?thesis by (auto simp: raft_append_entry_plain [OF assms(4)] log_append_entry_def wp)
qed

lemma appended_chained:
  assumes "log_wf s" "chained H (log_lookup s)" "appended s e s'"
    and "H (uint (ety_term e), raft_get_current_idx s + 1) = Some (e, p)"
    and "raft_get_current_idx s = 0 \<Longrightarrow> p = 0"
    and "\<And>y. log_lookup s (raft_get_current_idx s) = Some y \<Longrightarrow> ety_term y = p"
  shows "chained H (log_lookup s')"
proof -
  have none: "log_lookup s i = None" if "raft_get_current_idx s + 1 \<le> i" for i
    using that lookup_range [OF assms(1), of i] by auto
  show ?thesis
    by (rule chained_append [OF assms(2) none assms(4)])
       (use assms(5,6) appended_lookup [OF assms(1,3)] in auto)
qed

lemma append_follows:
  assumes "contiki_ok ct" "follows H cbs Q s" "offer_ok cbs" "\<not> raft_entry_is_cfg_change x"
    and "e = x\<lparr>ety_idx := to_unsigned (raft_get_current_idx s + 1)\<rparr>"
    and "H (uint (ety_term e), raft_get_current_idx s + 1) = Some (e, p)"
    and "raft_get_current_idx s = 0 \<Longrightarrow> p = 0"
    and "\<And>y. log_lookup s (raft_get_current_idx s) = Some y \<Longrightarrow> ety_term y = p"
  shows "post (raft_append_entry ct s x) (\<lambda>(c, e', s'). c = 0 \<and> follows H cbs Q s' \<and>
    raft_get_current_idx s' = raft_get_current_idx s + 1 \<and>
    log_lookup s' (raft_get_current_idx s + 1) = Some e \<and>
    commit_idx s' = commit_idx s \<and> current_term s' = current_term s)"
proof -
  have s: "log_wf s" "chained H (log_lookup s)" "me_cb s = cbs" using assms(2) by (simp_all add: follows_def)
  then have "offer_ok (me_cb s)" using assms(3) by simp
  note ok = append_succeeds [OF assms(1) s(1) this assms(4)]
  have res: "follows H cbs Q s' \<and> raft_get_current_idx s' = raft_get_current_idx s + 1 \<and>
      log_lookup s' (raft_get_current_idx s + 1) = Some e \<and>
      commit_idx s' = commit_idx s \<and> current_term s' = current_term s"
    if app: "appended s e s'" and st: "append_step s s'" for s'
  proof -
    have "chained H (log_lookup s')" by (rule appended_chained [OF s(1,2) app assms(6-8)])
    moreover have "holds H a (tip s')" if "a \<in> Q" for a
      by (rule holds_append [OF s(1) app]) (use assms(2,6,8) that in \<open>auto simp: follows_def\<close>)
    ultimately show ?thesis
      using app st s(3) appended_lookup(1) [OF s(1) app]
      by (simp add: follows_def appended_def append_step_def views)
  qed
  show ?thesis
    by (rule post_mono [OF post_conj [OF ok post_conj [OF raft_append_entry_post [OF assms(1) s(1)]
          raft_append_entry_frame]]]) (use res assms(5) in auto)
qed

text \<open>What the second loop appends next continues the log.\<close>

lemma next_entry:
  assumes "history_ok H" "message_ok H ae" "k < length (entries ae)" "chained H (log_lookup s)" "log_wf s"
    and "joins s ae k" "raft_get_current_idx s = prev_log_idx ae + int k"
  obtains p where "H (uint (ety_term (entries ae ! k)), raft_get_current_idx s + 1) = Some (entries ae ! k, p)"
    "raft_get_current_idx s = 0 \<Longrightarrow> p = 0"
    "\<And>y. log_lookup s (raft_get_current_idx s) = Some y \<Longrightarrow> ety_term y = p"
    "entries ae ! k = (entries ae ! k)\<lparr>ety_idx := to_unsigned (raft_get_current_idx s + 1)\<rparr>"
proof -
  let ?x = "entries ae ! k" and ?cur = "raft_get_current_idx s"
  have prev: "0 \<le> prev_log_idx ae" using assms(2) by (simp add: message_ok_def)
  obtain p where p: "H (uint (ety_term ?x), prev_log_idx ae + 1 + int k) = Some (?x, p)"
    "if prev_log_idx ae = 0 \<and> k = 0 then p = 0 else p = pred_term ae k \<or> k = 0 \<and> pred_term ae k = 0"
    using assms(2,3) unfolding message_ok_def by blast
  have at: "prev_log_idx ae + 1 + int k = ?cur + 1" using assms(7) by simp
  have "ety_idx ?x = to_unsigned (?cur + 1)" using assms(1) p(1) unfolding at history_ok_def by blast
  then have "?x = ?x\<lparr>ety_idx := to_unsigned (?cur + 1)\<rparr>" by simp
  moreover have "ety_term y = p" if look: "log_lookup s ?cur = Some y" for y
  proof -
    have "0 < ?cur" using look lookup_range [OF assms(5)] current_idx_range [OF assms(5)] by force
    with assms(6,7) look have y: "ety_term y = pred_term ae k" by (auto simp: joins_def)
    obtain q where "H (uint (ety_term y), ?cur) = Some (y, q)" using chainedD [OF assms(4) look] by blast
    then have "0 < uint (ety_term y)" using assms(1) unfolding history_ok_def by blast
    with y p(2) \<open>0 < ?cur\<close> assms(7) show ?thesis by (auto split: if_splits)
  qed
  moreover have "p = 0" if "?cur = 0" using that p(2) assms(7) prev by (simp split: if_splits)
  ultimately show thesis using that p(1) at by metis
qed

lemma ae_append_follows:
  assumes ct: "contiki_ok ct" and H: "history_ok H" "message_ok H ae" and cbs: "offer_ok cbs"
    and plain: "\<forall>e \<in> set (entries ae). \<not> raft_entry_is_cfg_change e"
    and k: "k \<le> length (entries ae)" and s: "follows H cbs Q s" "joins s ae k"
    and at: "k < length (entries ae) \<longrightarrow> raft_get_current_idx s = prev_log_idx ae + int k"
  shows "post (ae_append ct ae (int k) (drop k (entries ae)) (prev_log_idx ae + int k) s) (\<lambda>(r, cur', s').
    follows H cbs Q s' \<and> commit_idx s' = commit_idx s \<and> current_term s' = current_term s \<and>
    (\<exists>m \<le> length (entries ae). cur' = prev_log_idx ae + int m \<and> joins s' ae m \<and>
       (\<forall>j rest. r = Go_On j rest \<longrightarrow> m = length (entries ae))))"
  (is "post _ (?P s)")
  using k s at
proof (induction "length (entries ae) - k" arbitrary: k s)
  case 0
  then have "k = length (entries ae)" by simp
  with 0 H(2) show ?case by (subst ae_append.simps) (auto simp: wp message_ok_def)
next
  case (Suc d)
  let ?x = "entries ae ! k"
  have k: "k < length (entries ae)" using Suc.hyps(2) by simp
  then have drop: "drop k (entries ae) = ?x # drop (Suc k) (entries ae)"
    by (simp add: Cons_nth_drop_Suc)
  have n: "n_entries ae = int (length (entries ae))" "0 \<le> prev_log_idx ae"
    using H(2) by (simp_all add: message_ok_def)
  have cur: "raft_get_current_idx s = prev_log_idx ae + int k" using Suc.prems(4) k by simp
  have wf: "log_wf s" and chd: "chained H (log_lookup s)" using Suc.prems(2) by (simp_all add: follows_def)
  obtain p where p: "H (uint (ety_term ?x), raft_get_current_idx s + 1) = Some (?x, p)"
    "raft_get_current_idx s = 0 \<Longrightarrow> p = 0"
    "\<And>y. log_lookup s (raft_get_current_idx s) = Some y \<Longrightarrow> ety_term y = p"
    "?x = ?x\<lparr>ety_idx := to_unsigned (raft_get_current_idx s + 1)\<rparr>"
    by (rule next_entry [OF H k chd wf Suc.prems(3) cur]) (blast intro: that)
  have "\<not> raft_entry_is_cfg_change ?x" using plain k by simp
  from append_follows [OF ct Suc.prems(2) cbs this p(4) p(1-3)]
  have app: "post (raft_append_entry ct s ?x) (\<lambda>(c, e', s'). c = 0 \<and> follows H cbs Q s' \<and>
      raft_get_current_idx s' = prev_log_idx ae + int (Suc k) \<and> joins s' ae (Suc k) \<and>
      commit_idx s' = commit_idx s \<and> current_term s' = current_term s)"
    by (rule post_mono) (auto simp: cur joins_def pred_term_def add.commute add.left_commute)
  have IH: "post (ae_append ct ae (int (Suc k)) (drop (Suc k) (entries ae)) (prev_log_idx ae + int (Suc k)) s') (?P s)"
    if "follows H cbs Q s'" "raft_get_current_idx s' = prev_log_idx ae + int (Suc k)" "joins s' ae (Suc k)"
      "commit_idx s' = commit_idx s" "current_term s' = current_term s" for s'
    unfolding that(4,5) [symmetric] using that(1-3) Suc.hyps k by (intro Suc.hyps(1)) auto
  show ?case
    using k next_chain [of k "entries ae"] IH
    by (subst ae_append.simps)
       (auto simp: wp n(1) drop add.commute add.left_commute intro!: post_mono [OF app])
qed

text \<open>
  What a reply and the commit index say about the log: a reply of success names an index at which the
  log meets the message, and the commit index moves only when the log meets the end of the message.
\<close>

definition took :: "msg_appendentries \<Rightarrow> int \<Rightarrow> msg_appendentries_response \<Rightarrow> 'u raft_server \<Rightarrow> bool" where
  "took ae ci r s' \<longleftrightarrow>
     (success r \<noteq> 0 \<longrightarrow> aer_term r = current_term s' \<and>
        (\<exists>m \<le> length (entries ae). aer_current_idx r = prev_log_idx ae + int m \<and> meets s' ae m)) \<and>
     (commit_idx s' \<noteq> ci \<longrightarrow> commit_idx s' \<le> leader_commit ae \<and> meets s' ae (length (entries ae)))"

lemma ae_out_took:
  assumes "follows H cbs Q t" "commit_idx t \<noteq> ci \<longrightarrow> commit_idx t \<le> leader_commit ae \<and> meets t ae (length (entries ae))"
    and "c \<noteq> 0 \<longrightarrow> (\<exists>m \<le> length (entries ae). k = prev_log_idx ae + int m \<and> meets t ae m)"
  shows "post (ae_out t ae e c k) (\<lambda>(e, r, s'). follows H cbs Q s' \<and> took ae ci r s')"
  using assms by (auto simp: ae_out_def wp took_def)

lemma ae_commit_took:
  assumes "follows H cbs Q t" "meets t ae (length (entries ae))"
  shows "post (ae_commit t ae) (\<lambda>u. follows H cbs Q u \<and> log_of u = log_of t \<and> current_term u = current_term t \<and>
    (commit_idx u \<noteq> commit_idx t \<longrightarrow> commit_idx u \<le> leader_commit ae))"
proof -
  have "follows H cbs Q (t\<lparr>commit_idx := c\<rparr>) \<and> log_of (t\<lparr>commit_idx := c\<rparr>) = log_of t" for c
    using follows_cong [OF assms(1), of "t\<lparr>commit_idx := c\<rparr>"] by (simp add: views)
  with assms(1) show ?thesis
    by (auto simp: ae_commit_def wp Let_def intro!: post_mono [OF raft_set_commit_idx_frame])
qed

text \<open>What follows the two loops: the commit index, and the reply.\<close>

lemma ae_finish_follows:
  assumes u: "follows H cbs Q u" "k \<le> length (entries ae)" "meets u ae k"
    and r: "\<forall>j rest. r = Go_On j rest \<longrightarrow> k = length (entries ae)"
  shows "post (case r of Goto_Out e \<Rightarrow> ae_out u ae e 1 (prev_log_idx ae + int k)
      | Go_On _ _ \<Rightarrow> bind (ae_commit u ae) (\<lambda>s. ae_out s ae 0 1 (prev_log_idx ae + int k)))
    (\<lambda>(e, r, s'). follows H cbs Q s' \<and> took ae (commit_idx u) r s')"
proof (cases r)
  case (Goto_Out e)
  have "post (ae_out u ae e 1 (prev_log_idx ae + int k)) (\<lambda>(e, r, s'). follows H cbs Q s' \<and> took ae (commit_idx u) r s')"
    by (rule ae_out_took [OF u(1)]) (use u(2,3) in auto)
  with Goto_Out show ?thesis by simp
next
  case (Go_On j rest)
  then have k: "k = length (entries ae)" using r by blast
  have "post (ae_commit u ae) (\<lambda>v. post (ae_out v ae 0 1 (prev_log_idx ae + int (length (entries ae))))
      (\<lambda>(e, r, s'). follows H cbs Q s' \<and> took ae (commit_idx u) r s'))"
    by (rule post_mono [OF ae_commit_took [OF u(1) u(3) [unfolded k]]], rule ae_out_took)
       (use u(3) k log_of_meets in auto)
  with Go_On k show ?thesis by (simp add: wp)
qed

lemma ae_entries_follows:
  assumes ct: "contiki_ok ct" and H: "history_ok H" "message_ok H ae" and cbs: "offer_ok cbs"
    and plain: "\<forall>e \<in> set (entries ae). \<not> raft_entry_is_cfg_change e"
    and s: "follows H cbs Q s" "deliverable s ae" "spares ae Q s"
    and start: "joins s ae 0 \<or> prev_log_idx ae = 0 \<and> entries ae = []"
  shows "post (ae_entries ct s ae) (\<lambda>(e, r, s'). follows H cbs Q s' \<and> took ae (commit_idx s) r s')"
    (is "post _ ?P")
proof (cases "prev_log_idx ae = 0 \<and> entries ae = []")
  case True
  then have "ae_scan ct ae 0 (entries ae) k s = Ok (Go_On 0 [], k, s)"
    "ae_append ct ae 0 [] k s = Ok (Go_On 0 [], k, s)" for k
    using H(2) by (subst ae_scan.simps ae_append.simps; simp add: message_ok_def)+
  with ae_finish_follows [OF s(1), of 0 ae "Go_On 0 []"] True show ?thesis
    by (simp add: ae_entries_def wp meets_def)
next
  case False
  then have "joins s ae 0" using start by blast
  note scan = ae_scan_follows [OF ct H s _ this, simplified]
  show ?thesis
    unfolding ae_entries_def post_bind
  proof (rule post_mono [OF scan], clarify)
    fix r t m
    assume t: "follows H cbs Q t" "commit_idx t = commit_idx s" "m \<le> length (entries ae)" "joins t ae m"
      "\<forall>j rest. r = Go_On j rest \<longrightarrow> j = int m \<and> rest = drop m (entries ae) \<and>
        (m < length (entries ae) \<longrightarrow> raft_get_current_idx t = prev_log_idx ae + int m)"
    show "post (case r of Goto_Out e \<Rightarrow> ae_out t ae e 1 (prev_log_idx ae + int m)
        | Go_On i ety \<Rightarrow> bind (ae_append ct ae i ety (prev_log_idx ae + int m) t) (\<lambda>(r, cur, s).
            case r of Goto_Out e \<Rightarrow> ae_out s ae e 1 cur
            | Go_On _ _ \<Rightarrow> bind (ae_commit s ae) (\<lambda>s. ae_out s ae 0 1 cur))) ?P"
    proof (cases r)
      case (Goto_Out e)
      with ae_finish_follows [OF t(1,3) joins_meets [OF t(4)], of r] t(2) show ?thesis by simp
    next
      case (Go_On j rest)
      then have go: "j = int m" "rest = drop m (entries ae)"
        "m < length (entries ae) \<longrightarrow> raft_get_current_idx t = prev_log_idx ae + int m" using t(5) by auto
      have "post (ae_append ct ae (int m) (drop m (entries ae)) (prev_log_idx ae + int m) t) (\<lambda>(r, cur, u).
          post (case r of Goto_Out e \<Rightarrow> ae_out u ae e 1 cur
                | Go_On _ _ \<Rightarrow> bind (ae_commit u ae) (\<lambda>s. ae_out s ae 0 1 cur)) ?P)"
      proof (rule post_mono [OF ae_append_follows [OF ct H cbs plain t(3,1,4) go(3)]], clarify)
        fix r u k
        assume u: "follows H cbs Q u" "commit_idx u = commit_idx t" "k \<le> length (entries ae)" "joins u ae k"
          "\<forall>j rest. r = Go_On j rest \<longrightarrow> k = length (entries ae)"
        from ae_finish_follows [OF u(1,3) joins_meets [OF u(4)] u(5)]
        show "post (case r of Goto_Out e \<Rightarrow> ae_out u ae e 1 (prev_log_idx ae + int k)
            | Go_On _ _ \<Rightarrow> bind (ae_commit u ae) (\<lambda>s. ae_out s ae 0 1 (prev_log_idx ae + int k))) ?P"
          by (simp add: u(2) t(2))
      qed
      then show ?thesis by (simp add: Go_On go(1,2) post_bind case_prod_beta')
    qed
  qed
qed

lemma ae_check_follows:
  assumes ct: "contiki_ok ct" and H: "history_ok H" "message_ok H ae" and cbs: "offer_ok cbs"
    and plain: "\<forall>e \<in> set (entries ae). \<not> raft_entry_is_cfg_change e"
    and s: "follows H cbs Q s" "deliverable s ae" "spares ae Q s"
  shows "post (ae_check ct s node ae) (\<lambda>(e, r, s'). follows H cbs Q s' \<and> took ae (commit_idx s) r s')"
proof -
  let ?s = "s\<lparr>current_leader := node, timeout_elapsed := 0\<rparr>"
  have lg: "log_of ?s = log_of s" by (simp add: views)
  have t: "follows H cbs Q ?s" "deliverable ?s ae" "spares ae Q ?s"
    using follows_cong [OF s(1) lg] log_of_deliverable [OF lg] log_of_spares [OF lg] s(2,3) by simp_all
  have wf: "log_wf ?s" using t(1) by (simp add: follows_def)
  have prev: "0 \<le> prev_log_idx ae" using H(2) by (simp add: message_ok_def)
  have entries: "post (ae_entries ct ?s ae) (\<lambda>(e, r, s'). follows H cbs Q s' \<and> took ae (commit_idx s) r s')"
    if "joins ?s ae 0 \<or> prev_log_idx ae = 0 \<and> entries ae = []"
    using ae_entries_follows [OF ct H cbs plain t that] by simp
  show ?thesis
  proof (cases "0 < prev_log_idx ae")
    case False
    then have "joins ?s ae 0 \<or> prev_log_idx ae = 0 \<and> entries ae = []"
      using prev t(2) by (auto simp: deliverable_def joins_def)
    from entries [OF this] False show ?thesis by (simp add: ae_check_def Let_def)
  next
    case True
    show ?thesis
    proof (cases "raft_get_entry_from_idx ?s (prev_log_idx ae)")
      case None
      have "post (ae_out ?s ae 0 0 0) (\<lambda>(e, r, s'). follows H cbs Q s' \<and> took ae (commit_idx s) r s')"
        by (rule ae_out_took [OF t(1)]) simp_all
      with True None show ?thesis by (simp add: ae_check_def Let_def)
    next
      case (Some a)
      then have look: "log_lookup ?s (prev_log_idx ae) = Some (entries_mem ?s a)"
        by (simp add: raft_get_entry_from_idx_def log_lookup_def)
      show ?thesis
      proof (cases "ety_term (entries_mem ?s a) = to_unsigned (prev_log_term ae)")
        case eq: True
        then have "joins ?s ae 0" using look by (auto simp: joins_def pred_term_def)
        with entries True Some eq show ?thesis by (simp add: ae_check_def Let_def)
      next
        case neq: False
        have look': "log_lookup ?s (prev_log_idx ae + int 0) = Some (entries_mem ?s a)"
          "ety_term (entries_mem ?s a) \<noteq> pred_term ae 0"
          using look neq by (simp_all add: pred_term_def)
        have last: "prev_log_idx ae = raft_get_current_idx ?s"
          using deliverableD(1) [OF t(2) _ look'] by simp
        have lt: "dropped ?s < raft_get_current_idx ?s" using lookup_range [OF wf] look last by force
        have sp: "Q = {} \<or> (\<forall>a \<in> Q. snd a \<noteq> raft_get_current_idx ?s) \<and>
            (dropped ?s = 0 \<or> dropped ?s + 1 < raft_get_current_idx ?s)"
          using last True by (intro conflict_spared [OF t(1,3) _ H look']) auto
        have "post (raft_delete_entry_from_idx ct ?s (max (prev_log_idx ae) lc)) (\<lambda>(e, u).
            post (ae_out u ae e 0 0) (\<lambda>(e, r, s'). follows H cbs Q s' \<and> took ae (commit_idx s) r s'))"
          if "in_int lc" for lc
        proof (rule post_mono [OF post_conj [OF delete_follows [OF ct H(1) t(1) _ _ lt sp] raft_delete_entry_frame]])
          show "in_int (max (prev_log_idx ae) lc)"
            using that last current_idx_range(2) [OF wf] by (simp add: max_def)
        qed (use last in \<open>auto simp: append_step_def progress_of_def intro!: ae_out_took\<close>)
        with True Some neq show ?thesis by (simp add: ae_check_def Let_def wp case_prod_beta')
      qed
    qed
  qed
qed

text \<open>
  The handler as a whole: a follower whose log is part of a history keeps such a log when it handles a
  message of the same history that it can deliver, and its reply and its commit index are right.
\<close>

lemma appendentries_follows:
  assumes "contiki_ok ct" "history_ok H" "message_ok H ae" "offer_ok cbs"
    and "\<forall>e \<in> set (entries ae). \<not> raft_entry_is_cfg_change e"
    and s: "follows H cbs Q s" "deliverable s ae" "spares ae Q s"
  shows "post (raft_recv_appendentries ct s node ae) (\<lambda>(e, r, s').
    follows H cbs Q s' \<and> took ae (commit_idx s) r s')"
proof -
  let ?P = "\<lambda>(e, r, s'). follows H cbs Q s' \<and> took ae (commit_idx s) r s'"
  have check: "post (ae_check ct t node ae) ?P"
    if "log_of t = log_of s" "me_cb t = me_cb s" "commit_idx t = commit_idx s" for t
    unfolding that(3) [symmetric]
    using follows_cong [OF s(1) that(1,2)] log_of_deliverable [OF that(1,3)] log_of_spares [OF that(1)] s(2,3)
    by (intro ae_check_follows [OF assms(1-5)]) simp_all
  have follow: "post (raft_become_follower ct t) (\<lambda>u. post (ae_check ct u node ae) ?P)"
    if "log_of t = log_of s" "me_cb t = me_cb s" "commit_idx t = commit_idx s" for t
    by (rule post_mono [OF raft_become_follower_same], rule check)
       (use that in \<open>simp_all add: config_of_def progress_of_def\<close>)
  have out: "post (ae_out t ae e 0 k) ?P" if "follows H cbs Q t" "commit_idx t = commit_idx s" for t e k
    using that by (intro ae_out_took) auto
  obtain e s1 where st: "raft_set_current_term s (ae_term ae) = (e, s1)" by fastforce
  have s1: "log_of s1 = log_of s" "me_cb s1 = me_cb s" "commit_idx s1 = commit_idx s"
    using raft_set_current_term_spec [OF st] by (simp_all add: config_of_def progress_of_def)
  show ?thesis
    unfolding raft_recv_appendentries_def
    using s(1) follows_cong [OF s(1) s1(1,2)]
    by (auto simp: wp st s1(3) intro!: out check follow s1)
qed

lemma meets_carried:
  assumes "follows H cbs Q s" "history_ok H" "meets s ae k" "k \<le> length (entries ae)"
    and "0 < prev_log_idx ae + int k"
  shows "\<exists>b \<in> carried ae. snd b = prev_log_idx ae + int k \<and> holds H b (tip s)"
proof -
  have wf: "log_wf s" and chd: "chained H (log_lookup s)" using assms(1) by (simp_all add: follows_def)
  obtain y where y: "log_lookup s (prev_log_idx ae + int k) = Some y" "ety_term y = pred_term ae k"
    using assms(3,5) by (auto simp: meets_def)
  obtain q where "H (uint (ety_term y), prev_log_idx ae + int k) = Some (y, q)"
    using chainedD [OF chd y(1)] by blast
  then have "0 < uint (ety_term y)" using assms(2) unfolding history_ok_def by blast
  then have "pred_term ae k \<noteq> 0" using y(2) by auto
  then have "(uint (pred_term ae k), prev_log_idx ae + int k) \<in> carried ae"
    using assms(4,5) unfolding carried_def by blast
  with holds_lookup [OF wf chd y(1)] y(2) show ?thesis by force
qed

text \<open>
  A server that has a role other than a follower's after an appendentries message of another leader
  has not touched its log for it.
\<close>

lemma appendentries_other_term:
  assumes "\<not> (raft_is_leader s \<and> ae_term ae = current_term s)"
  shows "post (raft_recv_appendentries ct s node ae) (\<lambda>(e, r, s').
    me_state s' = RAFT_STATE_FOLLOWER \<or> me_state s' = RAFT_STATE_NONE \<or> log_of s' = log_of s)"
proof -
  obtain e s1 where st: "raft_set_current_term s (ae_term ae) = (e, s1)" by fastforce
  have check: "post (ae_check ct t node ae) (\<lambda>(e, r, s'). me_state s' = RAFT_STATE_FOLLOWER \<or> me_state s' = RAFT_STATE_NONE)"
    if "me_state t = RAFT_STATE_FOLLOWER \<or> me_state t = RAFT_STATE_NONE" for t
    by (rule post_mono [OF ae_check_frame]) (use that in \<open>auto simp: handled_def role_step_def\<close>)
  have "post (raft_become_follower ct t) (\<lambda>t. post (ae_check ct t node ae)
      (\<lambda>(e, r, s'). me_state s' = RAFT_STATE_FOLLOWER \<or> me_state s' = RAFT_STATE_NONE))" for t
    by (rule post_mono [OF raft_become_follower_same], rule check) simp
  then have follow: "post (raft_become_follower ct t) (\<lambda>t. post (ae_check ct t node ae)
      (\<lambda>(e, r, s'). me_state s' = RAFT_STATE_FOLLOWER \<or> me_state s' = RAFT_STATE_NONE \<or> log_of s' = log_of s))" for t
    by (rule post_mono) (auto elim!: post_mono)
  have "me_state s = RAFT_STATE_FOLLOWER \<or> me_state s = RAFT_STATE_NONE"
    if "current_term s = ae_term ae" "\<not> raft_is_candidate s"
    using that assms by (cases "me_state s") (auto simp: raft_is_leader_def raft_is_candidate_def raft_get_state_def)
  note check [OF this]
  then show ?thesis
    using st raft_set_current_term_spec(2) [OF st]
    by (auto simp: raft_recv_appendentries_def wp intro!: post_mono [OF ae_out_frame] follow elim!: post_mono)
qed

text \<open>A client's entry is the next entry of a leader's log, with the leader's term.\<close>

lemma recv_entry_appends:
  assumes "contiki_ok ct" "log_wf s" "offer_ok (me_cb s)" "\<not> raft_entry_is_cfg_change ety"
  defines "x \<equiv> ety\<lparr>ety_term := to_unsigned (current_term s),
                   ety_idx := to_unsigned (raft_get_current_idx s + 1)\<rparr>"
  shows "post (raft_recv_entry ct s ety r) (\<lambda>(e, ety', r', s').
    log_of s' = log_of s \<or> raft_is_leader s \<and> appended s x s')"
proof -
  let ?ety = "ety\<lparr>ety_term := to_unsigned (current_term s)\<rparr>"
  have cfg: "\<not> raft_entry_is_cfg_change ?ety" using assms(4) by (simp add: raft_entry_is_cfg_change_def)
  have app: "post (raft_append_entry ct s ?ety) (\<lambda>(c, e', t). c = 0 \<and> appended s x t)"
    by (rule post_mono [OF post_conj [OF append_succeeds [OF assms(1-3) cfg]
          raft_append_entry_post [OF assms(1,2)]]]) (auto simp: x_def)
  have keep: "appended s x u" if "appended s x t" "log_of u = log_of t" for t u
    using that log_of_window [of u t] by (simp add: appended_def)
  have push: "post (foreach (push_entry ct) xs t) (appended s x)" if "appended s x t" for xs t
    by (rule post_mono [OF push_loop_frame]) (rule keep [OF that], simp add: send_step_same)
  have commit: "post (raft_set_commit_idx t k) (appended s x)" if "appended s x t" for t k
    by (rule post_mono [OF raft_set_commit_idx_frame]) (rule keep [OF that], simp add: views)
  have cfg: "appended s x (t\<lparr>voting_cfg_change_log_idx := k\<rparr>)" if "appended s x t" for t k
    by (rule keep [OF that]) (simp add: views)
  show ?thesis
    unfolding raft_recv_entry_def
    by (auto simp: wp Let_def cfg intro!: post_mono [OF app] post_mono [OF push] post_mono [OF commit])
qed

end
