(* ===== verification/Raft_Moves.thy ===== *)
theory Raft_Moves
  imports Raft_Cluster
begin

text \<open>
  What one step of a server may do to its term and vote, to its commit index and to what a leader knows
  of its peers.
\<close>

section \<open>Term and vote\<close>

text \<open>The term that a message carries.\<close>

definition input_term :: "server_input \<Rightarrow> int option" where
  "input_term inp =
     (case inp of
        Requestvote sender vr \<Rightarrow> Some (rv_term vr)
      | Requestvote_Response sender r \<Rightarrow> Some (rvr_term r)
      | Appendentries sender ae \<Rightarrow> Some (ae_term ae)
      | Appendentries_Response sender ar \<Rightarrow> Some (aer_term ar)
      | _ \<Rightarrow> None)"

text \<open>A server enters the term of a message without a vote.\<close>

definition enters :: "'u raft_server \<Rightarrow> int \<Rightarrow> 'u raft_server \<Rightarrow> bool" where
  "enters s t s' \<longleftrightarrow> election_of s' = election_of s \<or> current_term s < t \<and> election_of s' = (t, -1)"

lemma enters_refl [simp]: "enters s t s"
  by (simp add: enters_def)

lemma enters_cong: "election_of s' = election_of u \<Longrightarrow> enters s t u \<Longrightarrow> enters s t s'"
  by (simp add: enters_def)

lemma set_term_enters:
  assumes "raft_set_current_term s t = (e, s')"
  shows "enters s t s'"
  using raft_set_current_term_spec(11-13) [OF assms] by (auto simp: enters_def views split: if_splits)

lemma step_down_enters:
  "enters s t u \<Longrightarrow> post (raft_become_follower ct u) (enters s t)"
  by (rule post_mono [OF raft_become_follower_same]) (auto elim: enters_cong)

lemma appendentries_enters:
  "post (raft_recv_appendentries ct s node ae) (\<lambda>(e, r, s'). enters s (ae_term ae) s')"
proof (rule appendentries_rule)
  show "enters s (ae_term ae) (snd (raft_set_current_term s (ae_term ae)))"
    using set_term_enters [of s "ae_term ae"] by (metis prod.collapse)
  show "post (raft_become_follower ct t) (enters s (ae_term ae))" if "enters s (ae_term ae) t" for t
    by (rule step_down_enters [OF that])
qed (auto simp: append_step_def enters_def views
      intro!: post_mono [OF raft_append_entry_frame] post_mono [OF raft_delete_entry_frame])

text \<open>A follower that takes anything from a message, or confirms it, is in the term of the message.\<close>

lemma appendentries_accepts:
  "post (raft_recv_appendentries ct s node ae) (\<lambda>(e, r, s').
     log_of s' = log_of s \<and> commit_idx s' = commit_idx s \<and> success r = 0 \<or> current_term s' = ae_term ae)"
proof -
  let ?P = "\<lambda>(e, r, s'). log_of s' = log_of s \<and> commit_idx s' = commit_idx s \<and> success r = 0 \<or> ae_term ae \<le> current_term s'"
  have out: "post (ae_out t ae e 0 k) ?P" if "log_of t = log_of s" "commit_idx t = commit_idx s" for t e k
    using that by (simp add: ae_out_def wp)
  have check: "post (ae_check ct t node ae) ?P" if "ae_term ae \<le> current_term t" for t
    by (rule post_mono [OF ae_check_frame]) (use that in \<open>auto simp: handled_defs\<close>)
  have follow: "post (raft_become_follower ct t) (\<lambda>t. post (ae_check ct t node ae) ?P)"
    if "ae_term ae \<le> current_term t" for t
    by (rule post_mono [OF raft_become_follower_same], rule check) (use that in \<open>simp add: election_of_def\<close>)
  obtain e s1 where st: "raft_set_current_term s (ae_term ae) = (e, s1)" by fastforce
  have s1: "log_of s1 = log_of s" "commit_idx s1 = commit_idx s" "e = 0 \<Longrightarrow> ae_term ae \<le> current_term s1"
    using raft_set_current_term_spec [OF st] by (auto simp: progress_of_def)
  have "post (raft_recv_appendentries ct s node ae) ?P"
    unfolding raft_recv_appendentries_def
    using st by (auto simp: wp intro!: out check follow s1)
  note taken = post_conj [OF appendentries_enters this]
  show ?thesis
  proof (cases "ae_term ae < current_term s")
    case True
    then show ?thesis by (simp add: raft_recv_appendentries_def ae_out_def wp)
  next
    case False
    then show ?thesis by (intro post_mono [OF taken]) (auto simp: enters_def election_of_def)
  qed
qed

lemma requestvote_response_enters:
  "post (raft_recv_requestvote_response ct s node r) (\<lambda>(e, s'). enters s (rvr_term r) s')"
proof -
  obtain e s1 where st: "raft_set_current_term s (rvr_term r) = (e, s1)" by fastforce
  have lead: "post (raft_become_leader ct t) (enters s (rvr_term r))" if "election_of t = election_of s" for t
    by (rule post_mono [OF raft_become_leader_same]) (use that in \<open>simp add: leader_step_def enters_def views\<close>)
  have out: "enters s (rvr_term r) (t\<lparr>current_leader := None\<rparr>)" if "enters s (rvr_term r) t" for t
    using that by (simp add: enters_def views)
  show ?thesis
    using set_term_enters [OF st] st
    by (auto simp: raft_recv_requestvote_response_def Let_def wp upd_node_def views split: option.split
        intro!: out post_mono [OF lead] post_mono [OF step_down_enters]) (auto simp: enters_def views)
qed

lemma response_same_term:
  assumes "\<not> current_term s < aer_term r"
  shows "post (raft_recv_appendentries_response ct s node r)
    (\<lambda>(e, s'). election_of s' = election_of s \<and> me_state s' = me_state s)"
proof -
  let ?I = "\<lambda>t. election_of t = election_of s \<and> me_state t = me_state s"
  have suff: "post (aer_sufficient_logs t a k) ?I" if "?I t" for t a k
    by (rule post_mono [OF aer_sufficient_logs_frame]) (use that in \<open>simp add: views\<close>)
  have commit: "post (aer_update_commit t k) ?I" if "?I t" for t k
    by (rule post_mono [OF aer_update_commit_rule]) (use that in \<open>auto simp: views\<close>)
  have send: "post (raft_send_appendentries ct t a) (\<lambda>(e, s'). ?I s')" if "?I t" for t a
    by (rule post_mono [OF raft_send_appendentries_frame]) (use that in \<open>auto simp: send_step_def views\<close>)
  have upd: "election_of (upd_node t a f) = election_of t" "me_state (upd_node t a f) = me_state t"
    for t :: "'a raft_server" and a f
    by (simp_all add: upd_node_def views)
  show ?thesis
    using assms
    by (auto simp: raft_recv_appendentries_response_def aer_success_def Let_def wp upd
        intro!: post_mono [OF suff] post_mono [OF commit] post_mono [OF send])
qed

lemma response_enters:
  "post (raft_recv_appendentries_response ct s node r) (\<lambda>(e, s'). enters s (aer_term r) s')"
proof (cases "current_term s < aer_term r")
  case True
  obtain e s1 where st: "raft_set_current_term s (aer_term r) = (e, s1)" by fastforce
  have out: "enters s (aer_term r) (t\<lparr>current_leader := None\<rparr>)" if "enters s (aer_term r) t" for t
    using that by (simp add: enters_def views)
  show ?thesis
    using True set_term_enters [OF st] st
    by (auto simp: raft_recv_appendentries_response_def wp intro!: out post_mono [OF step_down_enters])
next
  case False
  then show ?thesis by (rule post_mono [OF response_same_term]) (auto simp: enters_def)
qed

lemma recv_entry_election:
  "post (raft_recv_entry ct s ety r) (\<lambda>(e, ety', r', s'). election_of s' = election_of s)"
  unfolding raft_recv_entry_def
  by (auto simp: wp Let_def append_step_def send_step_def views
      intro!: post_mono [OF raft_append_entry_frame] post_mono [OF push_loop_frame]
        post_mono [OF raft_set_commit_idx_frame])

text \<open>A vote goes to a candidate whose log is at least as current.\<close>

lemma grant_is_current:
  "post (should_grant_vote s vr) (\<lambda>g. g \<longrightarrow> log_is_current s vr \<and> voted_for s = -1 \<and> current_term s \<le> rv_term vr)"
  by (auto simp: should_grant_vote_def wp Let_def raft_already_voted_def raft_get_current_term_def
      log_is_current_def log_lookup_def raft_get_entry_from_idx_def)

definition votes :: "'u raft_server \<Rightarrow> msg_requestvote \<Rightarrow> 'u raft_server \<Rightarrow> bool" where
  "votes s vr s' \<longleftrightarrow>
     current_term s \<le> rv_term vr \<and> log_is_current s vr \<and> election_of s' = (rv_term vr, candidate_id vr)"

lemma log_is_current_cong: "log_of t = log_of s \<Longrightarrow> log_is_current t vr = log_is_current s vr"
  using log_of_window [of t s] by (simp add: log_is_current_def)

lemma requestvote_votes:
  "post (raft_recv_requestvote ct s node vr) (\<lambda>(e, r, s'). enters s (rv_term vr) s' \<or> votes s vr s')"
proof -
  let ?P = "\<lambda>(e, r, s'). enters s (rv_term vr) s' \<or> votes s vr s'"
  have answer: "post (vote_answer t n vr) ?P"
    if "enters s (rv_term vr) t" "log_of t = log_of s" "rv_term vr \<le> current_term t" for t n
  proof -
    obtain e u where v: "raft_vote_for_nodeid t (candidate_id vr) = (e, u)" by fastforce
    have "?P (e', r, u\<lparr>current_leader := None, timeout_elapsed := 0\<rparr>)"
      if g: "log_is_current t vr" "voted_for t = -1" "current_term t \<le> rv_term vr" for e' r
    proof -
      have "current_term t = rv_term vr" using g(3) \<open>rv_term vr \<le> current_term t\<close> by simp
      then show ?thesis
        using raft_vote_for_nodeid_spec(10-12) [OF v] g(1) \<open>enters s (rv_term vr) t\<close>
          log_is_current_cong [OF \<open>log_of t = log_of s\<close>]
        by (cases "e = 0") (auto simp: enters_def votes_def views)
    qed
    with that(1) show ?thesis
      by (auto simp: vote_answer_def wp v requestvote_done_def Let_def intro!: post_mono [OF grant_is_current])
  qed
  have follow: "post (raft_become_follower ct t) (\<lambda>u. post (vote_answer (u\<lparr>current_leader := None\<rparr>) n vr) ?P)"
    if "enters s (rv_term vr) t" "log_of t = log_of s" "rv_term vr \<le> current_term t" for t n
    by (rule post_mono [OF raft_become_follower_same], rule answer)
       (use that in \<open>auto simp: enters_def views\<close>)
  obtain e s1 where st: "raft_set_current_term s (rv_term vr) = (e, s1)" by fastforce
  note st' = raft_set_current_term_spec [OF st] set_term_enters [OF st]
  show ?thesis
    using st'(12,14) st'(2)
    by (auto simp: raft_recv_requestvote_def Let_def wp st requestvote_done_def raft_get_current_term_def
        intro!: answer follow)
qed

section \<open>A step\<close>

text \<open>The ways in which term and vote can change.\<close>

definition elects :: "'u raft_server \<Rightarrow> server_input \<Rightarrow> 'u raft_server \<Rightarrow> bool" where
  "elects s inp s' \<longleftrightarrow>
     election_of s' = election_of s \<or>
     (\<exists>t. input_term inp = Some t \<and> current_term s < t \<and> election_of s' = (t, -1)) \<or>
     me_state s' = RAFT_STATE_CANDIDATE \<and> in_int (current_term s + 1) \<and> current_term s' = current_term s + 1 \<and>
       (voted_for s' = -1 \<or> voted_for s' = raft_get_nodeid s) \<and> log_of s' = log_of s \<or>
     (\<exists>sender vr. inp = Requestvote sender vr \<and> votes s vr s')"

lemma elects_cong:
  "election_of s' = election_of t \<Longrightarrow> me_state s' = me_state t \<Longrightarrow> log_of s' = log_of t \<Longrightarrow>
   elects s inp t \<Longrightarrow> elects s inp s'"
  by (simp add: elects_def votes_def election_of_def)

lemma tick_elects:
  assumes "raft_get_num_voting_nodes s \<noteq> 1"
  shows "post (raft_periodic ct s ms) (\<lambda>(e, s'). elects s (Tick ms) s')"
proof (rule raft_periodic_rule)
  fix t
  show "post (periodic_single ct (s\<lparr>timeout_elapsed := t\<rparr>)) (\<lambda>u. \<exists>k. u = s\<lparr>timeout_elapsed := k\<rparr>)"
    using assms by (auto simp: periodic_single_def wp raft_get_num_voting_nodes_def)
next
  fix t :: "'a raft_server"
  assume "\<exists>k. t = s\<lparr>timeout_elapsed := k\<rparr>"
  then have t: "election_of t = election_of s" "log_of t = log_of s" "raft_get_nodeid t = raft_get_nodeid s"
    "current_term t = current_term s"
    by (auto simp: views timer_reads)
  have elect: "post (raft_election_start ct t) (\<lambda>(e, s'). elects s (Tick ms) s')"
    unfolding raft_election_start_def
  proof (rule postI, clarify)
    fix e s'
    assume run: "raft_become_candidate ct t = Ok (e, s')"
    then have "in_int (current_term t + 1)"
      by (auto simp: raft_become_candidate_def raft_get_current_term_def)
    with postD [OF raft_become_candidate_same run] t show "elects s (Tick ms) s'"
      by (cases "e = 0") (simp_all add: elects_def)
  qed
  show "post (periodic_timeout ct t) (\<lambda>(e, s'). elects s (Tick ms) s')"
    unfolding periodic_timeout_def using t(1)
    by (auto simp: wp intro!: elect post_mono [OF raft_send_appendentries_all_frame])
       (auto simp: send_step_def elects_def views)
next
  fix t :: "'a raft_server"
  assume t: "elects s (Tick ms) t" "last_applied_idx t < commit_idx t"
  from raft_apply_entry_frame [OF t(2)] show "post (raft_apply_entry ct t) (\<lambda>(e, s'). elects s (Tick ms) s')"
    by (rule post_mono) (auto simp: apply_step_def ticked_def intro!: elects_cong [OF _ _ _ t(1)])
qed

lemma enters_elects: "enters s t s' \<Longrightarrow> input_term inp = Some t \<Longrightarrow> elects s inp s'"
  by (auto simp: enters_def elects_def)

lemma server_step_elects:
  assumes "server_step ct s inp out s'" "raft_get_num_voting_nodes s \<noteq> 1"
  shows "elects s inp s'"
  using assms(1)
proof cases
  case (tick ms e)
  with postD [OF tick_elects [OF assms(2)]] show ?thesis by auto
next
  case (apply_all e)
  with postD [OF raft_apply_all_frame apply_all(3)] show ?thesis by (simp add: apply_step_def elects_def)
next
  case (requestvote sender vr e r)
  with postD [OF requestvote_votes requestvote(3)] show ?thesis
    by (auto simp: input_term_def elects_def enters_def)
next
  case (requestvote_response sender r e)
  with postD [OF requestvote_response_enters requestvote_response(3)] show ?thesis
    by (auto simp: input_term_def intro: enters_elects)
next
  case (appendentries sender ae e ar)
  with postD [OF appendentries_enters appendentries(3)] show ?thesis
    by (auto simp: input_term_def intro: enters_elects)
next
  case (appendentries_response sender ar e)
  with postD [OF response_enters appendentries_response(3)] show ?thesis
    by (auto simp: input_term_def intro: enters_elects)
next
  case (client_entry ety cr e ety' cr')
  with postD [OF recv_entry_election client_entry(3)] show ?thesis by (simp add: elects_def)
qed

lemma server_step_in_int:
  assumes "server_step ct s inp out s'" "raft_get_num_voting_nodes s \<noteq> 1" "in_int (current_term s)"
    and "\<And>t. input_term inp = Some t \<Longrightarrow> in_int t"
  shows "in_int (current_term s')"
  using server_step_elects [OF assms(1,2)] assms(3,4)
  by (auto simp: elects_def election_of_def votes_def input_term_def)

section \<open>The commit index\<close>

text \<open>
  The commit index moves when a follower takes a message, and when a leader counts a response.
\<close>

definition commits :: "'u raft_server \<Rightarrow> server_input \<Rightarrow> 'u raft_server \<Rightarrow> bool" where
  "commits s inp s' \<longleftrightarrow>
     commit_idx s' = commit_idx s \<or>
     (\<exists>sender ae. inp = Appendentries sender ae) \<or>
     (\<exists>sender ar. inp = Appendentries_Response sender ar \<and> me_state s' = RAFT_STATE_LEADER \<and>
        current_term s' = current_term s \<and> committable s' (commit_idx s'))"

lemma recv_entry_commit:
  fixes s :: "'u raft_server"
  assumes "contiki_ok ct" "plain_log s" "\<not> raft_entry_is_cfg_change ety" "raft_get_num_voting_nodes s \<noteq> 1"
  shows "post (raft_recv_entry ct s ety r) (\<lambda>(e, ety', r', s'). commit_idx s' = commit_idx s)"
proof -
  let ?ety = "ety\<lparr>ety_term := to_unsigned (current_term s)\<rparr>"
  let ?I = "\<lambda>t. commit_idx t = commit_idx s \<and> raft_get_num_voting_nodes t \<noteq> 1"
  have cfg: "\<not> raft_entry_is_cfg_change ?ety" using assms(3) by (simp add: raft_entry_is_cfg_change_def)
  have voting: "raft_get_num_voting_nodes t = raft_get_num_voting_nodes u" if "members_of t = members_of u"
    for t u :: "'u raft_server"
    using that by (rule same_roles_counts(1) [OF members_same_roles])
  have app: "post (raft_append_entry ct s ?ety) (\<lambda>(c, e', t). ?I t)"
  proof (rule post_mono [OF post_conj [OF raft_append_entry_frame append_plain_since [OF assms(1) _ cfg]]])
    show "plain_since s s" using assms(2) by (simp add: plain_since_def)
    fix x assume x: "(case x of (c, e', t) \<Rightarrow> append_step s t) \<and> (case x of (c, e', t) \<Rightarrow> plain_since s t)"
    then have "members_of (snd (snd x)) = members_of s" by (auto simp: plain_since_def)
    from voting [OF this] x assms(4) show "case x of (c, e', t) \<Rightarrow> ?I t"
      by (auto simp: append_step_def progress_of_def)
  qed
  have push: "post (foreach (push_entry ct) xs t) ?I" if "?I t" for xs and t :: "'u raft_server"
  proof (rule post_mono [OF push_loop_frame])
    fix u assume "send_step t u"
    from send_step_same(3) [OF this] voting [OF send_step_same(4) [OF this]] that show "?I u"
      by (simp add: progress_of_def)
  qed
  show ?thesis
    unfolding raft_recv_entry_def
    by (auto simp: wp Let_def intro!: post_mono [OF app] post_mono [OF push])
qed

lemma server_step_commits:
  assumes "contiki_ok ct" "server_step ct s inp out s'" "plain_log s" "plain_input inp"
    and "raft_get_num_voting_nodes s \<noteq> 1"
  shows "commits s inp s'"
  using assms(2)
proof cases
  case (tick ms e)
  with postD [OF raft_periodic_frame tick(3)] show ?thesis by (simp add: commits_def ticked_def views)
next
  case (apply_all e)
  with postD [OF raft_apply_all_frame apply_all(3)] show ?thesis by (simp add: commits_def apply_step_def ticked_def)
next
  case (requestvote sender vr e r)
  with postD [OF raft_recv_requestvote_frame requestvote(3)] show ?thesis
    by (simp add: commits_def answered_def views)
next
  case (requestvote_response sender r e)
  with postD [OF raft_recv_requestvote_response_frame requestvote_response(3)] show ?thesis
    by (simp add: commits_def vote_handled_def views)
next
  case (appendentries sender ae e ar)
  then show ?thesis by (simp add: commits_def)
next
  case (appendentries_response sender ar e)
  have "me_state s' = me_state s" if "aer_term ar = current_term s"
    using postD [OF response_same_term appendentries_response(3)] that by simp
  with postD [OF raft_recv_appendentries_response_commit appendentries_response(3)] appendentries_response(1)
  show ?thesis by (auto simp: commits_def commit_advanced_def raft_is_leader_def raft_get_state_def)
next
  case (client_entry ety cr e ety' cr')
  with postD [OF recv_entry_commit [OF assms(1,3) _ assms(5)]] assms(4) show ?thesis
    by (auto simp: commits_def plain_input_def)
qed

section \<open>What a leader knows of its peers\<close>

text \<open>A new leader starts with no knowledge of its peers.\<close>

definition forgets :: "'u raft_server \<Rightarrow> nat set \<Rightarrow> 'u raft_server \<Rightarrow> bool" where
  "forgets s A s' \<longleftrightarrow>
     same_roles s s' \<and>
     (\<forall>a. match_idx (nodes_mem s' a) = (if a \<in> A \<and> is_peer s a then 0 else match_idx (nodes_mem s a)))"

lemma greet_forgets: "post (greet ct a s) (forgets s {a})"
proof -
  let ?t = "\<lambda>n. upd_node (upd_node s a (\<lambda>m. raft_node_set_next_idx m n)) a (\<lambda>m. raft_node_set_match_idx m 0)"
  have "forgets s {a} t" if "send_step (?t n) t" "is_peer s a" for n t
  proof -
    have "members_of t = members_of (?t n)" using that(1) by (simp add: send_step_same)
    then have "nodes_mem t = nodes_mem (?t n)" "same_roles (?t n) t" by (auto simp: views members_same_roles)
    moreover have "same_roles s (?t n)" by (simp add: same_roles_def)
    ultimately show ?thesis using that(2) same_roles_trans by (fastforce simp: forgets_def)
  qed
  moreover have "forgets s {a} s" if "\<not> is_peer s a" using that by (simp add: forgets_def same_roles_def)
  ultimately show ?thesis
    by (auto simp: greet_def wp Let_def is_peer_def intro!: post_mono [OF raft_send_appendentries_frame])
qed

lemma greet_all_forgets: "post (foreach (greet ct) xs s) (forgets s (set xs))"
proof (induction xs arbitrary: s)
  case (Cons a xs)
  have "forgets s (set (a # xs)) u" if "forgets s {a} t" "forgets t (set xs) u" for t u
    using that is_peer_same_roles [of s t] same_roles_trans [of s t u] by (auto simp: forgets_def)
  then show ?case
    unfolding foreach.simps post_bind
    by (intro post_mono [OF greet_forgets] post_mono [OF Cons.IH])
qed (simp add: wp forgets_def same_roles_def)

text \<open>
  A leader has heard nothing of a peer in its term, or it keeps what it knew, or the peer tells it more.
\<close>

definition informed :: "'u raft_server \<Rightarrow> server_input \<Rightarrow> 'u raft_server \<Rightarrow> bool" where
  "informed s inp s' \<longleftrightarrow>
     (me_state s' = RAFT_STATE_LEADER \<longrightarrow>
        (\<forall>a \<in> set (nodes_list s). me_node s \<noteq> Some a \<and> raft_node_is_active (nodes_mem s a) \<longrightarrow>
           match_idx (nodes_mem s' a) = 0 \<or>
           me_state s = RAFT_STATE_LEADER \<and> current_term s' = current_term s \<and>
             (match_idx (nodes_mem s' a) = match_idx (nodes_mem s a) \<or>
              (\<exists>ar. inp = Appendentries_Response (node_id (nodes_mem s a)) ar \<and> success ar \<noteq> 0 \<and>
                 aer_term ar = current_term s \<and> match_idx (nodes_mem s' a) = aer_current_idx ar))))"

lemma keeps_informed:
  assumes "me_state s' = RAFT_STATE_LEADER \<Longrightarrow> match_idx \<circ> nodes_mem s' = match_idx \<circ> nodes_mem s" "quiet s s'"
  shows "informed s inp s'"
  using assms by (auto simp: informed_def quiet_def fun_eq_iff)

lemma members_informed: "members_of s' = members_of s \<Longrightarrow> quiet s s' \<Longrightarrow> informed s inp s'"
  by (rule keeps_informed) (simp_all add: members_of_def)

lemma tick_informed:
  assumes "raft_get_num_voting_nodes s \<noteq> 1" "plain_log s"
  shows "post (raft_periodic ct s ms) (\<lambda>(e, s'). informed s (Tick ms) s')"
proof -
  let ?R = "\<lambda>t. \<exists>k. t = s\<lparr>timeout_elapsed := k\<rparr>"
  let ?R' = "\<lambda>t. plain_log t \<and> (me_state t = RAFT_STATE_CANDIDATE \<or> nodes_mem t = nodes_mem s)"
  have single: "post (periodic_single ct (s\<lparr>timeout_elapsed := t\<rparr>)) ?R" for t
    using assms(1) by (auto simp: periodic_single_def wp raft_get_num_voting_nodes_def)
  have start: "post (periodic_timeout ct t) (\<lambda>(e, s'). ?R' s')" if "?R t" for t
  proof -
    from that obtain k where k: "t = s\<lparr>timeout_elapsed := k\<rparr>" by blast
    have elect: "post (raft_election_start ct t) (\<lambda>(e, s'). me_state s' = RAFT_STATE_CANDIDATE \<or> nodes_mem s' = nodes_mem s)"
      unfolding raft_election_start_def using k
      by (intro post_mono [OF raft_become_candidate_same]) auto
    have "post (periodic_timeout ct t) (\<lambda>(e, s'). me_state s' = RAFT_STATE_CANDIDATE \<or> nodes_mem s' = nodes_mem s)"
      unfolding periodic_timeout_def using k
      by (auto simp: wp intro!: elect [unfolded k] post_mono [OF raft_send_appendentries_all_frame]) (auto simp: send_step_def)
    from post_conj [OF periodic_timeout_frame this] show ?thesis
      by (rule post_mono) (use assms(2) k plain_log_cong [of _ s] in \<open>auto simp: ticked_def views\<close>)
  qed
  have app: "post (raft_apply_entry ct t) (\<lambda>(e, s'). ?R' s')"
    if "?R' t" "last_applied_idx t < commit_idx t" for t
    using that(1) plain_log_cong [of _ t]
    by (intro post_mono [OF post_conj [OF raft_apply_entry_frame [OF that(2)] raft_apply_entry_members]])
       (auto simp: apply_step_def ticked_def members_of_def)
  show ?thesis
    by (rule post_mono [OF post_conj [OF raft_periodic_roles [OF assms] raft_periodic_rule [OF single start app]]])
       (auto simp: campaign_def intro: keeps_informed, simp_all add: informed_def)
qed

lemma requestvote_response_informed:
  "post (raft_recv_requestvote_response ct s node r) (\<lambda>(e, s'). informed s (Requestvote_Response sender r) s')"
proof -
  obtain e s1 where st: "raft_set_current_term s (rvr_term r) = (e, s1)" by fastforce
  let ?t = "record_vote s node"
  have lead: "post (raft_become_leader ct ?t) (informed s (Requestvote_Response sender r))"
    unfolding raft_become_leader_greets
  proof (rule post_mono [OF greet_all_forgets])
    fix s'
    assume "forgets (?t\<lparr>current_leader := me_node ?t, me_state := RAFT_STATE_LEADER, timeout_elapsed := 0\<rparr>)
      (set (nodes_list ?t)) s'"
    moreover have "nodes_list ?t = nodes_list s" "me_node ?t = me_node s"
      "raft_node_is_active (nodes_mem ?t a) = raft_node_is_active (nodes_mem s a)" for a
      using record_vote_frame(6) [of s node] by (auto simp: same_voters_def)
    ultimately show "informed s (Requestvote_Response sender r) s'"
      by (auto simp: informed_def forgets_def is_peer_def)
  qed
  have idle: "informed s (Requestvote_Response sender r) t" if "me_state t \<noteq> RAFT_STATE_LEADER" for t
    using that by (simp add: informed_def)
  have follow: "post (raft_become_follower ct s1) (\<lambda>t. informed s (Requestvote_Response sender r) (t\<lparr>current_leader := None\<rparr>))"
    by (rule post_mono [OF raft_become_follower_same]) (simp add: idle)
  show ?thesis
  proof (cases "raft_is_candidate s")
    case False
    then show ?thesis by (simp add: raft_recv_requestvote_response_def wp members_informed)
  next
    case True
    then have "me_state s \<noteq> RAFT_STATE_LEADER" by (simp add: raft_is_candidate_def raft_get_state_def)
    moreover have "me_state s1 = me_state s" using raft_set_current_term_spec [OF st] by simp
    ultimately have "informed s (Requestvote_Response sender r) s" "informed s (Requestvote_Response sender r) s1"
      "informed s (Requestvote_Response sender r) ?t"
      using record_vote_frame(5) [of s node] by (simp_all add: idle)
    then show ?thesis
      using True st follow
      by (auto simp: raft_recv_requestvote_response_def Let_def wp record_vote_def [symmetric]
          intro!: post_mono [OF lead])
  qed
qed

lemma response_informed:
  "post (raft_recv_appendentries_response ct s (raft_get_node s sender) ar)
    (\<lambda>(e, s'). informed s (Appendentries_Response sender ar) s')"
proof -
  let ?I = "\<lambda>t. \<forall>b. match_idx (nodes_mem t b) = match_idx (nodes_mem s b) \<or>
      (raft_get_node s sender = Some b \<and> success ar \<noteq> 0 \<and> aer_term ar = current_term s \<and>
       match_idx (nodes_mem t b) = aer_current_idx ar)"
  obtain e s1 where st: "raft_set_current_term s (aer_term ar) = (e, s1)" by fastforce
  have s1: "?I s1" using raft_set_current_term_spec [OF st] by (simp add: members_of_def)
  have follow: "post (raft_become_follower ct s1) ?I"
    by (rule post_mono [OF raft_become_follower_same]) (use s1 in \<open>simp add: members_of_def\<close>)
  have suff: "post (aer_sufficient_logs t a k) ?I" if "?I t" for t a k
    by (rule post_mono [OF aer_sufficient_logs_frame]) (use that in simp)
  have commit: "post (aer_update_commit t k) ?I" if "?I t" for t k
    by (rule post_mono [OF aer_update_commit_rule]) (use that in auto)
  have send: "post (raft_send_appendentries ct t a) (\<lambda>(e, s'). ?I s')" if "?I t" for t a
    by (rule post_mono [OF raft_send_appendentries_frame]) (use that in \<open>auto simp: send_step_def\<close>)
  have "post (raft_recv_appendentries_response ct s (raft_get_node s sender) ar) (\<lambda>(e, s'). ?I s')"
    using st s1
    by (auto simp: raft_recv_appendentries_response_def aer_success_post wp Let_def record_match_def
        split: if_splits intro!: post_mono [OF follow] post_mono [OF suff] post_mono [OF commit] post_mono [OF send])
  from post_conj [OF raft_recv_appendentries_response_frame this] show ?thesis
  proof (rule post_mono, clarify)
    fix s'
    assume s': "peer_step s s'" "?I s'"
    have "informed s (Appendentries_Response sender ar) s'"
      using peer_step_quiet [OF s'(1)] s'(2) raft_get_node_Some [of s sender]
      unfolding informed_def quiet_def by metis
    then show "informed s (Appendentries_Response sender ar) s'" .
  qed
qed

lemma server_step_informed:
  assumes "contiki_ok ct" "server_step ct s inp out s'" "plain_log s" "plain_input inp"
    and "raft_get_num_voting_nodes s \<noteq> 1"
  shows "informed s inp s'"
  using assms(2)
proof cases
  case (tick ms e)
  with postD [OF tick_informed [OF assms(5,3)] tick(3)] show ?thesis by simp
next
  case (apply_all e)
  with postD [OF raft_apply_all_members [OF assms(3)] apply_all(3)]
    postD [OF raft_apply_all_frame apply_all(3)]
  show ?thesis by (auto simp: apply_step_def views quiet_def intro!: keeps_informed)
next
  case (requestvote sender vr e r)
  with postD [OF raft_recv_requestvote_frame requestvote(3)]
    postD [OF raft_recv_requestvote_quiet requestvote(3)]
  show ?thesis by (auto simp: answered_def intro: members_informed)
next
  case (requestvote_response sender r e)
  with postD [OF requestvote_response_informed requestvote_response(3)] show ?thesis by simp
next
  case (appendentries sender ae e ar)
  with postD [OF appendentries_plain_since [OF assms(1,3)] appendentries(3)]
    postD [OF raft_recv_appendentries_frame appendentries(3)] assms(4)
  show ?thesis using handled_quiet by (auto simp: plain_input_def plain_since_def intro!: members_informed)
next
  case (appendentries_response sender ar e)
  with postD [OF response_informed appendentries_response(3)] show ?thesis by simp
next
  case (client_entry ety cr e ety' cr')
  with postD [OF recv_entry_plain_since [OF assms(1,3)] client_entry(3)]
    postD [OF raft_recv_entry_frame client_entry(3)] assms(4)
  show ?thesis using handled_quiet by (auto simp: plain_input_def plain_since_def intro!: members_informed)
qed

end
