(* ===== verification/Raft_Matching.thy ===== *)
theory Raft_Matching
  imports Raft_History Raft_Moves
begin

text \<open>
  Replication in a cluster: servers whose appendentries messages are the ones that leaders sent.  The
  theory proves two of Raft's safety properties for the handlers of \<^verbatim>\<open>src/raft_server.c\<close>, that a leader
  only appends to its log and that logs match.
\<close>

section \<open>The messages of a leader\<close>

lemma to_unsigned_to_signed [simp]: "to_unsigned (to_signed w) = w"
  by (simp add: to_unsigned_def to_signed_def)

lemma to_unsigned_0 [simp]: "to_unsigned 0 = 0"
  by (simp add: to_unsigned_def)

lemma leader_message_entries:
  assumes "leader_message s n ae" "log_wf s"
  obtains k where "1 \<le> k" "prev_log_idx ae = k - 1"
    "int (length (entries ae)) = (if k \<le> raft_get_current_idx s then raft_get_current_idx s - k + 1 else 0)"
    "n_entries ae = int (length (entries ae))"
    "\<And>m. m < length (entries ae) \<Longrightarrow> log_lookup s (k + int m) = Some (entries ae ! m)"
    "snapshot_last_term s = 0 \<Longrightarrow> 1 < k \<Longrightarrow>
      pred_term ae 0 = (case log_lookup s (k - 1) of Some y \<Rightarrow> ety_term y | None \<Rightarrow> 0)"
    "ae_term ae = current_term s" "leader_commit ae \<le> commit_idx s"
proof -
  obtain k lc where k: "dropped s < k" "lc \<le> commit_idx s" and ae: "ae = ae_at s k lc"
    using assms(1) by (auto simp: leader_message_def)
  let ?cur = "raft_get_current_idx s"
  note cur = current_idx_window [OF assms(2)]
  have k1: "1 \<le> k" using k(1) current_idx_range(5) [OF assms(2)] by simp
  have len: "int (length (entries ae)) = (if k \<le> ?cur then ?cur - k + 1 else 0)"
    using cur k(1) by (simp add: ae ae_at_def of_nat_diff nat_le_iff del: length_window)
  have nth: "log_lookup s (k + int m) = Some (entries ae ! m)" if "m < length (entries ae)" for m
  proof -
    have le: "k + int m \<le> ?cur" using that len by (simp split: if_splits)
    moreover have "nat (k + int m - dropped s - 1) = nat (k - dropped s - 1) + m" using k(1) by simp
    moreover have "nat (k - dropped s - 1) \<le> length (window s)" using cur k(1) le by simp
    ultimately show ?thesis
      using k(1) that by (simp add: log_lookup_wf [OF assms(2)] ae ae_at_def)
  qed
  show thesis
  proof (rule that [OF k1 _ len _ nth])
    show "prev_log_idx ae = k - 1" "ae_term ae = current_term s" "leader_commit ae \<le> commit_idx s"
      using k1 k(2) by (simp_all add: ae ae_at_def)
    show "n_entries ae = int (length (entries ae))" using len by (simp add: ae ae_at_def)
    show "pred_term ae 0 = (case log_lookup s (k - 1) of Some y \<Rightarrow> ety_term y | None \<Rightarrow> 0)"
      if "snapshot_last_term s = 0" "1 < k"
      using that by (simp add: pred_term_def ae ae_at_def split: option.split)
  qed
qed

lemma leader_message_ok:
  assumes "leader_message s n ae" "log_wf s" "chained H (log_lookup s)" "snapshot_last_term s = 0"
  shows "message_ok H ae"
proof -
  obtain k where k1: "1 \<le> k" and prev: "prev_log_idx ae = k - 1" and len: "n_entries ae = int (length (entries ae))"
    and nth: "\<And>m. m < length (entries ae) \<Longrightarrow> log_lookup s (k + int m) = Some (entries ae ! m)"
    and before: "1 < k \<Longrightarrow> pred_term ae 0 = (case log_lookup s (k - 1) of Some y \<Rightarrow> ety_term y | None \<Rightarrow> 0)"
    using leader_message_entries [OF assms(1,2)] assms(4) by metis
  have "\<exists>p. H (uint (ety_term (entries ae ! m)), prev_log_idx ae + 1 + int m) = Some (entries ae ! m, p) \<and>
      (if prev_log_idx ae = 0 \<and> m = 0 then p = 0 else p = pred_term ae m \<or> m = 0 \<and> pred_term ae m = 0)"
    if m: "m < length (entries ae)" for m
  proof -
    obtain p where p: "H (uint (ety_term (entries ae ! m)), k + int m) = Some (entries ae ! m, p)"
      "k + int m = 1 \<Longrightarrow> p = 0" "\<And>y. log_lookup s (k + int m - 1) = Some y \<Longrightarrow> ety_term y = p"
      using chainedD [OF assms(3) nth [OF m]] by blast
    have "p = pred_term ae m \<or> m = 0 \<and> pred_term ae m = 0" if "\<not> (prev_log_idx ae = 0 \<and> m = 0)"
    proof (cases m)
      case 0
      then have "1 < k" using that prev k1 by simp
      with p(3) 0 before show ?thesis by (cases "log_lookup s (k - 1)") auto
    next
      case (Suc m')
      with nth [of m'] m p(3) show ?thesis by (simp add: pred_term_def)
    qed
    with p(1,2) prev show ?thesis by (auto simp: add.commute)
  qed
  then show ?thesis using prev k1 len by (simp add: message_ok_def)
qed

section \<open>A cluster that replicates\<close>

text \<open>
  An appendentries message was sent by the server it comes from to this one, and this server can deliver
  it; the terms of messages are values of \<^verbatim>\<open>int\<close>.
\<close>

definition genuine ::
  "('u \<Rightarrow> (int \<times> msg_appendentries) set) \<Rightarrow> int list \<Rightarrow> 'u cluster \<Rightarrow> int \<Rightarrow> server_input \<Rightarrow> bool" where
  "genuine sent ids c i inp \<longleftrightarrow>
     (case inp of
        Appendentries sender ae \<Rightarrow>
          sender \<in> set ids \<and> (i, ae) \<in> sent (udata (servers c sender)) \<and> deliverable (servers c i) ae \<and>
          in_int (ae_term ae)
      | Appendentries_Response sender ar \<Rightarrow> in_int (aer_term ar)
      | Requestvote sender vr \<Rightarrow> in_int (rv_term vr)
      | Requestvote_Response sender r \<Rightarrow> in_int (rvr_term r)
      | _ \<Rightarrow> True)"

inductive network_step ::
  "contiki \<Rightarrow> ('u \<Rightarrow> (int \<times> msg_appendentries) set) \<Rightarrow> int list \<Rightarrow> 'u cluster \<Rightarrow> 'u cluster \<Rightarrow> bool"
  for ct :: contiki and sent :: "'u \<Rightarrow> (int \<times> msg_appendentries) set" and ids :: "int list" where
  "i \<in> set ids \<Longrightarrow> admissible c i inp \<Longrightarrow> genuine sent ids c i inp \<Longrightarrow>
   server_step ct (servers c i) inp out s' \<Longrightarrow>
   network_step ct sent ids c (advance c i inp out s')"

text \<open>
  A server that is ready to take part: callbacks that record what is sent and accept every entry, no
  snapshot, and a term that is a non-negative \<^verbatim>\<open>int\<close> and positive in an election.
\<close>

definition ready :: "('u \<Rightarrow> (int \<times> msg_appendentries) set) \<Rightarrow> 'u raft_server \<Rightarrow> bool" where
  "ready sent s \<longleftrightarrow>
     records sent (me_cb s) \<and> offer_ok (me_cb s) \<and> snapshot_last_idx s = 0 \<and> snapshot_last_term s = 0 \<and>
     0 \<le> current_term s \<and> in_int (current_term s) \<and>
     (me_state s = RAFT_STATE_CANDIDATE \<or> me_state s = RAFT_STATE_LEADER \<longrightarrow> 0 < current_term s)"

text \<open>At the start all logs are the same, with entries of earlier terms, and no message is under way.\<close>

definition network_init ::
  "('u \<Rightarrow> (int \<times> msg_appendentries) set) \<Rightarrow> int list \<Rightarrow> 'u cluster \<Rightarrow> bool" where
  "network_init sent ids c \<longleftrightarrow>
     cluster_init ids c \<and>
     (\<forall>i \<in> set ids. ready sent (servers c i) \<and> log_wf (servers c i) \<and> sent (udata (servers c i)) = {}) \<and>
     (\<forall>i \<in> set ids. \<forall>j \<in> set ids. log_lookup (servers c j) = log_lookup (servers c i) \<and>
        (\<forall>n x. log_lookup (servers c i) n = Some x \<longrightarrow>
           0 < uint (ety_term x) \<and> uint (ety_term x) \<le> current_term (servers c j)))"

inductive network_reach ::
  "contiki \<Rightarrow> ('u \<Rightarrow> (int \<times> msg_appendentries) set) \<Rightarrow> int list \<Rightarrow> 'u cluster \<Rightarrow> bool"
  for ct :: contiki and sent :: "'u \<Rightarrow> (int \<times> msg_appendentries) set" and ids :: "int list" where
  init: "network_init sent ids c \<Longrightarrow> network_reach ct sent ids c"
| step: "network_reach ct sent ids c \<Longrightarrow> network_step ct sent ids c c' \<Longrightarrow> network_reach ct sent ids c'"

lemma network_reach_cluster: "network_reach ct sent ids c \<Longrightarrow> cluster_reach ct ids c"
  by (induction rule: network_reach.induct)
     (auto simp: network_init_def intro: cluster_reach.init cluster_reach.step cluster_step.intros
       elim!: network_step.cases)

section \<open>The invariant\<close>

text \<open>A server has been elected in a term.\<close>

definition won :: "int list \<Rightarrow> 'u cluster \<Rightarrow> int \<Rightarrow> int \<Rightarrow> bool" where
  "won ids c t i \<longleftrightarrow>
     raft_votes_is_majority (int (length ids)) (int (card (supporters ids (cast c) t i)))"

lemma won_unique:
  assumes "cluster_inv ids c" "won ids c t i" "won ids c t j"
  shows "i = j"
proof -
  have "d = d'" if "(v, t, d) \<in> cast c" "(v, t, d') \<in> cast c" for v d d'
    using that assms(1) unfolding cluster_inv_def cast_inv_def by blast
  from majority.one_winner [of ids "\<lambda>v k. (v, t, k) \<in> cast c", OF this] assms(2,3)
  show ?thesis by (simp add: won_def supporters_def)
qed

lemma won_leader:
  "cluster_inv ids c \<Longrightarrow> i \<in> set ids \<Longrightarrow> me_state (servers c i) = RAFT_STATE_LEADER \<Longrightarrow>
     won ids c (current_term (servers c i)) i"
  by (simp add: cluster_inv_def elected_inv_def won_def)

lemma won_advance: "won ids c t i \<Longrightarrow> won ids (advance c j inp out s') t i"
  by (auto simp: won_def intro: supporters_mono [of "cast c"])

text \<open>
  Where the entries of the history come from: an entry of a term was there before anybody could stand
  for election in that term, or the server elected in that term created it, and while it is the leader
  its log reaches that far.
\<close>

definition created :: "int list \<Rightarrow> 'u cluster \<Rightarrow> int \<Rightarrow> int \<Rightarrow> bool" where
  "created ids c t j \<longleftrightarrow>
     (\<forall>l \<in> set ids. t \<le> current_term (servers c l) \<and>
        (t = current_term (servers c l) \<longrightarrow>
           me_state (servers c l) \<noteq> RAFT_STATE_CANDIDATE \<and> me_state (servers c l) \<noteq> RAFT_STATE_LEADER)) \<or>
     (\<exists>l \<in> set ids. won ids c t l \<and> t \<le> current_term (servers c l) \<and>
        (t = current_term (servers c l) \<longrightarrow>
           me_state (servers c l) \<noteq> RAFT_STATE_CANDIDATE \<and>
           (me_state (servers c l) = RAFT_STATE_LEADER \<longrightarrow> j \<le> raft_get_current_idx (servers c l))))"

definition matching_inv ::
  "('u \<Rightarrow> (int \<times> msg_appendentries) set) \<Rightarrow> int list \<Rightarrow> history \<Rightarrow> 'u cluster \<Rightarrow> bool" where
  "matching_inv sent ids H c \<longleftrightarrow>
     history_ok H \<and>
     (\<forall>i \<in> set ids. ready sent (servers c i) \<and> log_wf (servers c i) \<and> chained H (log_lookup (servers c i)) \<and>
        (\<forall>n ae. (n, ae) \<in> sent (udata (servers c i)) \<longrightarrow>
           n \<noteq> i \<and> message_ok H ae \<and> won ids c (ae_term ae) i)) \<and>
     (\<forall>t j. H (t, j) \<noteq> None \<longrightarrow> created ids c t j)"

section \<open>The server that moves\<close>

lemma ready_step:
  assumes "ready sent s" "server_progress s s'" "in_int (current_term s')"
    and "quiet s s' \<or> campaign s s' \<or> (\<exists>node. vote_counted s node s')"
  shows "ready sent s'"
  using assms
  by (auto simp: ready_def server_progress_def vote_step_def quiet_def campaign_def vote_counted_def views
      split: if_splits)

text \<open>Terms stay values of \<^verbatim>\<open>int\<close>.\<close>

lemma genuine_in_int: "genuine sent ids c i inp \<Longrightarrow> input_term inp = Some t \<Longrightarrow> in_int t"
  by (auto simp: genuine_def input_term_def split: server_input.splits)

lemma created_step:
  assumes "created ids c t j" "current_term (servers c i) \<le> current_term s'"
    and role: "quiet (servers c i) s' \<or> campaign (servers c i) s' \<or> (\<exists>node. vote_counted (servers c i) node s')"
    and lead: "me_state (servers c i) = RAFT_STATE_LEADER \<Longrightarrow> me_state s' = RAFT_STATE_LEADER \<Longrightarrow>
      current_term s' = current_term (servers c i) \<Longrightarrow>
      raft_get_current_idx (servers c i) \<le> raft_get_current_idx s'"
  shows "created ids (advance c i inp out s') t j"
proof -
  let ?s = "servers c i"
  have kept: "me_state ?s = me_state s' \<and> current_term ?s = t"
    if "t \<le> current_term ?s" "t = current_term s'" "me_state ?s \<noteq> RAFT_STATE_CANDIDATE"
      "me_state s' = RAFT_STATE_CANDIDATE \<or> me_state s' = RAFT_STATE_LEADER"
    using role that assms(2) by (auto simp: quiet_def campaign_def vote_counted_def)
  have stays: "t \<le> current_term s'" if "t \<le> current_term ?s" using that assms(2) by simp
  from assms(1) [unfolded created_def] consider
    (old) "\<forall>l \<in> set ids. t \<le> current_term (servers c l) \<and> (t = current_term (servers c l) \<longrightarrow>
      me_state (servers c l) \<noteq> RAFT_STATE_CANDIDATE \<and> me_state (servers c l) \<noteq> RAFT_STATE_LEADER)"
    | (new) l where "l \<in> set ids" "won ids c t l" "t \<le> current_term (servers c l)"
      "t = current_term (servers c l) \<longrightarrow> me_state (servers c l) \<noteq> RAFT_STATE_CANDIDATE \<and>
        (me_state (servers c l) = RAFT_STATE_LEADER \<longrightarrow> j \<le> raft_get_current_idx (servers c l))"
    by blast
  then show ?thesis
  proof cases
    case old
    have "t \<le> current_term s' \<and> (t = current_term s' \<longrightarrow>
        me_state s' \<noteq> RAFT_STATE_CANDIDATE \<and> me_state s' \<noteq> RAFT_STATE_LEADER)" if "i \<in> set ids"
      using old that stays kept assms(2) by (metis order_antisym)
    with old show ?thesis by (simp add: created_def)
  next
    case (new l)
    have "t = current_term s' \<longrightarrow> me_state s' \<noteq> RAFT_STATE_CANDIDATE \<and>
        (me_state s' = RAFT_STATE_LEADER \<longrightarrow> j \<le> raft_get_current_idx s')" if "l = i"
      using new(3,4) that kept lead assms(2) by (metis order_antisym order_trans)
    with new stays won_advance [OF new(2)] show ?thesis
      unfolding created_def by (intro disjI2 bexI [of _ l]) auto
  qed
qed

section \<open>One step\<close>

text \<open>What a step does to the log: nothing, or what a message of the history says, or a leader appends.\<close>

lemma network_step_log:
  assumes ct: "contiki_ok ct" and clu: "cluster_inv ids c" and inv: "matching_inv sent ids H c"
    and i: "i \<in> set ids" and adm: "admissible c i inp" and gen: "genuine sent ids c i inp"
    and step: "server_step ct (servers c i) inp out s'"
  obtains (kept) "log_of s' = log_of (servers c i)"
  | (followed) sender ae where "inp = Appendentries sender ae" "follows H (me_cb (servers c i)) {} s'"
      "me_state s' \<noteq> RAFT_STATE_CANDIDATE" "me_state s' \<noteq> RAFT_STATE_LEADER"
  | (led) x ety cr where "inp = Client_Entry ety cr" "me_state (servers c i) = RAFT_STATE_LEADER" "appended (servers c i) x s'"
      "ety_term x = to_unsigned (current_term (servers c i))"
      "ety_idx x = to_unsigned (raft_get_current_idx (servers c i) + 1)"
proof -
  let ?s = "servers c i"
  have s: "ready sent ?s" "log_wf ?s" "chained H (log_lookup ?s)" and H: "history_ok H"
    using inv i by (simp_all add: matching_inv_def)
  show thesis
    using step
  proof cases
    case (appendentries sender ae e ar)
    have gen': "sender \<in> set ids" "(i, ae) \<in> sent (udata (servers c sender))" "deliverable ?s ae"
      using gen appendentries(1) by (simp_all add: genuine_def)
    with inv have msg: "i \<noteq> sender" "message_ok H ae" "won ids c (ae_term ae) sender"
      by (auto simp: matching_inv_def)
    have "\<forall>e \<in> set (entries ae). \<not> raft_entry_is_cfg_change e"
      using adm appendentries(1) by (simp add: admissible_def plain_input_def)
    then have "post (raft_recv_appendentries ct ?s node ae) (\<lambda>(e, r, s').
        follows H (me_cb ?s) {} s' \<and> took ae (commit_idx ?s) r s')" for node
      using s gen'(3) msg(2)
      by (intro appendentries_follows [OF ct H]) (simp_all add: follows_def ready_def spares_def)
    from postD [OF this appendentries(3)] have fol: "follows H (me_cb ?s) {} s'" by simp
    have "\<not> (raft_is_leader ?s \<and> ae_term ae = current_term ?s)"
      using won_unique [OF clu msg(3)] won_leader [OF clu i] msg(1)
      by (auto simp: raft_is_leader_def raft_get_state_def)
    from postD [OF appendentries_other_term [OF this] appendentries(3)]
    show thesis using kept followed [OF appendentries(1) fol] by auto
  next
    case (client_entry ety cr e ety' cr')
    have "\<not> raft_entry_is_cfg_change ety" "offer_ok (me_cb ?s)"
      using adm client_entry(1) s(1) by (simp_all add: admissible_def plain_input_def ready_def)
    from postD [OF recv_entry_appends [OF ct s(2) this(2,1)] client_entry(3)] show thesis
      using kept client_entry(1) by (auto simp: raft_is_leader_def raft_get_state_def intro: led)
  qed (use kept server_step_log [OF step] in simp_all)
qed

lemma new_message_ok:
  assumes "cluster_inv ids c" "i \<in> set ids" "leader_message (servers c i) n ae" "log_wf (servers c i)"
    and "chained H (log_lookup (servers c i))" "ready sent (servers c i)"
  shows "n \<noteq> i \<and> message_ok H ae \<and> won ids c (ae_term ae) i"
proof -
  let ?s = "servers c i"
  have mem: "member_of ids i ?s" using assms(1,2) by (simp add: cluster_inv_def members_inv_def)
  obtain a where a: "a \<in> set (nodes_list ?s)" "me_node ?s \<noteq> Some a" "node_id (nodes_mem ?s a) = n"
    using assms(3) by (auto simp: leader_message_def)
  have "n \<noteq> i" using mem a member_inj [OF mem] by (auto simp: member_of_def inj_on_def)
  moreover have "message_ok H ae"
    using assms(6) by (intro leader_message_ok [OF assms(3-5)]) (simp add: ready_def)
  moreover have "ae_term ae = current_term ?s" "me_state ?s = RAFT_STATE_LEADER"
    using assms(3) by (auto simp: leader_message_def ae_at_def)
  ultimately show ?thesis using won_leader [OF assms(1,2)] by simp
qed

lemma matching_inv_advance:
  assumes inv: "matching_inv sent ids H c" and H': "history_ok H'" "H \<subseteq>\<^sub>m H'"
    and clu: "cluster_inv ids (advance c i inp out s')" and i: "i \<in> set ids"
    and s': "ready sent s'" "log_wf s'" "chained H' (log_lookup s')" "said sent (servers c i) s'"
    and new: "\<And>t j. H' (t, j) \<noteq> None \<Longrightarrow> created ids (advance c i inp out s') t j"
  shows "matching_inv sent ids H' (advance c i inp out s')"
proof -
  let ?c = "advance c i inp out s'"
  have old: "ready sent (servers c j)" "log_wf (servers c j)" "chained H' (log_lookup (servers c j))"
    "\<And>n ae. (n, ae) \<in> sent (udata (servers c j)) \<Longrightarrow> n \<noteq> j \<and> message_ok H' ae \<and> won ids ?c (ae_term ae) j"
    if "j \<in> set ids" for j
    using inv that H'(2)
    by (auto simp: matching_inv_def intro: chained_mono [of H] message_ok_mono won_advance)
  have "n \<noteq> i \<and> message_ok H' ae \<and> won ids ?c (ae_term ae) i" if "(n, ae) \<in> sent (udata s')" for n ae
  proof (cases "(n, ae) \<in> sent (udata (servers c i))")
    case True
    with old [OF i] show ?thesis by blast
  next
    case False
    with that s'(4) have "leader_message s' n ae" by (auto simp: said_def)
    with new_message_ok [OF clu i] s'(1-3) show ?thesis by simp
  qed
  with old s' H'(1) new show ?thesis by (auto simp: matching_inv_def)
qed

text \<open>The entry that a leader appends is a new one of its term.\<close>

lemma created_fresh:
  assumes "cluster_inv ids c" "created ids c (current_term (servers c i)) j" "i \<in> set ids"
    and "me_state (servers c i) = RAFT_STATE_LEADER"
  shows "j \<le> raft_get_current_idx (servers c i)"
  using assms won_unique [OF assms(1) won_leader [OF assms(1,3,4)]] unfolding created_def by blast

lemma uint_term:
  assumes "0 \<le> t" "in_int t"
  shows "uint (to_unsigned t) = t"
  using assms by (simp add: to_unsigned_def in_int_iff uint_word_of_int)

text \<open>
  How the history grows with a step: not at all, unless a leader appends an entry, and then by that entry.
\<close>

definition grown ::
  "history \<Rightarrow> history \<Rightarrow> 'u raft_server \<Rightarrow> server_input \<Rightarrow> 'u raft_server \<Rightarrow> bool" where
  "grown H H' s inp s' \<longleftrightarrow>
     H' = H \<and>
       (log_of s' = log_of s \<or>
        (\<exists>sender ae. inp = Appendentries sender ae) \<and>
          me_state s' \<noteq> RAFT_STATE_CANDIDATE \<and> me_state s' \<noteq> RAFT_STATE_LEADER) \<or>
     (\<exists>x ety cr. inp = Client_Entry ety cr \<and> me_state s = RAFT_STATE_LEADER \<and> appended s x s' \<and> uint (ety_term x) = current_term s \<and>
        H (current_term s, raft_get_current_idx s + 1) = None \<and>
        H' = H((current_term s, raft_get_current_idx s + 1) \<mapsto>
          (x, case log_lookup s (raft_get_current_idx s) of Some y \<Rightarrow> ety_term y | None \<Rightarrow> 0)))"

lemma grown_le: "grown H H' s inp s' \<Longrightarrow> H \<subseteq>\<^sub>m H'"
  by (auto simp: grown_def map_le_def)

text \<open>A leader's new entry extends the history by one.\<close>

lemma lead_extends:
  assumes clu: "cluster_inv ids c" and inv: "matching_inv sent ids H c" and i: "i \<in> set ids"
    and lead: "me_state (servers c i) = RAFT_STATE_LEADER" and app: "appended (servers c i) x s'"
    and x: "ety_term x = to_unsigned (current_term (servers c i))"
      "ety_idx x = to_unsigned (raft_get_current_idx (servers c i) + 1)"
  defines "p \<equiv> (case log_lookup (servers c i) (raft_get_current_idx (servers c i)) of Some y \<Rightarrow> ety_term y | None \<Rightarrow> 0)"
  defines "H' \<equiv> H((current_term (servers c i), raft_get_current_idx (servers c i) + 1) \<mapsto> (x, p))"
  shows "uint (ety_term x) = current_term (servers c i)"
    "H (current_term (servers c i), raft_get_current_idx (servers c i) + 1) = None"
    "H \<subseteq>\<^sub>m H'" "history_ok H'" "chained H' (log_lookup s')"
proof -
  let ?s = "servers c i"
  let ?n = "raft_get_current_idx ?s + 1" and ?T = "current_term ?s"
  have s: "ready sent ?s" "log_wf ?s" "chained H (log_lookup ?s)" and H: "history_ok H"
    and made: "\<And>t j. H (t, j) \<noteq> None \<Longrightarrow> created ids c t j"
    using inv i by (auto simp: matching_inv_def)
  have rdy: "0 \<le> ?T" "in_int ?T" using s(1) by (simp_all add: ready_def)
  show T: "uint (ety_term x) = ?T" using uint_term [OF rdy] x(1) by simp
  have pos: "0 < ?T" using s(1) lead by (simp add: ready_def)
  show none: "H (?T, ?n) = None" using made created_fresh [OF clu _ i lead, of ?n] by fastforce
  then show le: "H \<subseteq>\<^sub>m H'" by (auto simp: map_le_def H'_def)
  have n: "0 < ?n" using current_idx_range [OF s(2)] by simp
  show "history_ok H'" using H T pos n x(2) by (simp add: history_ok_def H'_def)
  have p0: "p = 0" if "raft_get_current_idx ?s = 0"
    using that lookup_range [OF s(2), of 0] current_idx_range [OF s(2)] by (simp add: p_def split: option.split)
  show "chained H' (log_lookup s')"
    by (rule appended_chained [OF s(2) chained_mono [OF s(3) _ le] app, of p])
       (use T p0 in \<open>auto simp: p_def H'_def\<close>)
qed

lemma matching_inv_step:
  assumes ct: "contiki_ok ct" and clu: "cluster_inv ids c" and inv: "matching_inv sent ids H c"
    and i: "i \<in> set ids" and adm: "admissible c i inp" and gen: "genuine sent ids c i inp"
    and step: "server_step ct (servers c i) inp out s'"
  shows "\<exists>H'. matching_inv sent ids H' (advance c i inp out s') \<and> grown H H' (servers c i) inp s'"
proof -
  let ?s = "servers c i" and ?c = "advance c i inp out s'"
  have s: "ready sent ?s" "log_wf ?s" "chained H (log_lookup ?s)" and H: "history_ok H"
    and made: "\<And>t j. H (t, j) \<noteq> None \<Longrightarrow> created ids c t j"
    using inv i by (auto simp: matching_inv_def)
  have rdy: "records sent (me_cb ?s)" "snapshot_last_idx ?s = 0" "0 \<le> current_term ?s" "in_int (current_term ?s)"
    using s(1) by (simp_all add: ready_def)
  have mem: "member_of ids i ?s" "plain_log ?s" and plain: "plain_input inp"
    using clu i adm by (simp_all add: cluster_inv_def members_inv_def admissible_def)
  have voting: "raft_get_num_voting_nodes ?s \<noteq> 1"
    using member_num_voting [OF mem(1)] clu by (simp add: cluster_inv_def)
  have role: "quiet ?s s' \<or> campaign ?s s' \<or> (\<exists>node. vote_counted ?s node s')"
    using server_step_roles [OF ct step mem(2) plain voting] by blast
  note prog = server_step_progress [OF step]
  then have up: "current_term ?s \<le> current_term s'" by (simp add: server_progress_def vote_step_def)
  have ready: "ready sent s'" by (rule ready_step [OF s(1) prog server_step_in_int [OF step voting rdy(4) genuine_in_int [OF gen]] role])
  have said: "said sent ?s s'" by (rule server_step_said [OF ct step s(2) rdy(2,1) mem(2) plain voting])
  have clu': "cluster_inv ids ?c" by (rule cluster_inv_step [OF clu ct i adm step])
  note advance = matching_inv_advance [OF inv _ _ clu' i ready _ _ said]
  note creates = created_step [OF made up role]
  show ?thesis
  proof (rule network_step_log [OF ct clu inv i adm gen step])
    assume kept: "log_of s' = log_of ?s"
    note same = log_of_window [OF kept]
    have "matching_inv sent ids H ?c"
      by (rule advance [OF H map_le_refl]) (use same s creates in auto)
    with kept show ?thesis by (auto simp: grown_def)
  next
    fix sender ae
    assume fol: "inp = Appendentries sender ae" "follows H (me_cb ?s) {} s'" "me_state s' \<noteq> RAFT_STATE_CANDIDATE" "me_state s' \<noteq> RAFT_STATE_LEADER"
    then have "matching_inv sent ids H ?c"
      by (intro advance [OF H map_le_refl]) (use creates in \<open>auto simp: follows_def\<close>)
    with fol show ?thesis by (auto simp: grown_def)
  next
    fix x ety cr
    assume entry: "inp = Client_Entry ety cr" and lead: "me_state ?s = RAFT_STATE_LEADER" and app: "appended ?s x s'"
      and x: "ety_term x = to_unsigned (current_term ?s)"
        "ety_idx x = to_unsigned (raft_get_current_idx ?s + 1)"
    let ?n = "raft_get_current_idx ?s + 1" and ?T = "current_term ?s"
    define p where "p = (case log_lookup ?s (raft_get_current_idx ?s) of Some y \<Rightarrow> ety_term y | None \<Rightarrow> 0)"
    let ?H = "H((?T, ?n) \<mapsto> (x, p))"
    note ext = lead_extends [OF clu inv i lead app x, folded p_def]
    have idx: "log_wf s'" "raft_get_current_idx s' = ?n" using app by (simp_all add: appended_def)
    have "created ids ?c t j" if "?H (t, j) \<noteq> None" for t j
    proof (cases "(t, j) = (?T, ?n)")
      case True
      have "me_state s' \<noteq> RAFT_STATE_CANDIDATE" if "current_term s' = ?T"
        using role lead that by (auto simp: quiet_def campaign_def vote_counted_def)
      with True i up idx won_advance [OF won_leader [OF clu i lead]] show ?thesis
        unfolding created_def by (intro disjI2 bexI [of _ i]) auto
    next
      case False
      with that have "H (t, j) \<noteq> None" by (auto split: if_splits)
      then show ?thesis by (rule creates) (use idx in simp)
    qed
    then have "matching_inv sent ids ?H ?c" by (intro advance [OF ext(4,3) idx(1) ext(5)])
    moreover have "grown H ?H ?s inp s'" using entry lead app ext(1,2) by (auto simp: grown_def p_def)
    ultimately show ?thesis by blast
  qed
qed

text \<open>At the start the history is the log that the servers have in common.\<close>

definition log_history :: "(int \<Rightarrow> raft_entry option) \<Rightarrow> history" where
  "log_history L = (\<lambda>(t, j).
     case L j of
       Some x \<Rightarrow>
         if uint (ety_term x) = t
         then Some (x, case L (j - 1) of Some y \<Rightarrow> ety_term y | None \<Rightarrow> 0) else None
     | None \<Rightarrow> None)"

lemma log_history_chained: "L 0 = None \<Longrightarrow> chained (log_history L) L"
  by (auto simp: chained_def log_history_def split: option.splits)

lemma lookup_idx: "log_lookup s i = Some x \<Longrightarrow> ety_idx x = to_unsigned i"
  by (auto simp: log_lookup_def log_get_at_idx_def find_idx_def find_Some_iff Let_def split: if_splits)

lemma network_init_matching:
  assumes "network_init sent ids c" "k \<in> set ids"
  shows "matching_inv sent ids (log_history (log_lookup (servers c k))) c"
proof -
  have fol: "\<forall>i \<in> set ids. raft_is_follower (servers c i)"
    using assms by (simp add: network_init_def cluster_init_def)
  let ?L = "log_lookup (servers c k)"
  have wf: "log_wf (servers c k)" and same: "\<And>i. i \<in> set ids \<Longrightarrow> log_lookup (servers c i) = ?L"
    and terms: "\<And>i n x. i \<in> set ids \<Longrightarrow> ?L n = Some x \<Longrightarrow>
      0 < uint (ety_term x) \<and> uint (ety_term x) \<le> current_term (servers c i)"
    using assms unfolding network_init_def by blast+
  have pos: "0 < n" if "?L n = Some x" for n x
    using that lookup_range [OF wf, of n] current_idx_range(5) [OF wf] by simp
  have "history_ok (log_history ?L)"
    unfolding history_ok_def log_history_def
    using pos terms [OF assms(2)] lookup_idx by (auto split: option.splits if_splits)
  moreover have "chained (log_history ?L) ?L"
    using pos by (intro log_history_chained) (metis less_irrefl not_Some_eq)
  moreover have "created ids c t j" if "log_history ?L (t, j) \<noteq> None" for t j
    using that terms fol
    by (auto simp: created_def log_history_def raft_is_follower_def raft_get_state_def
        split: option.splits if_splits)
  ultimately show ?thesis
    using assms(1) same by (simp add: matching_inv_def network_init_def)
qed

lemma network_reach_matching:
  assumes "network_reach ct sent ids c" "contiki_ok ct"
  shows "\<exists>H. matching_inv sent ids H c"
  using assms(1)
proof (induction rule: network_reach.induct)
  case (init c)
  then have "2 \<le> length ids" by (simp add: network_init_def cluster_init_def)
  then obtain k where "k \<in> set ids" by (cases ids) auto
  with init network_init_matching show ?case by blast
next
  case (step c c')
  have "cluster_inv ids c" by (rule cluster_reach_inv [OF network_reach_cluster [OF step(1)] assms(2)])
  with step(2,3) matching_inv_step [OF assms(2)] show ?case by (auto elim!: network_step.cases) blast
qed

section \<open>Runs\<close>

text \<open>A sequence of inputs, each for the server it is for, as long as the network can deliver them.\<close>

fun run_network ::
  "contiki \<Rightarrow> ('u \<Rightarrow> (int \<times> msg_appendentries) set) \<Rightarrow> int list \<Rightarrow> 'u cluster \<Rightarrow> (int \<times> server_input) list \<Rightarrow>
   'u cluster option" where
  "run_network ct sent ids c [] = Some c"
| "run_network ct sent ids c ((i, inp) # xs) =
     (if i \<in> set ids \<and> admissible c i inp \<and> genuine sent ids c i inp
      then (case run_step ct (servers c i) inp of
              Ok (out, s') \<Rightarrow> run_network ct sent ids (advance c i inp out s') xs
            | Fault f \<Rightarrow> None)
      else None)"

lemma run_network_reach:
  "network_reach ct sent ids c \<Longrightarrow> run_network ct sent ids c xs = Some c' \<Longrightarrow> network_reach ct sent ids c'"
proof (induction ct sent ids c xs rule: run_network.induct)
  case (2 ct sent ids c i inp xs)
  from "2.prems"(2) obtain out s' where ok: "i \<in> set ids" "admissible c i inp" "genuine sent ids c i inp"
    and run: "run_step ct (servers c i) inp = Ok (out, s')"
    and rest: "run_network ct sent ids (advance c i inp out s') xs = Some c'"
    by (auto split: if_splits result.splits)
  from network_reach.step [OF "2.prems"(1) network_step.intros [OF ok run [unfolded run_step_iff]]]
  show ?case using "2.IH" [OF _ run refl _ rest] ok by simp
qed simp

lemma run_network_step:
  "run_network ct sent ids c [(i, inp)] = Some c' \<Longrightarrow> network_step ct sent ids c c'"
  by (auto simp: run_step_iff split: if_splits result.splits intro: network_step.intros)

lemma deliverable_code [code]:
  "deliverable s ae \<longleftrightarrow>
     (prev_log_idx ae = 0 \<longrightarrow> dropped s = 0 \<or> entries ae = []) \<and>
     (\<forall>k \<in> set [0..<Suc (length (entries ae))].
        case log_lookup s (prev_log_idx ae + int k) of
          Some y \<Rightarrow> ety_term y \<noteq> pred_term ae k \<longrightarrow>
            prev_log_idx ae + int k = raft_get_current_idx s \<and> commit_idx s < raft_get_current_idx s
        | None \<Rightarrow> True)"
  unfolding deliverable_def by (auto simp del: upt_Suc simp: less_Suc_eq_le split: option.splits)

lemma admissible_code [code]:
  "admissible c i inp \<longleftrightarrow>
     plain_input inp \<and>
     (case inp of
        Requestvote sender vr \<Rightarrow> candidate_id vr = sender \<and> sender \<noteq> -1
      | Requestvote_Response sender r \<Rightarrow> (sender, i, r) \<in> replies c
      | _ \<Rightarrow> True)"
  by (cases inp) (auto simp: admissible_def)

text \<open>
  Three servers with the same two entries of the first term and callbacks that put every message on the
  network.  The first server is elected in term 2 with the vote of the second, takes an entry from a
  client, and the second server receives it.
\<close>

definition net_cbs :: "(int \<times> msg_appendentries) list raft_cbs" where
  "net_cbs =
     no_cbs\<lparr>cb_send_requestvote := Some (\<lambda>u n m. (0, u)),
             cb_send_appendentries := Some (\<lambda>u n m. (0, (node_id n, m) # u))\<rparr>"

definition net_member :: "int \<Rightarrow> (int \<times> msg_appendentries) list raft_server" where
  "net_member i =
     (static_storage [])\<lparr>current_term := 1, voted_for := -1,
       me_log := \<lparr>log_size = 10, count = 2, base = 0, entries_list = [0, 1], log_cb = True\<rparr>,
       me_state := RAFT_STATE_FOLLOWER, nodes_list := [0, 1, 2], num_nodes := 3,
       election_timeout := 1000, election_timeout_rand := 1500, request_timeout := 200,
       me_cb := net_cbs, me_node := Some (nat (i - 1)), voting_cfg_change_log_idx := -1,
       entries_mem := (\<lambda>a. sample_entry 1 (if a = 0 then 1 else 2)), entries_used := {0, 1},
       nodes_mem := (\<lambda>a. \<lparr>next_idx = 3, match_idx = 0, flags = 2, node_id = int a + 1\<rparr>),
       nodes_used := {0, 1, 2}\<rparr>"

definition net_cluster :: "(int \<times> msg_appendentries) list cluster" where
  "net_cluster = \<lparr>servers = net_member, replies = {}, cast = {}\<rparr>"

definition net_election :: "(int \<times> server_input) list" where
  "net_election =
     [(1, Tick 1500),
      (2, Requestvote 1 \<lparr>rv_term = 2, candidate_id = 1, last_log_idx = 2, last_log_term = 1\<rparr>),
      (1, Requestvote_Response 2 \<lparr>rvr_term = 2, vote_granted = 1\<rparr>)]"

definition net_entry :: "int \<times> server_input" where
  "net_entry = (1, Client_Entry (sample_entry 0 0) \<lparr>er_id = 0, er_term = 0, er_idx = 0\<rparr>)"

definition net_delivery :: "int \<times> server_input" where
  "net_delivery =
     (2, Appendentries 1
        \<lparr>ae_term = 2, prev_log_idx = 2, prev_log_term = 1, leader_commit = 0, n_entries = 1,
         entries = [sample_entry 2 3]\<rparr>)"

lemma net_init: "network_init set [1, 2, 3] net_cluster"
proof -
  have same: "log_of (net_member i) = log_of (net_member j)" for i j by (simp add: net_member_def views)
  have log: "log_wf (net_member i)" "window (net_member i) = [sample_entry 1 1, sample_entry 1 2]" "dropped (net_member i) = 0"
    "raft_get_current_idx (net_member i) = 2" for i
    by (simp_all add: net_member_def log_wf_def window_def dropped_def raft_get_current_idx_def
      log_get_current_idx_def log_count_def MAX_ENTRIES_def in_int_iff sample_entry_def less_Suc_eq nth_Cons'
        numeral_2_eq_2 [symmetric] less_2_cases_iff)
  have "plain_log (net_member i)" for i
    by (auto simp: plain_log_def pool_ok_def MAX_ENTRIES_def raft_entry_is_cfg_change_def sample_entry_def net_member_def)
  moreover have "member_of [1, 2, 3] i (net_member i)" if "i \<in> {1, 2, 3}" for i
    using that by (auto simp: member_of_def node_read_defs net_member_def node_ids_def)
  ultimately have "cluster_init [1, 2, 3] net_cluster"
    by (auto simp: cluster_init_def net_cluster_def cast_of_def raft_is_follower_def raft_get_state_def net_member_def)
  moreover have "0 < uint (ety_term x) \<and> uint (ety_term x) \<le> 1" if "log_lookup (net_member i) n = Some x" for i n x
  proof -
    from that have "x \<in> set (window (net_member i))"
      using log(1,2,3,4) [of i] by (auto simp: log_lookup_wf nat_less_iff nth_Cons split: if_splits nat.splits)
    then show ?thesis using log(2) by (auto simp: sample_entry_def)
  qed
  moreover have "ready set (net_member i)" "current_term (net_member i) = 1" "udata (net_member i) = []" for i
    by (auto simp: ready_def net_member_def records_def net_cbs_def no_cbs_def offer_ok_def in_int_iff
        static_storage_def)
  ultimately show ?thesis
    using log(1) log_of_window [OF same] by (simp add: network_init_def net_cluster_def)
qed

lemma net_run:
  "case run_network ref_contiki set [1, 2, 3] net_cluster net_election of
     None \<Rightarrow> False
   | Some c \<Rightarrow> raft_is_leader (servers c 1) \<and> raft_get_current_idx (servers c 1) = 2 \<and>
      (case run_network ref_contiki set [1, 2, 3] c [net_entry] of
         None \<Rightarrow> False
       | Some c' \<Rightarrow> raft_is_leader (servers c' 1) \<and> raft_get_current_idx (servers c' 1) = 3 \<and>
          (case run_network ref_contiki set [1, 2, 3] c' [net_delivery] of
             None \<Rightarrow> False
           | Some c'' \<Rightarrow>
               log_lookup (servers c'' 1) 3 = Some (sample_entry 2 3) \<and> dropped (servers c'' 1) = 0 \<and>
               log_lookup (servers c'' 2) 3 = Some (sample_entry 2 3) \<and> dropped (servers c'' 2) = 0))"
  by code_simp

lemma net_states:
  obtains c c' c'' where "network_reach ref_contiki set [1, 2, 3] c"
    "network_step ref_contiki set [1, 2, 3] c c'" "network_reach ref_contiki set [1, 2, 3] c''"
    "raft_is_leader (servers c 1)" "raft_get_current_idx (servers c 1) = 2"
    "raft_is_leader (servers c' 1)" "raft_get_current_idx (servers c' 1) = 3"
    "log_lookup (servers c'' 1) 3 = Some (sample_entry 2 3)" "dropped (servers c'' 1) = 0"
    "log_lookup (servers c'' 2) 3 = Some (sample_entry 2 3)" "dropped (servers c'' 2) = 0"
proof -
  obtain c c' c'' where run: "run_network ref_contiki set [1, 2, 3] net_cluster net_election = Some c"
    "run_network ref_contiki set [1, 2, 3] c [net_entry] = Some c'"
    "run_network ref_contiki set [1, 2, 3] c' [net_delivery] = Some c''"
    using net_run by (auto simp del: run_network.simps split: option.splits)
  note reach = run_network_reach [OF network_reach.init [OF net_init] run(1)]
  note reach'' = run_network_reach [OF run_network_reach [OF reach run(2)] run(3)]
  have "network_step ref_contiki set [1, 2, 3] c c'"
    by (rule run_network_step) (use run(2) in \<open>simp add: net_entry_def del: run_network.simps\<close>)
  with that [OF reach _ reach''] net_run run show thesis by (simp del: run_network.simps)
qed

section \<open>Properties\<close>

text \<open>
  C4: Log matching.  In every reachable state of a cluster in which entries are replicated without
  configuration changes, two servers whose logs have entries of the same term at an index have the same
  entries at every index up to it, as far as both still keep them.  Messages are ones that leaders sent; a
  delivery with a conflict before the last entry of the log or at a committed index, or of a first message
  to a log that has given up its first entry, does not occur.
\<close>

theorem log_matching:
  assumes "contiki_ok ct" "network_reach ct sent ids c" "i \<in> set ids" "j \<in> set ids"
    and "log_lookup (servers c i) n = Some x" "log_lookup (servers c j) n = Some y" "ety_term x = ety_term y"
    and "m \<le> n" "dropped (servers c i) < m" "dropped (servers c j) < m"
  shows "log_lookup (servers c i) m = log_lookup (servers c j) m"
proof -
  obtain H where "matching_inv sent ids H c" using network_reach_matching [OF assms(2,1)] by blast
  then have inv: "log_wf (servers c k)" "chained H (log_lookup (servers c k))" if "k \<in> set ids" for k
    using that by (simp_all add: matching_inv_def)
  note range = lookup_range [OF inv(1)]
  have "n \<le> raft_get_current_idx (servers c i)" "n \<le> raft_get_current_idx (servers c j)"
    using range [OF assms(3), of n] range [OF assms(4), of n] assms(5,6) by simp_all
  with range assms(9,10) assms(3,4)
  show ?thesis
    by (intro chained_agree [OF inv(2) [OF assms(3)] inv(2) [OF assms(4)] assms(5-7) _ assms(8)]) auto
qed

theorem log_matching_witness:
  "\<exists>c. network_reach ref_contiki set [1, 2, 3] c \<and> log_lookup (servers c 1) 3 = Some (sample_entry 2 3) \<and>
     (\<forall>m \<in> {1..3}. log_lookup (servers c 1) m = log_lookup (servers c 2) m)"
proof -
  obtain c where c: "network_reach ref_contiki set [1, 2, 3] c"
    "log_lookup (servers c 1) 3 = Some (sample_entry 2 3)" "dropped (servers c 1) = 0"
    "log_lookup (servers c 2) 3 = Some (sample_entry 2 3)" "dropped (servers c 2) = 0"
    by (rule net_states) blast
  have "log_lookup (servers c 1) m = log_lookup (servers c 2) m" if "m \<in> {1..3}" for m
    by (rule log_matching [OF ref_contiki_ok c(1) _ _ c(2,4)]) (use that c(3,5) in auto)
  with c show ?thesis by blast
qed

text \<open>
  C5: Leader append-only.  A step of the cluster after which a leader is still one does not shorten its
  log and does not change an entry the leader had: what it still keeps at an old index is what it had there.
\<close>

theorem leader_append_only:
  assumes "contiki_ok ct" "network_reach ct sent ids c" "network_step ct sent ids c c'" "i \<in> set ids"
    and "raft_is_leader (servers c i)" "raft_is_leader (servers c' i)"
  shows "raft_get_current_idx (servers c i) \<le> raft_get_current_idx (servers c' i) \<and>
    (\<forall>n x. n \<le> raft_get_current_idx (servers c i) \<and> log_lookup (servers c' i) n = Some x \<longrightarrow>
       log_lookup (servers c i) n = Some x)"
proof -
  have clu: "cluster_inv ids c" by (rule cluster_reach_inv [OF network_reach_cluster [OF assms(2)] assms(1)])
  obtain H where inv: "matching_inv sent ids H c" using network_reach_matching [OF assms(2,1)] by blast
  from assms(3) show ?thesis
  proof cases
    case (1 j inp out s')
    show ?thesis
    proof (cases "j = i")
      case True
      then have s': "servers c' i = s'" using 1 by simp
      from 1 True network_step_log [OF assms(1) clu inv assms(4)] consider
        "log_of s' = log_of (servers c i)" | "me_state s' \<noteq> RAFT_STATE_LEADER"
        | x where "appended (servers c i) x s'"
        by metis
      then show ?thesis
      proof cases
        assume "log_of s' = log_of (servers c i)"
        from log_of_window [OF this] show ?thesis by (simp add: s')
      next
        assume "me_state s' \<noteq> RAFT_STATE_LEADER"
        with assms(6) show ?thesis by (simp add: s' raft_is_leader_def raft_get_state_def)
      next
        fix x
        assume "appended (servers c i) x s'"
        moreover have "log_wf (servers c i)" using inv assms(4) by (simp add: matching_inv_def)
        ultimately show ?thesis
          using appended_lookup(2) [of "servers c i" x s'] by (auto simp: s' appended_def)
      qed
    qed (use 1 in simp)
  qed
qed

theorem leader_append_only_witness:
  "\<exists>c c'. network_step ref_contiki set [1, 2, 3] c c' \<and> raft_is_leader (servers c 1) \<and>
     raft_get_current_idx (servers c 1) = 2 \<and> raft_get_current_idx (servers c' 1) = 3 \<and>
     (\<forall>n x. n \<le> 2 \<and> log_lookup (servers c' 1) n = Some x \<longrightarrow> log_lookup (servers c 1) n = Some x)"
proof -
  obtain c c' where c: "network_reach ref_contiki set [1, 2, 3] c"
    "network_step ref_contiki set [1, 2, 3] c c'"
    "raft_is_leader (servers c 1)" "raft_get_current_idx (servers c 1) = 2"
    "raft_is_leader (servers c' 1)" "raft_get_current_idx (servers c' 1) = 3"
    by (rule net_states) blast
  have "1 \<in> set [1, 2, 3 :: int]" by simp
  from leader_append_only [OF ref_contiki_ok c(1,2) this c(3,5)] c show ?thesis
    by (intro exI [of _ c] exI [of _ c']) simp
qed

end
