(* ===== verification/Raft_Ballots.thy ===== *)
theory Raft_Ballots
  imports Raft_History
begin

text \<open>
  The argument for leader completeness, on histories: who was elected in which term, with which log,
  what the voters had confirmed before they voted.  Nothing here is about servers; the next theory
  shows that the servers of a cluster keep such books.
\<close>

section \<open>Elections\<close>

text \<open>
  \<open>W t w\<close> says that \<open>w\<close> was elected in term \<open>t\<close>, and \<open>C (w, t)\<close> is the last entry of the log with which
  \<open>w\<close> stood for election in that term.
\<close>

type_synonym winners = "int \<Rightarrow> int \<Rightarrow> bool"
type_synonym camps = "int \<times> int \<Rightarrow> (int \<times> int) option option"

definition led :: "history \<Rightarrow> winners \<Rightarrow> camps \<Rightarrow> bool" where
  "led H W C \<longleftrightarrow>
     history_ok H \<and> grounded H \<and>
     (\<forall>t m n. H (t, m) \<noteq> None \<and> H (t, n) \<noteq> None \<and> m \<le> n \<longrightarrow> below H (t, m) (t, n)) \<and>
     (\<forall>t w x n. W t w \<and> C (w, t) = Some (Some x) \<and> H (t, n) \<noteq> None \<longrightarrow> below H x (t, n) \<and> snd x < n) \<and>
     (\<forall>d t b t' n. C (d, t) = Some b \<and> H (t', n) \<noteq> None \<and> t \<le> t' \<longrightarrow> (\<exists>w. W t' w)) \<and>
     (\<forall>d t x. C (d, t) = Some (Some x) \<longrightarrow> H x \<noteq> None \<and> fst x < t) \<and>
     (\<forall>t w. W t w \<longrightarrow> C (w, t) \<noteq> None) \<and>
     (\<forall>t v w. W t v \<and> W t w \<longrightarrow> v = w)"

lemma ledD:
  assumes "led H W C"
  shows "history_ok H" "grounded H"
    and "H (t, m) \<noteq> None \<Longrightarrow> H (t, n) \<noteq> None \<Longrightarrow> m \<le> n \<Longrightarrow> below H (t, m) (t, n)"
    and "W t w \<Longrightarrow> C (w, t) = Some (Some x) \<Longrightarrow> H (t, n) \<noteq> None \<Longrightarrow> below H x (t, n) \<and> snd x < n"
    and "C (d, t) = Some b \<Longrightarrow> H (t', n) \<noteq> None \<Longrightarrow> t \<le> t' \<Longrightarrow> \<exists>w. W t' w"
    and "C (d, t) = Some (Some x) \<Longrightarrow> H x \<noteq> None \<and> fst x < t"
    and "W t w \<Longrightarrow> C (w, t) \<noteq> None"
    and "W t v \<Longrightarrow> W t w \<Longrightarrow> v = w"
  using assms unfolding led_def by - (elim conjE; simp (no_asm_use) only: imp_conjL; metis)+

lemma ledI:
  assumes "history_ok H" "grounded H"
    and "\<And>t m n. H (t, m) \<noteq> None \<Longrightarrow> H (t, n) \<noteq> None \<Longrightarrow> m \<le> n \<Longrightarrow> below H (t, m) (t, n)"
    and "\<And>t w x n. W t w \<Longrightarrow> C (w, t) = Some (Some x) \<Longrightarrow> H (t, n) \<noteq> None \<Longrightarrow> below H x (t, n) \<and> snd x < n"
    and "\<And>d t b t' n. C (d, t) = Some b \<Longrightarrow> H (t', n) \<noteq> None \<Longrightarrow> t \<le> t' \<Longrightarrow> \<exists>w. W t' w"
    and "\<And>d t x. C (d, t) = Some (Some x) \<Longrightarrow> H x \<noteq> None \<and> fst x < t"
    and "\<And>t w. W t w \<Longrightarrow> C (w, t) \<noteq> None"
    and "\<And>t v w. W t v \<Longrightarrow> W t w \<Longrightarrow> v = w"
  shows "led H W C"
  unfolding led_def by (intro conjI allI impI; (elim conjE)?; rule assms conjunct1 [OF assms(4)] conjunct2 [OF assms(4)]
    conjunct1 [OF assms(6)] conjunct2 [OF assms(6)]; assumption)

text \<open>The entries that the leader of a term has, or will have had.\<close>

definition owns :: "history \<Rightarrow> winners \<Rightarrow> camps \<Rightarrow> int \<Rightarrow> int \<times> int \<Rightarrow> bool" where
  "owns H W C t a \<longleftrightarrow>
     (\<exists>x. below H a x \<and> (fst x = t \<or> (\<exists>w. W t w \<and> C (w, t) = Some (Some x))))"

lemma owns_below: "owns H W C t b \<Longrightarrow> below H a b \<Longrightarrow> owns H W C t a"
  unfolding owns_def by (blast intro: below_trans)

lemma owns_dom: "owns H W C t a \<Longrightarrow> H a \<noteq> None"
  unfolding owns_def by (blast dest: below_dom)

lemma owns_own: "H (t, n) \<noteq> None \<Longrightarrow> owns H W C t (t, n)"
  unfolding owns_def by (intro exI [of _ "(t, n)"]) (simp add: below.here)

lemma owns_camp: "W t w \<Longrightarrow> C (w, t) = Some b \<Longrightarrow> holds H a b \<Longrightarrow> owns H W C t a"
  unfolding owns_def holds_def by blast

lemma owns_term:
  assumes "led H W C" "owns H W C t a"
  shows "fst a \<le> t"
proof -
  obtain x where x: "below H a x" "fst x = t \<or> (\<exists>w. W t w \<and> C (w, t) = Some (Some x))"
    using assms(2) unfolding owns_def by blast
  have "fst x \<le> t" using x(2) ledD(6) [OF assms(1), of _ t x] by fastforce
  with below_term [OF x(1) ledD(2) [OF assms(1)]] show ?thesis by simp
qed

lemma tops_linear:
  assumes "led H W C" "H x \<noteq> None" "H y \<noteq> None"
    and "fst x = t \<or> (\<exists>w. W t w \<and> C (w, t) = Some (Some x))"
    and "fst y = t \<or> (\<exists>w. W t w \<and> C (w, t) = Some (Some y))"
  shows "below H x y \<or> below H y x"
  using assms(4,5)
proof (elim disjE exE conjE)
  assume "fst x = t" "fst y = t"
  then show ?thesis
    using ledD(3) [OF assms(1), of t "snd x" "snd y"] ledD(3) [OF assms(1), of t "snd y" "snd x"] assms(2,3)
    by (metis nle_le prod.collapse)
next
  fix w assume w: "W t w" "C (w, t) = Some (Some y)" and x: "fst x = t"
  from ledD(4) [OF assms(1) w, of "snd x"] x assms(2) show ?thesis by force
next
  fix w assume w: "W t w" "C (w, t) = Some (Some x)" and y: "fst y = t"
  from ledD(4) [OF assms(1) w, of "snd y"] y assms(3) show ?thesis by force
next
  fix v w assume v: "W t v" "C (v, t) = Some (Some x)" and w: "W t w" "C (w, t) = Some (Some y)"
  with ledD(8) [OF assms(1) v(1) w(1)] assms(2) show ?thesis by (auto intro: below.here)
qed

lemma owns_linear:
  assumes "led H W C" "owns H W C t a" "owns H W C t b" "snd a \<le> snd b"
  shows "below H a b"
proof -
  obtain x where x: "below H a x" "fst x = t \<or> (\<exists>w. W t w \<and> C (w, t) = Some (Some x))"
    using assms(2) unfolding owns_def by blast
  obtain y where y: "below H b y" "fst y = t \<or> (\<exists>w. W t w \<and> C (w, t) = Some (Some y))"
    using assms(3) unfolding owns_def by blast
  have "H x \<noteq> None" "H y \<noteq> None" using below_dom [OF x(1)] below_dom [OF y(1)] by simp_all
  from tops_linear [OF assms(1) this x(2) y(2)] show ?thesis
  proof
    assume "below H x y"
    then have "below H a y" by (rule below_trans) (rule x(1))
    then show ?thesis by (rule below_linear [OF y(1) _ assms(4)])
  next
    assume "below H y x"
    then have "below H b x" by (rule below_trans) (rule y(1))
    then show ?thesis by (rule below_linear [OF _ x(1) assms(4)])
  qed
qed

lemma owns_same: "led H W C \<Longrightarrow> owns H W C t a \<Longrightarrow> owns H W C t b \<Longrightarrow> snd a = snd b \<Longrightarrow> a = b"
  using owns_linear [of H W C t a b] below_same [of H a b b] below.here [of H b] below_dom [of H a b] by auto

section \<open>Confirmations and votes\<close>

text \<open>
  \<open>(v, t, b) \<in> K\<close> says that \<open>v\<close> confirmed in term \<open>t\<close> that it has the leader's log up to the entry \<open>b\<close>.  It
  may lose an entry of it only to a leader of a later term whose log did not have that entry.
\<close>

type_synonym confirmations = "(int \<times> int \<times> (int \<times> int)) set"

definition usurped :: "history \<Rightarrow> winners \<Rightarrow> camps \<Rightarrow> int \<Rightarrow> int \<Rightarrow> int \<times> int \<Rightarrow> bool" where
  "usurped H W C t u a \<longleftrightarrow>
     (\<exists>t' w b. t < t' \<and> t' \<le> u \<and> W t' w \<and> C (w, t') = Some b \<and> \<not> holds H a b)"

lemma usurped_le: "usurped H W C t u a \<Longrightarrow> u \<le> u' \<Longrightarrow> usurped H W C t u' a"
  unfolding usurped_def by fastforce

definition at_least :: "int \<times> int \<Rightarrow> int \<times> int \<Rightarrow> bool" where
  "at_least y x \<longleftrightarrow> fst x < fst y \<or> fst x = fst y \<and> snd x \<le> snd y"

text \<open>
  Who votes for a candidate in a term, before the term has a leader, has a log that is no more current
  than the candidate's and has what it confirmed in earlier terms, unless a leader in between took it.
\<close>

definition vetted ::
  "history \<Rightarrow> winners \<Rightarrow> camps \<Rightarrow> confirmations \<Rightarrow> (int \<times> int \<times> int) set \<Rightarrow> bool" where
  "vetted H W C K E \<longleftrightarrow>
     (\<forall>v t' d t b a. (v, t', d) \<in> E \<and> (v, t, b) \<in> K \<and> t < t' \<and> below H a b \<longrightarrow>
        (\<exists>x y. C (d, t') = Some (Some y) \<and> below H a x \<and> at_least y x) \<or> usurped H W C t (t' - 1) a)"

definition confirmers :: "history \<Rightarrow> confirmations \<Rightarrow> int \<times> int \<Rightarrow> int set" where
  "confirmers H K a = {v. \<exists>b. (v, fst a, b) \<in> K \<and> below H a b}"

text \<open>An entry that its leader may commit: a majority has confirmed it in the term it was created in.\<close>

definition chosen :: "int list \<Rightarrow> history \<Rightarrow> winners \<Rightarrow> confirmations \<Rightarrow> int \<times> int \<Rightarrow> bool" where
  "chosen ids H W K a \<longleftrightarrow>
     H a \<noteq> None \<and> (\<exists>w. W (fst a) w) \<and>
     raft_votes_is_majority (int (length ids)) (int (card (set ids \<inter> confirmers H K a)))"

text \<open>
  Leader completeness: who is elected in a later term stands for election with a log that has the entry.
\<close>

lemma leader_complete:
  assumes led: "led H W C" and vet: "vetted H W C K E" and ch: "chosen ids H W K a"
    and elected: "\<And>t w. W t w \<Longrightarrow>
      raft_votes_is_majority (int (length ids)) (int (card {v \<in> set ids. (v, t, w) \<in> E}))"
    and t: "fst a < t" "W t w" "C (w, t) = Some b"
  shows "holds H a b"
  using t
proof (induction "nat (t - fst a)" arbitrary: t w b rule: less_induct)
  case less
  have "set ids \<inter> confirmers H K a \<inter> {v \<in> set ids. (v, t, w) \<in> E} \<noteq> {}"
    by (rule majority.quorums_meet) (use ch elected [OF less.prems(2)] in \<open>auto simp: chosen_def\<close>)
  then obtain v k where v: "(v, fst a, k) \<in> K" "below H a k" "(v, t, w) \<in> E" by (auto simp: confirmers_def)
  from vet v less.prems(1) consider
    (current) x y where "C (w, t) = Some (Some y)" "below H a x" "at_least y x"
    | (lost) "usurped H W C (fst a) (t - 1) a"
    unfolding vetted_def by blast
  then show ?case
  proof cases
    case lost
    then obtain t' w' b' where t': "fst a < t'" "t' \<le> t - 1" "W t' w'" "C (w', t') = Some b'" "\<not> holds H a b'"
      unfolding usurped_def by blast
    from less.hyps [OF _ t'(1,3,4)] t'(1,2,5) show ?thesis by simp
  next
    case (current x y)
    have xy: "H x \<noteq> None" "H y \<noteq> None" "fst y < t" "fst a \<le> fst x"
      using below_dom [OF current(2)] ledD(6) [OF led current(1)] below_term [OF current(2) ledD(2) [OF led]]
      by simp_all
    have "below H a y"
    proof (cases "fst y = fst x")
      case True
      with current(3) xy(1,2) have "below H x y"
        using ledD(3) [OF led, of "fst x" "snd x" "snd y"] by (auto simp: at_least_def) (metis prod.collapse)
      then show ?thesis by (rule below_trans) (rule current(2))
    next
      case False
      then have gt: "fst a < fst y" using current(3) xy(4) by (auto simp: at_least_def)
      obtain d where "W (fst a) d" using ch by (auto simp: chosen_def)
      then obtain l where "C (d, fst a) = Some l" using ledD(7) [OF led] by blast
      from ledD(5) [OF led this, of "fst y" "snd y"] gt xy(2) obtain u where u: "W (fst y) u" by auto
      then obtain z where z: "C (u, fst y) = Some z" using ledD(7) [OF led] by blast
      have "holds H a z" by (rule less.hyps [OF _ gt u z]) (use gt xy(3) in simp)
      then obtain q where q: "z = Some q" "below H a q" by (auto simp: holds_def)
      from ledD(4) [OF led u, of q "snd y"] z q(1) xy(2) have "below H q y" by simp
      then show ?thesis by (rule below_trans) (rule q(2))
    qed
    with current(1) less.prems(3) show ?thesis by (simp add: holds_def)
  qed
qed

section \<open>Committed entries\<close>

definition committed ::
  "int list \<Rightarrow> history \<Rightarrow> winners \<Rightarrow> confirmations \<Rightarrow> int \<Rightarrow> int \<times> int \<Rightarrow> bool" where
  "committed ids H W K t a \<longleftrightarrow> (\<exists>b. chosen ids H W K b \<and> below H a b \<and> fst b \<le> t)"

lemma committed_below:
  "committed ids H W K t b \<Longrightarrow> below H a b \<Longrightarrow> committed ids H W K t a"
  unfolding committed_def by (blast intro: below_trans)

lemma committed_le: "committed ids H W K t a \<Longrightarrow> t \<le> t' \<Longrightarrow> committed ids H W K t' a"
  unfolding committed_def by fastforce

text \<open>The books of elections and confirmations, with what was said about them.\<close>

definition books ::
  "int list \<Rightarrow> history \<Rightarrow> winners \<Rightarrow> camps \<Rightarrow> confirmations \<Rightarrow> (int \<times> int \<times> int) set \<Rightarrow> bool" where
  "books ids H W C K E \<longleftrightarrow>
     led H W C \<and> vetted H W C K E \<and>
     (\<forall>t w. W t w \<longrightarrow>
        raft_votes_is_majority (int (length ids)) (int (card {v \<in> set ids. (v, t, w) \<in> E})))"

lemma committed_owned:
  assumes "books ids H W C K E" "committed ids H W K t a" "W t w"
  shows "owns H W C t a"
proof -
  have led: "led H W C" and vet: "vetted H W C K E"
    and el: "\<And>t w. W t w \<Longrightarrow>
      raft_votes_is_majority (int (length ids)) (int (card {v \<in> set ids. (v, t, w) \<in> E}))"
    using assms(1) by (simp_all add: books_def)
  obtain b where b: "chosen ids H W K b" "below H a b" "fst b \<le> t" using assms(2) by (auto simp: committed_def)
  have "owns H W C t b"
  proof (cases "fst b = t")
    case True
    then show ?thesis using b(1) owns_own [of H t "snd b"] by (auto simp: chosen_def)
  next
    case False
    obtain k where k: "C (w, t) = Some k" using ledD(7) [OF led assms(3)] by blast
    have "holds H b k" by (rule leader_complete [OF led vet b(1) el _ assms(3) k]) (use False b(3) in simp_all)
    with assms(3) k show ?thesis by (rule owns_camp)
  qed
  then show ?thesis using b(2) by (rule owns_below)
qed

lemma committed_agree:
  assumes "books ids H W C K E" "committed ids H W K t a" "committed ids H W K t' a'" "snd a = snd a'"
  shows "a = a'"
proof -
  obtain b b' where b: "chosen ids H W K b" "below H a b" "chosen ids H W K b'" "below H a' b'"
    using assms(2,3) by (auto simp: committed_def)
  have own: "owns H W C (max (fst b) (fst b')) c"
    if "chosen ids H W K d" "below H c d" "fst d \<le> max (fst b) (fst b')" for c d
  proof -
    obtain w where "W (max (fst b) (fst b')) w"
      using b(1,3) by (cases "fst b \<le> fst b'") (auto simp: chosen_def max_def)
    from committed_owned [OF assms(1) _ this] that show ?thesis unfolding committed_def by blast
  qed
  show ?thesis
    by (rule owns_same [OF _ own own assms(4)]) (use assms(1) b in \<open>auto simp: books_def\<close>)
qed

section \<open>Growth\<close>

text \<open>What was said stays true when the history, the elections and the books grow.\<close>

lemma holds_old:
  assumes "\<not> holds H a b" "H \<subseteq>\<^sub>m H'" "grounded H" "history_ok H'" "\<And>x. b = Some x \<Longrightarrow> H x \<noteq> None"
  shows "\<not> holds H' a b"
  using assms below_old [OF _ assms(2-4)] unfolding holds_def by blast

lemma usurped_mono:
  assumes "usurped H W C t u a" "led H W C" "H \<subseteq>\<^sub>m H'" "history_ok H'"
    and "\<And>t w. W t w \<Longrightarrow> W' t w" "C \<subseteq>\<^sub>m C'"
  shows "usurped H' W' C' t u a"
proof -
  obtain t' w b where t': "t < t'" "t' \<le> u" "W t' w" "C (w, t') = Some b" "\<not> holds H a b"
    using assms(1) unfolding usurped_def by blast
  have "\<not> holds H' a b"
    using t'(4) by (intro holds_old [OF t'(5) assms(3) ledD(2) [OF assms(2)] assms(4)])
      (use ledD(6) [OF assms(2)] in blast)
  moreover have "C' (w, t') = Some b" using assms(6) t'(4) by (rule map_leD)
  ultimately show ?thesis using t'(1-3) assms(5) unfolding usurped_def by blast
qed

lemma chosen_mono:
  assumes "chosen ids H W K a" "H \<subseteq>\<^sub>m H'" "\<And>t w. W t w \<Longrightarrow> W' t w" "K \<subseteq> K'"
  shows "chosen ids H' W' K' a"
proof -
  have "set ids \<inter> confirmers H K a \<subseteq> set ids \<inter> confirmers H' K' a"
    using assms(2,4) by (auto simp: confirmers_def intro: below_mono)
  then have "card (set ids \<inter> confirmers H K a) \<le> card (set ids \<inter> confirmers H' K' a)"
    by (intro card_mono) auto
  moreover have "card (set ids \<inter> confirmers H' K' a) \<le> length ids"
    by (rule order_trans [OF card_mono [of "set ids"] card_length]) auto
  moreover have "H' a \<noteq> None" using assms(1) map_leD [OF assms(2)] unfolding chosen_def by blast
  moreover have "\<exists>w. W' (fst a) w" using assms(1,3) unfolding chosen_def by blast
  ultimately show ?thesis using assms(1) by (simp add: chosen_def majority_iff)
qed

lemma committed_mono:
  assumes "committed ids H W K t a" "H \<subseteq>\<^sub>m H'" "\<And>t w. W t w \<Longrightarrow> W' t w" "K \<subseteq> K'"
  shows "committed ids H' W' K' t a"
  using assms(1) chosen_mono [where W = W and W' = W', OF _ assms(2-4)] below_mono [OF _ assms(2)]
  unfolding committed_def by blast

lemma owns_mono:
  assumes "owns H W C t a" "H \<subseteq>\<^sub>m H'" "\<And>t w. W t w \<Longrightarrow> W' t w" "C \<subseteq>\<^sub>m C'"
  shows "owns H' W' C' t a"
proof -
  obtain x where x: "below H a x" "fst x = t \<or> (\<exists>w. W t w \<and> C (w, t) = Some (Some x))"
    using assms(1) unfolding owns_def by blast
  have "C' k = Some b" if "C k = Some b" for k b using assms(4) that by (rule map_leD)
  with x(2) assms(3) have "fst x = t \<or> (\<exists>w. W' t w \<and> C' (w, t) = Some (Some x))" by blast
  with below_mono [OF x(1) assms(2)] show ?thesis unfolding owns_def by blast
qed

end
