(* ===== verification/Raft_Ledger.thy ===== *)
theory Raft_Ledger
  imports Raft_Matching Raft_Ballots
begin

text \<open>
  The network on which entries are committed.  On top of the network of \<open>Raft_Matching\<close>, whose
  appendentries messages are the ones that leaders sent, vote requests are the ones that candidates
  sent and appendentries responses the ones that followers sent.  The theory defines this network and
  the invariant that connects its servers with the books of \<open>Raft_Ballots\<close>.
\<close>

section \<open>The network's ledger\<close>

text \<open>
  The vote requests of the candidates, each with its sender, and the replies to appendentries messages,
  each with the server that sent it.
\<close>

record ledger =
  polls :: "(int \<times> msg_requestvote) set"
  answers :: "(int \<times> msg_appendentries_response) set"

text \<open>A server that stands for election in a new term asks the others with the message \<open>requestvote_for\<close>.\<close>

definition sent_polls :: "int \<Rightarrow> 'u raft_server \<Rightarrow> 'u raft_server \<Rightarrow> (int \<times> msg_requestvote) set" where
  "sent_polls i s s' =
     (if me_state s' = RAFT_STATE_CANDIDATE \<and> current_term s < current_term s'
      then {(i, requestvote_for s')} else {})"

definition sent_answers ::
  "int \<Rightarrow> server_input \<Rightarrow> server_output \<Rightarrow> (int \<times> msg_appendentries_response) set" where
  "sent_answers i inp out =
     (case (inp, out) of (Appendentries sender _, Append_Reply r) \<Rightarrow> {(i, r)} | _ \<Rightarrow> {})"

definition record_sent ::
  "ledger \<Rightarrow> int \<Rightarrow> 'u raft_server \<Rightarrow> server_input \<Rightarrow> server_output \<Rightarrow> 'u raft_server \<Rightarrow> ledger" where
  "record_sent l i s inp out s' =
     \<lparr>polls = polls l \<union> sent_polls i s s', answers = answers l \<union> sent_answers i inp out\<rparr>"

text \<open>
  Vote requests and replies are ones that were sent.  An appendentries message that starts after an entry
  knows the term of that entry, and the receiver's window holds more than one entry once it has given up
  entries: in both cases the handler could otherwise delete an entry that is committed.
\<close>

definition authentic :: "ledger \<Rightarrow> 'u raft_server \<Rightarrow> server_input \<Rightarrow> bool" where
  "authentic l s inp \<longleftrightarrow>
     (case inp of
        Requestvote sender vr \<Rightarrow> (sender, vr) \<in> polls l
      | Appendentries sender ae \<Rightarrow>
          (0 < prev_log_idx ae \<longrightarrow> pred_term ae 0 \<noteq> 0) \<and>
          (dropped s = 0 \<or> dropped s + 1 < raft_get_current_idx s)
      | Appendentries_Response sender ar \<Rightarrow> (sender, ar) \<in> answers l
      | _ \<Rightarrow> True)"

inductive ledger_step ::
  "contiki \<Rightarrow> ('u \<Rightarrow> (int \<times> msg_appendentries) set) \<Rightarrow> int list \<Rightarrow> 'u cluster \<times> ledger \<Rightarrow> 'u cluster \<times> ledger \<Rightarrow> bool"
  for ct :: contiki and sent :: "'u \<Rightarrow> (int \<times> msg_appendentries) set" and ids :: "int list" where
  "i \<in> set ids \<Longrightarrow> admissible c i inp \<Longrightarrow> genuine sent ids c i inp \<Longrightarrow> authentic l (servers c i) inp \<Longrightarrow>
   server_step ct (servers c i) inp out s' \<Longrightarrow>
   ledger_step ct sent ids (c, l) (advance c i inp out s', record_sent l i (servers c i) inp out s')"

text \<open>At the start nobody has voted, nothing is committed and the terms in the log do not decrease.\<close>

definition ledger_init ::
  "('u \<Rightarrow> (int \<times> msg_appendentries) set) \<Rightarrow> int list \<Rightarrow> 'u cluster \<Rightarrow> bool" where
  "ledger_init sent ids c \<longleftrightarrow>
     network_init sent ids c \<and>
     (\<forall>i \<in> set ids. voted_for (servers c i) = -1 \<and> commit_idx (servers c i) = 0 \<and>
        (\<forall>n x y. log_lookup (servers c i) n = Some x \<and> log_lookup (servers c i) (n + 1) = Some y \<longrightarrow>
           ety_term x \<le> ety_term y))"

inductive ledger_reach ::
  "contiki \<Rightarrow> ('u \<Rightarrow> (int \<times> msg_appendentries) set) \<Rightarrow> int list \<Rightarrow> 'u cluster \<times> ledger \<Rightarrow> bool"
  for ct :: contiki and sent :: "'u \<Rightarrow> (int \<times> msg_appendentries) set" and ids :: "int list" where
  init: "ledger_init sent ids c \<Longrightarrow> ledger_reach ct sent ids (c, \<lparr>polls = {}, answers = {}\<rparr>)"
| step: "ledger_reach ct sent ids x \<Longrightarrow> ledger_step ct sent ids x y \<Longrightarrow> ledger_reach ct sent ids y"

lemma ledger_reach_network: "ledger_reach ct sent ids x \<Longrightarrow> network_reach ct sent ids (fst x)"
proof (induction rule: ledger_reach.induct)
  case (step x y)
  have "network_step ct sent ids (fst x) (fst y)"
    using step(2) by cases (auto intro: network_step.intros)
  then show ?case by (rule network_reach.step [OF step.IH])
qed (simp add: ledger_init_def network_reach.init)

section \<open>Messages and logs\<close>

text \<open>A vote request tells the term and the index of the last entry of the candidate's log.\<close>

definition asks :: "msg_requestvote \<Rightarrow> (int \<times> int) option \<Rightarrow> bool" where
  "asks vr tp \<longleftrightarrow>
     (case tp of
        None \<Rightarrow> to_unsigned (last_log_term vr) = 0
      | Some (t, n) \<Rightarrow> uint (to_unsigned (last_log_term vr)) = t \<and> last_log_idx vr = n)"

lemma requestvote_for_asks:
  assumes "log_wf s"
  shows "asks (requestvote_for s) (tip s)"
proof (cases "0 < raft_get_current_idx s")
  case True
  then show ?thesis
    by (auto simp: asks_def tip_def requestvote_for_def raft_get_last_log_term_def log_lookup_def
      raft_get_entry_from_idx_def Let_def split: option.split)
next
  case False
  then have "raft_get_current_idx s = 0" using current_idx_range [OF assms] by simp
  then have "tip s = None" using lookup_range [OF assms, of 0] current_idx_range [OF assms] by (auto simp: tip_def)
  with False show ?thesis by (simp add: asks_def requestvote_for_def raft_get_last_log_term_def Let_def)
qed

lemma current_at_least:
  assumes "log_is_current s vr" "asks vr tp" "tip s = Some x" "0 < fst x"
  shows "\<exists>y. tp = Some y \<and> at_least y x"
proof -
  obtain e where e: "log_lookup s (raft_get_current_idx s) = Some e" "x = (uint (ety_term e), raft_get_current_idx s)"
    using assms(3) by (auto simp: tip_def)
  have "raft_get_current_idx s \<noteq> 0"
    using e(1) by (auto simp: log_lookup_def log_get_at_idx_def Let_def split: if_splits)
  then have le: "ety_term e < to_unsigned (last_log_term vr) \<or>
      ety_term e = to_unsigned (last_log_term vr) \<and> raft_get_current_idx s \<le> last_log_idx vr"
    using assms(1) e(1) by (auto simp: log_is_current_def)
  show ?thesis
  proof (cases tp)
    case None
    with assms(2,4) e(2) le show ?thesis by (auto simp: asks_def word_less_def)
  next
    case (Some y)
    with assms(2) e(2) le show ?thesis by (auto simp: asks_def at_least_def word_less_def split: prod.splits)
  qed
qed

text \<open>Every entry that a leader's message carries is in its log, and the last one is the last of its log.\<close>

lemma carried_lookup:
  assumes "leader_message s n ae" "log_wf s" "snapshot_last_term s = 0" "b \<in> carried ae"
  shows "\<exists>x. log_lookup s (snd b) = Some x \<and> uint (ety_term x) = fst b"
    and "snd b = prev_log_idx ae + int (length (entries ae)) \<Longrightarrow> tip s = Some b"
proof -
  obtain k where k: "1 \<le> k" "prev_log_idx ae = k - 1"
    and len: "int (length (entries ae)) = (if k \<le> raft_get_current_idx s then raft_get_current_idx s - k + 1 else 0)"
    and nth: "\<And>m. m < length (entries ae) \<Longrightarrow> log_lookup s (k + int m) = Some (entries ae ! m)"
    and before: "1 < k \<Longrightarrow> pred_term ae 0 = (case log_lookup s (k - 1) of Some y \<Rightarrow> ety_term y | None \<Rightarrow> 0)"
    using leader_message_entries [OF assms(1,2)] assms(3) by metis
  obtain m where m: "b = (uint (pred_term ae m), k - 1 + int m)" "m \<le> length (entries ae)" "0 < k - 1 + int m"
    "pred_term ae m \<noteq> 0"
    using assms(4) k(2) by (auto simp: carried_def)
  show look: "\<exists>x. log_lookup s (snd b) = Some x \<and> uint (ety_term x) = fst b"
  proof (cases m)
    case 0
    with m before show ?thesis by (auto split: option.splits)
  next
    case (Suc j)
    with nth [of j] m show ?thesis by (simp add: pred_term_def)
  qed
  assume "snd b = prev_log_idx ae + int (length (entries ae))"
  then have eq: "snd b = k - 1 + int (length (entries ae))" using k(2) by simp
  obtain x where x: "log_lookup s (snd b) = Some x" "uint (ety_term x) = fst b" using look by blast
  then have "snd b \<le> raft_get_current_idx s" using lookup_range [OF assms(2), of "snd b"] by simp
  then have "snd b = raft_get_current_idx s" using eq len by (simp split: if_splits)
  with x show "tip s = Some b" by (simp add: tip_def prod_eq_iff)
qed

lemma message_end:
  assumes "leader_message s n ae" "log_wf s" "0 < raft_get_current_idx s"
  shows "0 < prev_log_idx ae + int (length (entries ae))"
proof -
  obtain k where "1 \<le> k" "prev_log_idx ae = k - 1"
    "int (length (entries ae)) = (if k \<le> raft_get_current_idx s then raft_get_current_idx s - k + 1 else 0)"
    using leader_message_entries [OF assms(1,2)] by metis
  with assms(3) show ?thesis by (simp split: if_splits)
qed

section \<open>The invariant\<close>

text \<open>
  The invariant speaks of a history \<open>H\<close>, of the elections won (\<open>W\<close>), of the logs of the candidates (\<open>C\<close>), of
  what the servers have confirmed (\<open>K\<close>) and of the votes cast in a term before the term had a leader (\<open>E\<close>).
\<close>

definition ballots ::
  "int list \<Rightarrow> camps \<Rightarrow> (int \<times> int \<times> int) set \<Rightarrow> 'u cluster \<Rightarrow> ledger \<Rightarrow> bool" where
  "ballots ids C E c l \<longleftrightarrow>
     (\<forall>v t d. (v, t, d) \<in> cast c \<longrightarrow> C (d, t) \<noteq> None) \<and> E \<subseteq> cast c \<and>
     (\<forall>v t d. (v, t, d) \<in> cast c \<and> (\<nexists>w. won ids c t w) \<longrightarrow> (v, t, d) \<in> E) \<and>
     (\<forall>d t. C (d, t) \<noteq> None \<longrightarrow> t \<le> current_term (servers c d)) \<and>
     (\<forall>d vr. (d, vr) \<in> polls l \<longrightarrow> (\<exists>tp. C (d, rv_term vr) = Some tp \<and> asks vr tp))"

text \<open>A server still has what it confirmed, unless a leader that did not have it came in between.\<close>

definition keeps ::
  "history \<Rightarrow> winners \<Rightarrow> camps \<Rightarrow> confirmations \<Rightarrow> int \<Rightarrow> 'u raft_server \<Rightarrow> bool" where
  "keeps H W C K i s \<longleftrightarrow>
     (\<forall>t b. (i, t, b) \<in> K \<longrightarrow> owns H W C t b \<and> t \<le> current_term s \<and>
        (\<forall>a. below H a b \<longrightarrow> holds H a (tip s) \<or> usurped H W C t (current_term s) a))"

text \<open>A candidate's log is the one it campaigns with; a leader's log ends like that or with an entry of its own.\<close>

definition stands :: "history \<Rightarrow> camps \<Rightarrow> int \<Rightarrow> 'u raft_server \<Rightarrow> bool" where
  "stands H C i s \<longleftrightarrow>
     (me_state s = RAFT_STATE_CANDIDATE \<longrightarrow> C (i, current_term s) = Some (tip s)) \<and>
     (me_state s = RAFT_STATE_LEADER \<longrightarrow>
        (\<exists>tp. C (i, current_term s) = Some tp \<and>
           (tip s = tp \<and> (\<forall>n. H (current_term s, n) = None) \<or> (\<exists>n. tip s = Some (current_term s, n)))))"

text \<open>What a leader knows of its peers they have confirmed.\<close>

definition knows :: "confirmations \<Rightarrow> 'u raft_server \<Rightarrow> bool" where
  "knows K s \<longleftrightarrow>
     (me_state s = RAFT_STATE_LEADER \<longrightarrow>
        (\<forall>a \<in> set (nodes_list s). me_node s \<noteq> Some a \<longrightarrow>
           match_idx (nodes_mem s a) \<le> 0 \<or>
           (\<exists>b. (node_id (nodes_mem s a), current_term s, b) \<in> K \<and> match_idx (nodes_mem s a) \<le> snd b)))"

text \<open>The log has a committed entry at the commit index or after it.\<close>

definition backed :: "int list \<Rightarrow> history \<Rightarrow> winners \<Rightarrow> confirmations \<Rightarrow> 'u raft_server \<Rightarrow> bool" where
  "backed ids H W K s \<longleftrightarrow>
     commit_idx s \<le> 0 \<or>
     (\<exists>a. commit_idx s \<le> snd a \<and> holds H a (tip s) \<and> committed ids H W K (current_term s) a)"

definition dated :: "'u raft_server \<Rightarrow> bool" where
  "dated s \<longleftrightarrow> (\<forall>n x. log_lookup s n = Some x \<longrightarrow> uint (ety_term x) \<le> current_term s)"

text \<open>What the messages of a leader, and the replies to them, say.\<close>

definition tells ::
  "int list \<Rightarrow> history \<Rightarrow> winners \<Rightarrow> camps \<Rightarrow> confirmations \<Rightarrow> msg_appendentries \<Rightarrow> bool" where
  "tells ids H W C K ae \<longleftrightarrow>
     (\<forall>b \<in> carried ae. owns H W C (ae_term ae) b) \<and>
     (leader_commit ae \<le> 0 \<or>
      0 < prev_log_idx ae + int (length (entries ae)) \<and>
      (\<exists>a. leader_commit ae \<le> snd a \<and> committed ids H W K (ae_term ae) a \<and>
         (\<forall>b \<in> carried ae. snd b = prev_log_idx ae + int (length (entries ae)) \<longrightarrow> below H a b)))"

definition confirms :: "confirmations \<Rightarrow> int \<Rightarrow> msg_appendentries_response \<Rightarrow> bool" where
  "confirms K v r \<longleftrightarrow>
     (success r \<noteq> 0 \<longrightarrow>
        aer_current_idx r \<le> 0 \<or> (\<exists>b. (v, aer_term r, b) \<in> K \<and> aer_current_idx r \<le> snd b))"

definition commit_inv ::
  "('u \<Rightarrow> (int \<times> msg_appendentries) set) \<Rightarrow> int list \<Rightarrow> history \<Rightarrow> camps \<Rightarrow> confirmations \<Rightarrow>
   (int \<times> int \<times> int) set \<Rightarrow> 'u cluster \<Rightarrow> ledger \<Rightarrow> bool" where
  "commit_inv sent ids H C K E c l \<longleftrightarrow>
     matching_inv sent ids H c \<and> books ids H (won ids c) C K E \<and> ballots ids C E c l \<and>
     (\<forall>i \<in> set ids. keeps H (won ids c) C K i (servers c i) \<and> stands H C i (servers c i) \<and>
        knows K (servers c i) \<and> backed ids H (won ids c) K (servers c i) \<and> dated (servers c i) \<and>
        (\<forall>n ae. (n, ae) \<in> sent (udata (servers c i)) \<longrightarrow> tells ids H (won ids c) C K ae)) \<and>
     (\<forall>v t b. (v, t, b) \<in> K \<longrightarrow> v \<in> set ids) \<and>
     (\<forall>v r. (v, r) \<in> answers l \<longrightarrow> confirms K v r)"

section \<open>Growth\<close>

text \<open>A step makes the history, the elections and the books larger.\<close>

definition larger ::
  "history \<Rightarrow> winners \<Rightarrow> camps \<Rightarrow> confirmations \<Rightarrow> history \<Rightarrow> winners \<Rightarrow> camps \<Rightarrow> confirmations \<Rightarrow> bool" where
  "larger H W C K H' W' C' K' \<longleftrightarrow>
     H \<subseteq>\<^sub>m H' \<and> (\<forall>t w. W t w \<longrightarrow> W' t w) \<and> C \<subseteq>\<^sub>m C' \<and> K \<subseteq> K' \<and> led H W C \<and> history_ok H'"

lemma largerD:
  assumes "larger H W C K H' W' C' K'"
  shows "H \<subseteq>\<^sub>m H'" "W t w \<Longrightarrow> W' t w" "C \<subseteq>\<^sub>m C'" "K \<subseteq> K'" "led H W C" "history_ok H'"
    and "holds H a tp \<Longrightarrow> holds H' a tp"
    and "owns H W C t a \<Longrightarrow> owns H' W' C' t a"
    and "committed ids H W K t a \<Longrightarrow> committed ids H' W' K' t a"
    and "usurped H W C t u a \<Longrightarrow> usurped H' W' C' t u a"
proof -
  show l: "H \<subseteq>\<^sub>m H'" "W t w \<Longrightarrow> W' t w" "C \<subseteq>\<^sub>m C'" "K \<subseteq> K'" "led H W C" "history_ok H'" for t w
    using assms by (simp_all add: larger_def)
  show "holds H a tp \<Longrightarrow> holds H' a tp" by (rule holds_mono [OF _ l(1)])
  show "owns H W C t a \<Longrightarrow> owns H' W' C' t a" by (rule owns_mono [OF _ l(1,2,3)])
  show "committed ids H W K t a \<Longrightarrow> committed ids H' W' K' t a" by (rule committed_mono [OF _ l(1,2,4)])
  show "usurped H W C t u a \<Longrightarrow> usurped H' W' C' t u a" by (rule usurped_mono [OF _ l(5,1,6,2,3)])
qed

lemma larger_below:
  assumes "larger H W C K H' W' C' K'" "below H' a b" "owns H W C t b"
  shows "below H a b"
proof -
  note l = largerD [OF assms(1)]
  show ?thesis by (rule below_old [OF assms(2) l(1) ledD(2) [OF l(5)] l(6) owns_dom [OF assms(3)]])
qed

lemma keeps_mono:
  assumes "keeps H W C K i s" "larger H W C K H' W' C' K'" "\<And>t b. (i, t, b) \<in> K' \<Longrightarrow> (i, t, b) \<in> K"
  shows "keeps H' W' C' K' i s"
  unfolding keeps_def
proof (intro allI impI)
  fix t b assume "(i, t, b) \<in> K'"
  then have b: "owns H W C t b" "t \<le> current_term s"
    "\<And>a. below H a b \<Longrightarrow> holds H a (tip s) \<or> usurped H W C t (current_term s) a"
    using assms(1,3) unfolding keeps_def by blast+
  from b(3) larger_below [OF assms(2) _ b(1)] largerD(7,10) [OF assms(2)]
  have "holds H' a (tip s) \<or> usurped H' W' C' t (current_term s) a" if "below H' a b" for a
    using that by blast
  with b(2) largerD(8) [OF assms(2) b(1)]
  show "owns H' W' C' t b \<and> t \<le> current_term s \<and>
    (\<forall>a. below H' a b \<longrightarrow> holds H' a (tip s) \<or> usurped H' W' C' t (current_term s) a)" by blast
qed

lemma knows_mono: "knows K s \<Longrightarrow> K \<subseteq> K' \<Longrightarrow> knows K' s"
  unfolding knows_def by (meson subsetD)

lemma backed_mono: "backed ids H W K s \<Longrightarrow> larger H W C K H' W' C' K' \<Longrightarrow> backed ids H' W' K' s"
  unfolding backed_def by (meson largerD(7,9))

lemma confirms_mono: "confirms K v r \<Longrightarrow> K \<subseteq> K' \<Longrightarrow> confirms K' v r"
  unfolding confirms_def by blast

lemma tells_mono:
  assumes "tells ids H W C K ae" "larger H W C K H' W' C' K'"
  shows "tells ids H' W' C' K' ae"
proof -
  have own: "\<forall>b \<in> carried ae. owns H' W' C' (ae_term ae) b"
    using assms(1) largerD(8) [OF assms(2)] by (auto simp: tells_def)
  moreover have "below H' a b" if "below H a b" for a b using that largerD(1) [OF assms(2)] by (rule below_mono)
  ultimately show ?thesis
    using assms(1) largerD(9) [OF assms(2)] unfolding tells_def by meson
qed

end
