(* ===== verification/Raft_Campaign.thy ===== *)
theory Raft_Campaign
  imports Raft_Ledger
begin

text \<open>
  What a step of a server does to the books of the elections: who campaigned with which log, who voted
  for whom, and that a voter who had confirmed an entry only votes for a candidate that has one at least
  as recent.
\<close>

section \<open>A step and the elections\<close>

text \<open>What is known of a step of a server \<open>i\<close> that the network allows.\<close>

definition moves ::
  "('u \<Rightarrow> (int \<times> msg_appendentries) set) \<Rightarrow> int list \<Rightarrow> history \<Rightarrow> history \<Rightarrow> camps \<Rightarrow> confirmations \<Rightarrow>
   (int \<times> int \<times> int) set \<Rightarrow> 'u cluster \<Rightarrow> ledger \<Rightarrow> int \<Rightarrow> server_input \<Rightarrow> server_output \<Rightarrow> 'u raft_server \<Rightarrow> bool" where
  "moves sent ids H H' C K E c l i inp out s' \<longleftrightarrow>
     commit_inv sent ids H C K E c l \<and> cluster_inv ids c \<and> cluster_inv ids (advance c i inp out s') \<and>
     matching_inv sent ids H' (advance c i inp out s') \<and> grown H H' (servers c i) inp s' \<and> i \<in> set ids \<and>
     admissible c i inp \<and> authentic l (servers c i) inp \<and>
     vote_step (servers c i) s' \<and> elects (servers c i) inp s' \<and>
     (quiet (servers c i) s' \<or> campaign (servers c i) s' \<or> (\<exists>node. vote_counted (servers c i) node s')) \<and>
     (\<exists>ct. contiki_ok ct \<and> server_step ct (servers c i) inp out s') \<and> genuine sent ids c i inp \<and>
     commits (servers c i) inp s' \<and> informed (servers c i) inp s' \<and> same_voters (servers c i) s' \<and>
     said sent (servers c i) s'"

lemma movesD:
  assumes "moves sent ids H H' C K E c l i inp out s'"
  shows "commit_inv sent ids H C K E c l" "cluster_inv ids c" "cluster_inv ids (advance c i inp out s')"
    and "matching_inv sent ids H' (advance c i inp out s')" "grown H H' (servers c i) inp s'" "i \<in> set ids"
    and "admissible c i inp" "authentic l (servers c i) inp" "vote_step (servers c i) s'"
    and "elects (servers c i) inp s'"
    and "quiet (servers c i) s' \<or> campaign (servers c i) s' \<or> (\<exists>node. vote_counted (servers c i) node s')"
    and "matching_inv sent ids H c" "led H (won ids c) C" "vetted H (won ids c) C K E" "ballots ids C E c l"
    and "keeps H (won ids c) C K i (servers c i)" "stands H C i (servers c i)" "dated (servers c i)"
    and "current_term (servers c i) \<le> current_term s'"
    and "log_wf (servers c i)" "chained H (log_lookup (servers c i))"
    and "\<exists>ct. contiki_ok ct \<and> server_step ct (servers c i) inp out s'" "genuine sent ids c i inp"
    and "commits (servers c i) inp s'" "informed (servers c i) inp s'" "same_voters (servers c i) s'"
    and "said sent (servers c i) s'" "books ids H (won ids c) C K E"
proof -
  show inv: "commit_inv sent ids H C K E c l" and "cluster_inv ids c" "cluster_inv ids (advance c i inp out s')"
    and "matching_inv sent ids H' (advance c i inp out s')" "grown H H' (servers c i) inp s'" and i: "i \<in> set ids"
    and "admissible c i inp" "authentic l (servers c i) inp" and vote: "vote_step (servers c i) s'"
    and "elects (servers c i) inp s'"
    and "quiet (servers c i) s' \<or> campaign (servers c i) s' \<or> (\<exists>node. vote_counted (servers c i) node s')"
    and "\<exists>ct. contiki_ok ct \<and> server_step ct (servers c i) inp out s'" "genuine sent ids c i inp"
    and "commits (servers c i) inp s'" "informed (servers c i) inp s'" "same_voters (servers c i) s'"
    and "said sent (servers c i) s'"
    using assms by (simp_all add: moves_def)
  show mat: "matching_inv sent ids H c" and bk: "books ids H (won ids c) C K E" and "ballots ids C E c l"
    and "keeps H (won ids c) C K i (servers c i)" "stands H C i (servers c i)" "dated (servers c i)"
    using inv i by (simp_all add: commit_inv_def)
  show "led H (won ids c) C" "vetted H (won ids c) C K E" using bk by (simp_all add: books_def)
  show "log_wf (servers c i)" "chained H (log_lookup (servers c i))" using mat i by (simp_all add: matching_inv_def)
  show "current_term (servers c i) \<le> current_term s'" using vote by (simp add: vote_step_def)
qed

definition camps_after :: "camps \<Rightarrow> int \<Rightarrow> 'u raft_server \<Rightarrow> 'u raft_server \<Rightarrow> camps" where
  "camps_after C i s s' =
     (if me_state s' = RAFT_STATE_CANDIDATE \<and> current_term s < current_term s'
      then C((i, current_term s') \<mapsto> tip s') else C)"

definition votes_after ::
  "int list \<Rightarrow> (int \<times> int \<times> int) set \<Rightarrow> 'u cluster \<Rightarrow> int \<Rightarrow> 'u raft_server \<Rightarrow> (int \<times> int \<times> int) set" where
  "votes_after ids E c i s' = E \<union> (if \<exists>w. won ids c (current_term s') w then {} else cast_of i s')"

lemma ballotsD:
  assumes "ballots ids C E c l"
  shows "(v, t, d) \<in> cast c \<Longrightarrow> C (d, t) \<noteq> None" "E \<subseteq> cast c"
    and "(v, t, d) \<in> cast c \<Longrightarrow> \<nexists>w. won ids c t w \<Longrightarrow> (v, t, d) \<in> E"
    and "C (d, t) \<noteq> None \<Longrightarrow> t \<le> current_term (servers c d)"
    and "(d, vr) \<in> polls l \<Longrightarrow> \<exists>tp. C (d, rv_term vr) = Some tp \<and> asks vr tp"
  using assms unfolding ballots_def by blast+

lemma camps_after_le:
  assumes "ballots ids C E c l"
  shows "C \<subseteq>\<^sub>m camps_after C i (servers c i) s'"
proof -
  have "C (i, t) = None" if "current_term (servers c i) < t" for t
    using ballotsD(4) [OF assms, of i t] that by fastforce
  then show ?thesis by (auto simp: camps_after_def map_le_def)
qed

text \<open>An elected server has stood for election.\<close>

lemma won_cast: "won ids c t w \<Longrightarrow> \<exists>v. (v, t, w) \<in> cast c"
proof (rule ccontr)
  assume "won ids c t w" "\<nexists>v. (v, t, w) \<in> cast c"
  then have "raft_votes_is_majority (int (length ids)) 0" by (simp add: won_def supporters_def)
  then show False by (simp add: majority_iff)
qed

text \<open>The entry that a leader appends stands on the last one of its log.\<close>

lemma lead_append:
  assumes "moves sent ids H H' C K E c l i inp out s'" "H' \<noteq> H"
  defines "s \<equiv> servers c i"
  defines "t \<equiv> current_term s" and "n \<equiv> raft_get_current_idx s"
  obtains x p where "me_state s = RAFT_STATE_LEADER" "won ids c t i" "appended s x s'"
    "H (t, n + 1) = None" "H' = H((t, n + 1) \<mapsto> (x, p))"
    "case tip s of None \<Rightarrow> p = 0 | Some y \<Rightarrow> y = (uint p, n) \<and> H y \<noteq> None" "tip s' = Some (t, n + 1)"
proof -
  let ?p = "case log_lookup s n of Some y \<Rightarrow> ety_term y | None \<Rightarrow> 0"
  from movesD(5) [OF assms(1)] assms(2) obtain x where x: "me_state s = RAFT_STATE_LEADER" "appended s x s'"
    "uint (ety_term x) = t" "H (t, n + 1) = None" "H' = H((t, n + 1) \<mapsto> (x, ?p))"
    unfolding grown_def t_def n_def s_def by blast
  have won: "won ids c t i"
    unfolding t_def s_def by (rule won_leader [OF movesD(2,6) [OF assms(1)] x(1) [unfolded s_def]])
  have "case tip s of None \<Rightarrow> ?p = 0 | Some y \<Rightarrow> y = (uint ?p, n) \<and> H y \<noteq> None"
  proof (cases "log_lookup s n")
    case None
    then show ?thesis by (simp add: tip_def n_def)
  next
    case (Some e)
    then have "tip s = Some (uint (ety_term e), n)" by (simp add: tip_def n_def)
    with Some tip_dom(1) [OF movesD(21) [OF assms(1), folded s_def] this] show ?thesis by simp
  qed
  moreover have "tip s' = Some (t, n + 1)"
    using appended_lookup(1) [OF movesD(20) [OF assms(1), folded s_def] x(2)] x(2,3)
    by (simp add: tip_def appended_def n_def)
  ultimately show thesis using that [OF x(1) won x(2,4,5)] by blast
qed

text \<open>While a server is a candidate, and when it starts to be one, nobody has created entries of its term as its leader.\<close>

lemma candidate_none:
  assumes "cluster_inv ids c'" "created ids c (current_term (servers c i)) n" "i \<in> set ids"
    and "me_state (servers c i) = RAFT_STATE_CANDIDATE"
    and "\<And>w. won ids c (current_term (servers c i)) w \<Longrightarrow> won ids c' (current_term (servers c i)) w"
    and "won ids c' (current_term (servers c i)) i"
  shows False
  using assms(2-4) won_unique [OF assms(1,6)] assms(5) unfolding created_def by blast

lemma created_later:
  assumes "created ids c t n" "i \<in> set ids" "current_term (servers c i) < t"
  shows "\<exists>w. won ids c t w"
  using assms unfolding created_def by fastforce

lemma led_grounded:
  assumes mv: "moves sent ids H H' C K E c l i inp out s'"
  shows "grounded H'"
proof (cases "H' = H")
  case True
  then show ?thesis using ledD(2) [OF movesD(13) [OF mv]] by simp
next
  case False
  let ?s = "servers c i"
  obtain x p where lead: "me_state ?s = RAFT_STATE_LEADER"
    and H': "H' = H((current_term ?s, raft_get_current_idx ?s + 1) \<mapsto> (x, p))"
    and pr: "case tip ?s of None \<Rightarrow> p = 0 | Some y \<Rightarrow> y = (uint p, raft_get_current_idx ?s) \<and> H y \<noteq> None"
    by (rule lead_append [OF mv False]) blast
  have le: "H \<subseteq>\<^sub>m H'" by (rule grown_le [OF movesD(5) [OF mv]])
  have "uint p \<le> current_term ?s \<and> (p = 0 \<or> H (uint p, raft_get_current_idx ?s) \<noteq> None)"
  proof (cases "tip ?s")
    case None
    have "0 < current_term ?s" using movesD(6,12) [OF mv] lead by (simp add: matching_inv_def ready_def)
    with pr None show ?thesis by simp
  next
    case (Some y)
    then obtain e where e: "log_lookup ?s (raft_get_current_idx ?s) = Some e" "fst y = uint (ety_term e)"
      by (auto simp: tip_def)
    then have "fst y \<le> current_term ?s" using movesD(18) [OF mv] by (simp add: dated_def)
    with pr Some show ?thesis by auto
  qed
  then have "uint q \<le> t \<and> (q = 0 \<or> H' (uint q, n - 1) \<noteq> None)" if "H' (t, n) = Some (z, q)" for t n z q
  proof (cases "(t, n) = (current_term ?s, raft_get_current_idx ?s + 1)")
    case True
    with that H' have "q = p" by simp
    moreover have "p = 0 \<or> H' (uint p, raft_get_current_idx ?s) \<noteq> None"
      using \<open>uint p \<le> current_term ?s \<and> _\<close> map_leD [OF le] by blast
    ultimately show ?thesis using True \<open>uint p \<le> current_term ?s \<and> _\<close> by simp
  next
    case False
    then have "H (t, n) = Some (z, q)" using that H' by (simp split: if_splits)
    with ledD(2) [OF movesD(13) [OF mv]] have "uint q \<le> t \<and> (q = 0 \<or> H (uint q, n - 1) \<noteq> None)"
      unfolding grounded_def by blast
    with map_leD [OF le] show ?thesis by blast
  qed
  then show ?thesis unfolding grounded_def by blast
qed

text \<open>The last entry of a leader's log is above every other entry of its term, and above its first log.\<close>

lemma leader_tip_top:
  assumes inv: "commit_inv sent ids H C K E c l" and clu: "cluster_inv ids c" and i: "i \<in> set ids"
    and lead: "me_state (servers c i) = RAFT_STATE_LEADER"
  defines "s \<equiv> servers c i"
  shows "H (current_term s, m) \<noteq> None \<Longrightarrow> holds H (current_term s, m) (tip s) \<and> m \<le> raft_get_current_idx s"
    and "C (i, current_term s) = Some (Some x) \<Longrightarrow> holds H x (tip s) \<and> snd x \<le> raft_get_current_idx s"
proof -
  have led: "led H (won ids c) C" and mat: "matching_inv sent ids H c" and st: "stands H C i s"
    using inv i by (simp_all add: commit_inv_def books_def s_def)
  have won: "won ids c (current_term s) i" unfolding s_def by (rule won_leader [OF clu i lead])
  obtain tp where tp: "C (i, current_term s) = Some tp"
    "tip s = tp \<and> (\<forall>n. H (current_term s, n) = None) \<or> (\<exists>n. tip s = Some (current_term s, n))"
    using st lead unfolding stands_def s_def by blast
  have tip: "H y \<noteq> None \<and> snd y = raft_get_current_idx s" if "tip s = Some y" for y
    using tip_dom [OF _ that] mat i unfolding matching_inv_def s_def by blast
  show "holds H (current_term s, m) (tip s) \<and> m \<le> raft_get_current_idx s" if m: "H (current_term s, m) \<noteq> None"
  proof -
    have "created ids c (current_term s) m" using mat m by (simp add: matching_inv_def)
    then have le: "m \<le> raft_get_current_idx s"
      unfolding s_def by (rule created_fresh [OF clu _ i lead])
    obtain n where n: "tip s = Some (current_term s, n)" using tp(2) m by auto
    with tip [OF n] le ledD(3) [OF led m, of n] show ?thesis by (auto simp: holds_def)
  qed
  show "holds H x (tip s) \<and> snd x \<le> raft_get_current_idx s" if x: "C (i, current_term s) = Some (Some x)"
  proof (cases "tip s = Some x")
    case True
    with tip [OF True] show ?thesis by (simp add: holds_def below.here)
  next
    case False
    then obtain n where n: "tip s = Some (current_term s, n)" using tp x by auto
    from ledD(4) [OF led won x, of n] tip [OF n] n show ?thesis by (simp add: holds_def)
  qed
qed

lemma campaign_log:
  assumes "moves sent ids H H' C K E c l i inp out s'" "me_state s' = RAFT_STATE_CANDIDATE"
  shows "log_of s' = log_of (servers c i)"
proof -
  let ?s = "servers c i"
  from movesD(5) [OF assms(1)] assms(2) consider "log_of s' = log_of ?s"
    | ety cr where "inp = Client_Entry ety cr" "me_state ?s = RAFT_STATE_LEADER"
    unfolding grown_def by blast
  then show ?thesis
  proof cases
    case (2 ety cr)
    then have "campaign ?s s'" using movesD(11) [OF assms(1)] assms(2) by (auto simp: quiet_def vote_counted_def)
    with movesD(10) [OF assms(1)] 2(1) show ?thesis
      by (auto simp: elects_def input_term_def election_of_def campaign_def)
  qed
qed

lemma lead_below:
  assumes mv: "moves sent ids H H' C K E c l i inp out s'" and "H' \<noteq> H" "holds H a (tip (servers c i))"
  shows "below H' a (current_term (servers c i), raft_get_current_idx (servers c i) + 1)"
proof -
  let ?s = "servers c i"
  obtain x p where H': "H' = H((current_term ?s, raft_get_current_idx ?s + 1) \<mapsto> (x, p))"
    and pr: "case tip ?s of None \<Rightarrow> p = 0 | Some y \<Rightarrow> y = (uint p, raft_get_current_idx ?s) \<and> H y \<noteq> None"
    by (rule lead_append [OF mv assms(2)]) blast
  have "below H a (uint p, raft_get_current_idx ?s)" using assms(3) pr by (auto simp: holds_def)
  then have "below H' a (uint p, raft_get_current_idx ?s + 1 - 1)"
    using below_mono [OF _ grown_le [OF movesD(5) [OF mv]]] by simp
  then show ?thesis by (rule below.before [rotated]) (simp add: H')
qed

lemma grown_new:
  assumes mv: "moves sent ids H H' C K E c l i inp out s'" and n: "H' (t, n) \<noteq> None"
  obtains (old) "H (t, n) \<noteq> None"
  | (new) "t = current_term (servers c i)" "n = raft_get_current_idx (servers c i) + 1" "H' \<noteq> H"
      "me_state (servers c i) = RAFT_STATE_LEADER" "won ids c t i"
proof (cases "H (t, n) = None")
  case True
  with n have ne: "H' \<noteq> H" by auto
  from ne show thesis
    by (rule lead_append [OF mv]) (use n True new ne in \<open>auto split: if_splits\<close>)
qed (rule old)

lemma camp_old:
  assumes mv: "moves sent ids H H' C K E c l i inp out s'" and "won ids c t w"
    and "camps_after C i (servers c i) s' (w, t) = Some b"
  shows "C (w, t) = Some b"
proof -
  obtain b' where "C (w, t) = Some b'" using ledD(7) [OF movesD(13) [OF mv] assms(2)] by blast
  with map_leD [OF camps_after_le [OF movesD(15) [OF mv]] this, of i s'] assms(3) show ?thesis by simp
qed

text \<open>An entry of the term of a campaign, or of a later term, was created by an elected server.\<close>

lemma later_won:
  assumes mv: "moves sent ids H H' C K E c l i inp out s'"
    and d: "camps_after C i (servers c i) s' (d, t) = Some b" "H (t', n) \<noteq> None" "t \<le> t'"
  shows "\<exists>w. won ids c t' w"
proof (cases "C (d, t)")
  case None
  then have "t = current_term s'" "current_term (servers c i) < current_term s'"
    using d(1) by (auto simp: camps_after_def split: if_splits)
  moreover have "created ids c t' n" using movesD(12) [OF mv] d(2) by (simp add: matching_inv_def)
  ultimately show ?thesis using created_later [OF \<open>created ids c t' n\<close> movesD(6) [OF mv]] d(3) by simp
next
  case (Some b')
  from ledD(5) [OF movesD(13) [OF mv] this d(2,3)] show ?thesis .
qed

lemma led_terms:
  assumes mv: "moves sent ids H H' C K E c l i inp out s'"
    and mn: "H' (t, m) \<noteq> None" "H' (t, n) \<noteq> None" "m \<le> n"
  shows "below H' (t, m) (t, n)"
proof -
  note tops = leader_tip_top(1) [OF movesD(1,2,6) [OF mv]]
  from mv mn(2) show ?thesis
  proof (cases rule: grown_new)
    case old
    from mv mn(1) have m: "H (t, m) \<noteq> None"
    proof (cases rule: grown_new)
      case new
      with tops [OF new(4), of n] old mn(3) show ?thesis by fastforce
    qed
    from ledD(3) [OF movesD(13) [OF mv] m old mn(3)] show ?thesis
      using grown_le [OF movesD(5) [OF mv]] by (rule below_mono)
  next
    case n: new
    show ?thesis
    proof (cases "m = n")
      case True
      then show ?thesis using mn(2) by (auto intro!: below.here)
    next
      case False
      from mv mn(1) have "H (t, m) \<noteq> None" by (cases rule: grown_new) (use n False in auto)
      with tops [OF n(4), of m] lead_below [OF mv n(3)] show ?thesis by (simp add: n(1,2))
    qed
  qed
qed

lemma led_first:
  assumes mv: "moves sent ids H H' C K E c l i inp out s'"
    and w: "won ids (advance c i inp out s') t w"
    and x: "camps_after C i (servers c i) s' (w, t) = Some (Some x)" "H' (t, n) \<noteq> None"
  shows "below H' x (t, n) \<and> snd x < n"
proof -
  have uniq: "v = w" if "won ids c t v" for v
    by (rule won_unique [OF movesD(3) [OF mv] won_advance [OF that] w])
  from mv x(2) show ?thesis
  proof (cases rule: grown_new)
    case old
    have won: "won ids c t w" using later_won [OF mv x(1) old order_refl] uniq by blast
    from ledD(4) [OF movesD(13) [OF mv] won camp_old [OF mv won x(1)] old] show ?thesis
      using below_mono [OF _ grown_le [OF movesD(5) [OF mv]]] by blast
  next
    case new
    have "C (i, current_term (servers c i)) = Some (Some x)"
      using camp_old [OF mv new(5)] x(1) uniq [OF new(5)] new(1) by blast
    from leader_tip_top(2) [OF movesD(1,2,6) [OF mv] new(4) this] lead_below [OF mv new(3)]
    show ?thesis by (simp add: new(1,2))
  qed
qed

lemma led_camps:
  assumes mv: "moves sent ids H H' C K E c l i inp out s'"
    and x: "camps_after C i (servers c i) s' (d, t) = Some (Some x)"
  shows "H' x \<noteq> None \<and> fst x < t"
proof (cases "C (d, t)")
  case (Some b)
  with map_leD [OF camps_after_le [OF movesD(15) [OF mv]] Some, of i s'] x ledD(6) [OF movesD(13) [OF mv], of d t x]
    map_leD [OF grown_le [OF movesD(5) [OF mv]], of x]
  show ?thesis by auto
next
  case None
  then have t: "t = current_term s'" "current_term (servers c i) < current_term s'" "tip s' = Some x"
    "me_state s' = RAFT_STATE_CANDIDATE"
    using x by (auto simp: camps_after_def split: if_splits)
  have tip: "tip (servers c i) = Some x" using t(3) log_of_tip [OF campaign_log [OF mv t(4)]] by simp
  then have "fst x \<le> current_term (servers c i)" using movesD(18) [OF mv] by (auto simp: tip_def dated_def)
  with t(1,2) tip_dom(1) [OF movesD(21) [OF mv] tip] map_leD [OF grown_le [OF movesD(5) [OF mv]], of x]
  show ?thesis by auto
qed

lemma led_step:
  assumes mv: "moves sent ids H H' C K E c l i inp out s'"
    and cast: "\<And>v t d. (v, t, d) \<in> cast (advance c i inp out s') \<Longrightarrow> camps_after C i (servers c i) s' (d, t) \<noteq> None"
  shows "led H' (won ids (advance c i inp out s')) (camps_after C i (servers c i) s')"
proof (rule ledI)
  let ?W' = "won ids (advance c i inp out s')"
  show "history_ok H'" using movesD(4) [OF mv] by (simp add: matching_inv_def)
  show "grounded H'" by (rule led_grounded [OF mv])
  show "\<exists>w. ?W' t' w" if d: "camps_after C i (servers c i) s' (d, t) = Some b" "H' (t', n) \<noteq> None" "t \<le> t'"
    for d t b t' n
    using mv d(2) by (cases rule: grown_new) (use later_won [OF mv d(1) _ d(3)] won_advance in blast)+
  show "camps_after C i (servers c i) s' (w, t) \<noteq> None" if "?W' t w" for t w
    using won_cast [OF that] cast by blast
  show "v = w" if "?W' t v" "?W' t w" for t v w by (rule won_unique [OF movesD(3) [OF mv] that])
qed (rule led_terms [OF mv] led_first [OF mv] led_camps [OF mv]; assumption)+

section \<open>A step and the votes\<close>

text \<open>The vote of a server after a step: an old one, its own in a new election, or one for a candidate that asked.\<close>

lemma new_vote:
  assumes mv: "moves sent ids H H' C K E c l i inp out s'" and "(v, t, d) \<in> cast_of i s'"
  defines "s \<equiv> servers c i"
  obtains (old) "(v, t, d) \<in> cast c"
  | (own) "v = i" "d = i" "t = current_term s'" "current_term s' = current_term s + 1"
      "camps_after C i s s' (i, t) = Some (tip s)"
  | (asked) vr tp where "v = i" "t = current_term s'" "t = rv_term vr" "current_term s \<le> t" "log_is_current s vr"
      "C (d, t) = Some tp" "asks vr tp"
proof -
  have vote: "v = i" "t = current_term s'" "d = voted_for s'" "d \<noteq> -1"
    using assms(2) by (auto simp: cast_of_def split: if_splits)
  have mem: "member_of ids i s" and castold: "cast_of i s \<subseteq> cast c"
    using movesD(2,6) [OF mv] by (auto simp: cluster_inv_def members_inv_def cast_inv_def s_def)
  from movesD(10) [OF mv, folded s_def] consider
    (same) "election_of s' = election_of s" | (none) "voted_for s' = -1"
    | (camp) "me_state s' = RAFT_STATE_CANDIDATE" "current_term s' = current_term s + 1"
        "voted_for s' = raft_get_nodeid s" "log_of s' = log_of s"
    | (req) sender vr where "inp = Requestvote sender vr" "votes s vr s'"
    unfolding elects_def election_of_def by (auto simp: election_of_def)
  then show thesis
  proof cases
    case same
    then have "(v, t, d) \<in> cast_of i s" using assms(2) vote(4) by (auto simp: cast_of_def election_of_def)
    with castold old show thesis by blast
  next
    case camp
    have "raft_get_nodeid s = i" using mem by (auto simp: member_of_def raft_get_nodeid_def node_get_defs)
    moreover have "camps_after C i s s' (i, t) = Some (tip s)"
      using camp vote(2) log_of_tip [OF camp(4)] by (simp add: camps_after_def)
    ultimately show thesis using own vote camp by simp
  next
    case (req sender vr)
    have "(sender, vr) \<in> polls l" "candidate_id vr = sender"
      using movesD(7,8) [OF mv] req(1) by (simp_all add: authentic_def admissible_def)
    with ballotsD(5) [OF movesD(15) [OF mv]] obtain tp where "C (candidate_id vr, rv_term vr) = Some tp" "asks vr tp"
      by blast
    with req(2) vote asked show thesis by (auto simp: votes_def election_of_def)
  qed (use vote in simp)
qed

lemma ballots_step:
  assumes mv: "moves sent ids H H' C K E c l i inp out s'" and wf: "log_wf s'"
  shows "ballots ids (camps_after C i (servers c i) s') (votes_after ids E c i s')
    (advance c i inp out s') (record_sent l i (servers c i) inp out s')"
proof -
  let ?s = "servers c i" and ?c = "advance c i inp out s'"
  let ?C = "camps_after C i ?s s'" and ?E = "votes_after ids E c i s'"
  note bal = movesD(15) [OF mv] and up = movesD(19) [OF mv]
  note Cle = camps_after_le [OF bal, of i s']
  have stood: "?C (d, t) \<noteq> None" if "(v, t, d) \<in> cast ?c" for v t d
  proof -
    have "C (d, t) \<noteq> None \<or> ?C (d, t) \<noteq> None"
    proof (cases "(v, t, d) \<in> cast c")
      case False
      then have "(v, t, d) \<in> cast_of i s'" using that by simp
      then show ?thesis by (rule new_vote [OF mv]) (use False in auto)
    qed (use ballotsD(1) [OF bal] in blast)
    then show ?thesis using map_leD [OF Cle] by blast
  qed
  have "?E \<subseteq> cast ?c" using ballotsD(2) [OF bal] by (auto simp: votes_after_def)
  moreover have "(v, t, d) \<in> ?E" if "(v, t, d) \<in> cast ?c" "\<nexists>w. won ids ?c t w" for v t d
  proof -
    have "\<nexists>w. won ids c t w" using that(2) won_advance by blast
    then show ?thesis
      using that(1) ballotsD(3) [OF bal] by (auto simp: votes_after_def cast_of_def split: if_splits)
  qed
  moreover have "t \<le> current_term (servers ?c d)" if "?C (d, t) \<noteq> None" for d t
  proof (cases "C (d, t)")
    case None
    with that show ?thesis by (auto simp: camps_after_def split: if_splits)
  next
    case (Some b)
    with ballotsD(4) [OF bal, of d t] up show ?thesis by (cases "d = i") auto
  qed
  moreover have "\<exists>tp. ?C (d, rv_term vr) = Some tp \<and> asks vr tp"
    if "(d, vr) \<in> polls (record_sent l i ?s inp out s')" for d vr
  proof (cases "(d, vr) \<in> polls l")
    case True
    with ballotsD(5) [OF bal] map_leD [OF Cle] show ?thesis by blast
  next
    case False
    with that have "d = i" "vr = requestvote_for s'" "me_state s' = RAFT_STATE_CANDIDATE" "current_term ?s < current_term s'"
      by (auto simp: record_sent_def sent_polls_def split: if_splits)
    with requestvote_for_asks [OF wf] show ?thesis by (simp add: camps_after_def requestvote_for_def)
  qed
  ultimately show ?thesis using stood unfolding ballots_def by blast
qed

lemma elected_grows:
  assumes mv: "moves sent ids H H' C K E c l i inp out s'" and won: "won ids (advance c i inp out s') t w"
  shows "raft_votes_is_majority (int (length ids)) (int (card {v \<in> set ids. (v, t, w) \<in> votes_after ids E c i s'}))"
proof -
  let ?c = "advance c i inp out s'" and ?E = "votes_after ids E c i s'"
  note bal = movesD(15) [OF mv]
  have len: "card {v \<in> set ids. (v, t, w) \<in> X} \<le> length ids" for X
    by (rule order_trans [OF card_mono [of "set ids"] card_length]) auto
  have more: "raft_votes_is_majority (int (length ids)) (int (card {v \<in> set ids. (v, t, w) \<in> ?E}))"
    if "raft_votes_is_majority (int (length ids)) (int (card {v \<in> set ids. (v, t, w) \<in> X}))"
      "\<And>v. (v, t, w) \<in> X \<Longrightarrow> (v, t, w) \<in> ?E" for X
  proof -
    have "card {v \<in> set ids. (v, t, w) \<in> X} \<le> card {v \<in> set ids. (v, t, w) \<in> ?E}"
      using that(2) by (intro card_mono) auto
    with that(1) len [of ?E] show ?thesis by (simp add: majority_iff)
  qed
  show ?thesis
  proof (cases "\<exists>u. won ids c t u")
    case True
    then have "won ids c t w" using won_unique [OF movesD(3) [OF mv] won] won_advance by blast
    with movesD(1) [OF mv] show ?thesis
      by (intro more [of E]) (auto simp: commit_inv_def books_def votes_after_def)
  next
    case False
    have "raft_votes_is_majority (int (length ids)) (int (card {v \<in> set ids. (v, t, w) \<in> cast ?c}))"
      using won by (simp add: won_def supporters_def)
    then show ?thesis
      by (rule more) (use False ballotsD(3) [OF bal] in \<open>auto simp: votes_after_def cast_of_def split: if_splits\<close>)
  qed
qed

section \<open>A step and the confirmations\<close>

text \<open>A server confirms at every moment what it has of the log of the leader of its term.\<close>

definition confirmed_after ::
  "history \<Rightarrow> winners \<Rightarrow> camps \<Rightarrow> confirmations \<Rightarrow> int \<Rightarrow> 'u raft_server \<Rightarrow> confirmations" where
  "confirmed_after H W C K i s =
     K \<union> {(i, current_term s, b) | b. holds H b (tip s) \<and> owns H W C (current_term s) b}"

lemma confirmed_after_iff:
  "(v, t, b) \<in> confirmed_after H W C K i s \<longleftrightarrow>
     (v, t, b) \<in> K \<or> v = i \<and> t = current_term s \<and> holds H b (tip s) \<and> owns H W C t b"
  unfolding confirmed_after_def by blast

lemma moves_larger:
  assumes mv: "moves sent ids H H' C K E c l i inp out s'"
  shows "larger H (won ids c) C K H' (won ids (advance c i inp out s')) (camps_after C i (servers c i) s')
    (confirmed_after H'' W'' C'' K i s')"
  using grown_le [OF movesD(5) [OF mv]] camps_after_le [OF movesD(15) [OF mv], of i s'] movesD(13) [OF mv] movesD(4) [OF mv]
  by (auto simp: larger_def matching_inv_def confirmed_after_def intro: won_advance)

lemma conf_owned:
  assumes "moves sent ids H H' C K E c l i inp out s'" "(v, t, b) \<in> K"
  shows "owns H (won ids c) C t b"
  using movesD(1) [OF assms(1)] assms(2) unfolding commit_inv_def keeps_def by blast

text \<open>A vote that is new, in a term that has no leader yet.\<close>

lemma vetted_new:
  assumes mv: "moves sent ids H H' C K E c l i inp out s'" and none: "\<nexists>w. won ids c t' w"
    and cast: "(v, t', d) \<in> cast_of i s'" "(v, t', d) \<notin> cast c" and conf: "(v, t, b) \<in> K" and ab: "below H a b"
  shows "(\<exists>x y. camps_after C i (servers c i) s' (d, t') = Some (Some y) \<and> below H a x \<and> at_least y x) \<or>
    usurped H (won ids c) C t (t' - 1) a"
proof -
  let ?s = "servers c i" and ?W = "won ids c"
  have "v = i" using cast(1) by (auto simp: cast_of_def split: if_splits)
  with movesD(16) [OF mv] conf ab have has: "holds H a (tip ?s) \<or> usurped H ?W C t (current_term ?s) a"
    unfolding keeps_def by blast
  from mv cast(1) show ?thesis
  proof (cases rule: new_vote)
    case old
    with cast(2) show ?thesis by simp
  next
    case own
    from has show ?thesis
    proof
      assume "holds H a (tip ?s)"
      then obtain y where y: "tip ?s = Some y" "below H a y" by (auto simp: holds_def)
      moreover have "at_least y y" by (simp add: at_least_def)
      ultimately show ?thesis using own(2,5) by metis
    qed (use own(3,4) in simp)
  next
    case (asked vr tp)
    from has show ?thesis
    proof
      assume "holds H a (tip ?s)"
      then obtain x where x: "tip ?s = Some x" "below H a x" by (auto simp: holds_def)
      have "H x \<noteq> None" by (rule tip_dom(1) [OF movesD(21) [OF mv] x(1)])
      then have "0 < fst x" using ledD(1) [OF movesD(13) [OF mv]] by (cases x) (auto simp: history_ok_def)
      from current_at_least [OF asked(5,7) x(1) this] obtain y where "tp = Some y" "at_least y x" by blast
      with x(2) asked(6) show ?thesis using map_leD [OF camps_after_le [OF movesD(15) [OF mv]]] by blast
    next
      assume "usurped H ?W C t (current_term ?s) a"
      then obtain u w z where u: "t < u" "u \<le> current_term ?s" "?W u w" "C (w, u) = Some z" "\<not> holds H a z"
        unfolding usurped_def by blast
      with none have "u \<noteq> t'" by blast
      with u asked(4) have "usurped H ?W C t (t' - 1) a" unfolding usurped_def by fastforce
      then show ?thesis by simp
    qed
  qed
qed

lemma vetted_step:
  assumes mv: "moves sent ids H H' C K E c l i inp out s'"
  defines "W' \<equiv> won ids (advance c i inp out s')" and "C' \<equiv> camps_after C i (servers c i) s'"
  shows "vetted H' W' C' (confirmed_after H' W' C' K i s') (votes_after ids E c i s')"
  unfolding vetted_def
proof (intro allI impI, elim conjE)
  let ?E = "votes_after ids E c i s'"
  note bal = movesD(15) [OF mv] and big = moves_larger [OF mv, folded W'_def C'_def, of H' W' C']
  have castinv: "cast_inv ids (advance c i inp out s')" using movesD(3) [OF mv] by (simp add: cluster_inv_def)
  fix v t' d t b a
  assume vote: "(v, t', d) \<in> ?E" and conf: "(v, t, b) \<in> confirmed_after H' W' C' K i s'" and lt: "t < t'"
    and ab: "below H' a b"
  let ?current = "\<lambda>C H. \<exists>x y. C (d, t') = Some (Some y) \<and> below H a x \<and> at_least y x"
  have "?E \<subseteq> cast (advance c i inp out s')" using ballotsD(2) [OF bal] by (auto simp: votes_after_def)
  then have "t' \<le> current_term (servers (advance c i inp out s') v)"
    using vote castinv unfolding cast_inv_def by blast
  then have K: "(v, t, b) \<in> K" using conf lt by (auto simp: confirmed_after_iff)
  have old: "below H a b" by (rule larger_below [OF big ab conf_owned [OF mv K]])
  have "?current C' H \<or> usurped H (won ids c) C t (t' - 1) a"
  proof (cases "(v, t', d) \<in> E")
    case True
    with movesD(14) [OF mv] K lt old have "?current C H \<or> usurped H (won ids c) C t (t' - 1) a"
      unfolding vetted_def by blast
    then show ?thesis using map_leD [OF largerD(3) [OF big]] by blast
  next
    case False
    then have "\<nexists>w. won ids c t' w" "(v, t', d) \<in> cast_of i s'" "(v, t', d) \<notin> cast c"
      using vote ballotsD(3) [OF bal] by (auto simp: votes_after_def cast_of_def split: if_splits)
    from vetted_new [OF mv this K old] show ?thesis by (simp add: C'_def)
  qed
  then show "?current C' H' \<or> usurped H' W' C' t (t' - 1) a"
    using largerD(10) [OF big] below_mono [OF _ largerD(1) [OF big]] by blast
qed

end
