(* ===== verification/Raft_Commit.thy ===== *)
theory Raft_Commit
  imports Raft_Campaign
begin

text \<open>
  What a step of a server does to what is confirmed and committed: a follower keeps what it confirmed
  unless a leader that never had it came in between, what a leader knows of its peers they have
  confirmed, and the commit index only moves over committed entries.
\<close>

section \<open>A follower takes a message\<close>

lemma message_terms:
  assumes "history_ok H" "message_ok H ae" "led H W C" "\<forall>b \<in> carried ae. owns H W C t b"
    and "e \<in> set (entries ae)"
  shows "uint (ety_term e) \<le> t"
proof -
  obtain k where k: "k < length (entries ae)" "e = entries ae ! k" using assms(5) by (auto simp: in_set_conv_nth)
  obtain p where "H (uint (ety_term e), prev_log_idx ae + 1 + int k) = Some (e, p)"
    using assms(2) k unfolding message_ok_def by blast
  then have "0 < uint (ety_term e)" using assms(1) unfolding history_ok_def by blast
  moreover have "pred_term ae (Suc k) = ety_term e" using k(2) by (simp add: pred_term_def)
  moreover have "0 \<le> prev_log_idx ae" using assms(2) by (simp add: message_ok_def)
  ultimately have "(uint (ety_term e), prev_log_idx ae + int (Suc k)) \<in> carried ae"
    using k(1) unfolding carried_def by (intro CollectI exI [of _ "Suc k"]) auto
  with assms(3,4) show ?thesis using owns_term by fastforce
qed

lemma restrict_ok:
  assumes "history_ok H"
  shows "history_ok (H |` A)"
  using assms by (auto simp: history_ok_def restrict_map_def split: if_splits)

lemma restrict_chained:
  assumes "chained H L" "\<And>n x. L n = Some x \<Longrightarrow> uint (ety_term x) \<le> t"
  shows "chained (H |` {k. fst k \<le> t}) L"
  using assms unfolding chained_def by (simp add: restrict_map_def)

lemma restrict_message:
  assumes "message_ok H ae" "\<And>e. e \<in> set (entries ae) \<Longrightarrow> uint (ety_term e) \<le> t"
  shows "message_ok (H |` {k. fst k \<le> t}) ae"
  using assms unfolding message_ok_def by (simp add: restrict_map_def)

lemma chained_restrict:
  assumes "chained (H |` {k. fst k \<le> t}) L" "L n = Some x"
  shows "uint (ety_term x) \<le> t"
proof -
  obtain p where "(H |` {k. fst k \<le> t}) (uint (ety_term x), n) = Some (x, p)"
    using assms unfolding chained_def by blast
  then show ?thesis by (simp add: restrict_map_def split: if_splits)
qed

lemma ae_moves:
  assumes mv: "moves sent ids H H' C K E c l i inp out s'" and ae: "inp = Appendentries sender ae"
  defines "s \<equiv> servers c i"
  obtains r where "out = Append_Reply r" "H' = H" "won ids c (ae_term ae) sender" "took ae (commit_idx s) r s'"
    "log_of s' = log_of s \<and> commit_idx s' = commit_idx s \<and> success r = 0 \<or> current_term s' = ae_term ae"
    "tells ids H (won ids c) C K ae" "follows H (me_cb s) {} s'" "dated s'"
    "\<forall>a. holds H a (tip s) \<and> owns H (won ids c) C (ae_term ae) a \<longrightarrow> holds H a (tip s')"
proof -
  note led = movesD(13) [OF mv] and wf = movesD(20,21) [OF mv, folded s_def]
  obtain ct where ct: "contiki_ok ct" and step: "server_step ct s (Appendentries sender ae) out s'"
    using movesD(22) [OF mv] by (auto simp: s_def ae)
  from step obtain r e where out: "out = Append_Reply r" and
    run: "raft_recv_appendentries ct s (raft_get_node s sender) ae = Ok (e, r, s')"
    by (rule appendentriesE) blast
  have gen: "sender \<in> set ids" "(i, ae) \<in> sent (udata (servers c sender))" "deliverable s ae"
    using movesD(23) [OF mv] by (simp_all add: genuine_def ae s_def)
  have H: "history_ok H" "message_ok H ae" and won: "won ids c (ae_term ae) sender"
    and ready: "ready sent s"
    using movesD(6,12) [OF mv] gen(1,2) by (auto simp: matching_inv_def s_def)
  have tell: "tells ids H (won ids c) C K ae" using movesD(1) [OF mv] gen(1,2) unfolding commit_inv_def by blast
  have plain: "\<forall>e \<in> set (entries ae). \<not> raft_entry_is_cfg_change e"
    using movesD(7) [OF mv] by (simp add: ae admissible_def plain_input_def)
  have cbs: "offer_ok (me_cb s)" using ready by (simp add: ready_def)
  have auth: "(0 < prev_log_idx ae \<longrightarrow> pred_term ae 0 \<noteq> 0) \<and> (dropped s = 0 \<or> dropped s + 1 < raft_get_current_idx s)"
    using movesD(8) [OF mv] by (simp add: ae authentic_def s_def)
  have fol: "follows G (me_cb s) Q s' \<and> took ae (commit_idx s) r s'"
    if "history_ok G" "message_ok G ae" "chained G (log_lookup s)" "\<forall>a \<in> Q. holds G a (tip s)" "spares ae Q s" for G Q
    using postD [OF appendentries_follows [OF ct that(1,2) cbs plain _ gen(3) that(5)] run] wf(1) that(3,4)
    by (simp add: follows_def)
  have base: "follows H (me_cb s) {} s'" "took ae (commit_idx s) r s'"
    using fol [OF H wf(2), of "{}"] by (simp_all add: spares_def)
  have acc: "log_of s' = log_of s \<and> commit_idx s' = commit_idx s \<and> success r = 0 \<or> current_term s' = ae_term ae"
    using postD [OF appendentries_accepts run] by simp
  have "dated s'"
  proof (cases "current_term s' = ae_term ae")
    case True
    let ?H = "H |` {k. fst k \<le> current_term s'}"
    have old: "uint (ety_term x) \<le> current_term s'" if "log_lookup s n = Some x" for n x
      using movesD(18,19) [OF mv, folded s_def] that by (auto simp: dated_def intro: order_trans)
    have new: "uint (ety_term e) \<le> current_term s'" if "e \<in> set (entries ae)" for e
      unfolding True using tell that by (intro message_terms [OF H led]) (auto simp: tells_def)
    have "follows ?H (me_cb s) {} s'"
      using fol [where Q = "{}", OF restrict_ok [OF H(1)] restrict_message [OF H(2) new] restrict_chained [OF wf(2) old]]
      by (simp add: spares_def)
    then show ?thesis using chained_restrict unfolding dated_def follows_def by blast
  next
    case False
    with acc movesD(18,19) [OF mv, folded s_def] log_of_window [of s' s] show ?thesis
      unfolding dated_def by (metis order_trans)
  qed
  moreover have "\<forall>a. holds H a (tip s) \<and> owns H (won ids c) C (ae_term ae) a \<longrightarrow> holds H a (tip s')"
  proof (intro allI impI, elim conjE)
    fix a assume a: "holds H a (tip s)" "owns H (won ids c) C (ae_term ae) a"
    have "b = a" if "b \<in> carried ae" "snd b = snd a" for b
      using owns_same [OF led _ a(2) that(2)] tell that(1) unfolding tells_def by blast
    then have "spares ae {a} s" using auth unfolding spares_def by blast
    with fol [OF H wf(2), of "{a}"] a(1) show "holds H a (tip s')" by (simp add: follows_def)
  qed
  moreover have "H' = H" using movesD(5) [OF mv] by (auto simp: grown_def ae)
  ultimately show thesis using that [OF out _ won base(2) acc tell base(1)] by blast
qed

section \<open>The server that moves\<close>

text \<open>
  What happens to the log: a leader's message is taken, or an entry that was there stays and the terms of
  the entries are no newer than the server's.
\<close>

lemma log_moves:
  assumes mv: "moves sent ids H H' C K E c l i inp out s'"
  obtains (message) sender ae where "inp = Appendentries sender ae"
  | (kept) "\<forall>a. holds H a (tip (servers c i)) \<longrightarrow> holds H' a (tip s')" "dated s'"
      "\<And>sender ae. inp \<noteq> Appendentries sender ae"
proof -
  let ?s = "servers c i"
  note le = grown_le [OF movesD(5) [OF mv]]
  consider sender ae where "inp = Appendentries sender ae"
    | "\<And>sender ae. inp \<noteq> Appendentries sender ae" by blast
  then show thesis
  proof cases
    case 1
    then show thesis by (rule message)
  next
    case 2
    show thesis
    proof (cases "H' = H")
      case True
      then have lg: "log_of s' = log_of ?s" using movesD(5) [OF mv] 2 unfolding grown_def
        by (metis fun_upd_same option.distinct(1))
      have "dated s'"
        using movesD(18,19) [OF mv] log_of_window [OF lg] unfolding dated_def by (metis order_trans)
      with log_of_tip [OF lg] True show thesis by (intro kept [OF _ _ 2]) simp_all
    next
      case False
      obtain x where app: "appended ?s x s'" and tip: "tip s' = Some (current_term ?s, raft_get_current_idx ?s + 1)"
        by (rule lead_append [OF mv False]) blast
      have "holds H' a (tip s')" if "holds H a (tip ?s)" for a
        using lead_below [OF mv False that] tip by (simp add: holds_def)
      moreover have "dated s'"
        unfolding dated_def
      proof (intro allI impI)
        fix n y assume y: "log_lookup s' n = Some y"
        have "uint (ety_term y) \<le> current_term ?s"
        proof (cases "n = raft_get_current_idx ?s + 1")
          case True
          then have "(uint (ety_term y), n) = (current_term ?s, n)"
            using tip app y by (auto simp: tip_def appended_def)
          then show ?thesis by simp
        next
          case False
          from appended_lookup(2) [OF movesD(20) [OF mv] app y False] movesD(18) [OF mv]
          show ?thesis by (simp add: dated_def)
        qed
        with movesD(19) [OF mv] show "uint (ety_term y) \<le> current_term s'" by simp
      qed
      ultimately show thesis by (intro kept [OF _ _ 2]) simp_all
    qed
  qed
qed

text \<open>What was confirmed in an earlier term stays, or the leader of the message never had it.\<close>

lemma ae_keeps:
  assumes mv: "moves sent ids H H' C K E c l i inp out s'" and ae: "inp = Appendentries sender ae"
    and a: "holds H a (tip (servers c i))" "owns H (won ids c) C t a" "t \<le> current_term (servers c i)"
  shows "holds H' a (tip s') \<or> usurped H (won ids c) C t (current_term s') a"
proof (rule ae_moves [OF mv ae])
  let ?s = "servers c i" and ?W = "won ids c"
  fix r
  assume H': "H' = H" and won: "?W (ae_term ae) sender"
    and acc: "log_of s' = log_of ?s \<and> commit_idx s' = commit_idx ?s \<and> success r = 0 \<or> current_term s' = ae_term ae"
    and stay: "\<forall>a. holds H a (tip ?s) \<and> owns H ?W C (ae_term ae) a \<longrightarrow> holds H a (tip s')"
  show ?thesis
  proof (cases "current_term s' = ae_term ae")
    case False
    with acc a(1) H' log_of_tip [of s' ?s] show ?thesis by simp
  next
    case True
    obtain b where b: "C (sender, ae_term ae) = Some b" using ledD(7) [OF movesD(13) [OF mv] won] by blast
    consider "t = ae_term ae" | "t < ae_term ae" "holds H a b" | "t < ae_term ae" "\<not> holds H a b"
      using a(3) movesD(19) [OF mv] True by linarith
    then show ?thesis
    proof cases
      case 1
      with stay a(1,2) H' show ?thesis by blast
    next
      case 2
      with owns_camp [of ?W "ae_term ae" sender C b H a] won b stay a(1) H' show ?thesis by blast
    next
      case 3
      then show ?thesis using won b True unfolding usurped_def by fastforce
    qed
  qed
qed

lemma keeps_old:
  assumes mv: "moves sent ids H H' C K E c l i inp out s'" and conf: "(i, t, b) \<in> K" and ab: "below H a b"
  shows "holds H' a (tip s') \<or> usurped H (won ids c) C t (current_term s') a"
proof -
  let ?s = "servers c i" and ?W = "won ids c"
  have own: "owns H ?W C t a" "t \<le> current_term ?s"
    and has: "holds H a (tip ?s) \<or> usurped H ?W C t (current_term ?s) a"
    using movesD(16) [OF mv] conf ab owns_below unfolding keeps_def by blast+
  show ?thesis
  proof (cases "holds H a (tip ?s)")
    case False
    with has usurped_le [OF _ movesD(19) [OF mv]] show ?thesis by blast
  next
    case True
    show ?thesis
      by (rule log_moves [OF mv]) (use True ae_keeps [OF mv _ True own] in blast)+
  qed
qed

lemma dated_step:
  assumes mv: "moves sent ids H H' C K E c l i inp out s'"
  shows "dated s'"
  by (rule log_moves [OF mv]) (auto intro: ae_moves [OF mv])

lemma keeps_step:
  assumes mv: "moves sent ids H H' C K E c l i inp out s'"
  defines "W' \<equiv> won ids (advance c i inp out s')" and "C' \<equiv> camps_after C i (servers c i) s'"
  defines "K' \<equiv> confirmed_after H' W' C' K i s'"
  shows "keeps H' W' C' K' i s'"
  unfolding keeps_def
proof (intro allI impI)
  note big = moves_larger [OF mv, folded W'_def C'_def, of H' W' C', folded K'_def]
  fix t b assume "(i, t, b) \<in> K'"
  then consider (old) "(i, t, b) \<in> K" | (new) "t = current_term s'" "holds H' b (tip s')" "owns H' W' C' t b"
    unfolding K'_def confirmed_after_iff by blast
  then show "owns H' W' C' t b \<and> t \<le> current_term s' \<and>
    (\<forall>a. below H' a b \<longrightarrow> holds H' a (tip s') \<or> usurped H' W' C' t (current_term s') a)"
  proof cases
    case old
    have own: "owns H (won ids c) C t b" "t \<le> current_term (servers c i)"
      using movesD(16) [OF mv] old unfolding keeps_def by blast+
    have "holds H' a (tip s') \<or> usurped H' W' C' t (current_term s') a" if "below H' a b" for a
      using keeps_old [OF mv old larger_below [OF big that own(1)]] largerD(10) [OF big] by blast
    with largerD(8) [OF big own(1)] own(2) movesD(19) [OF mv] show ?thesis by simp
  next
    case new
    then show ?thesis unfolding holds_def by (blast intro: below_trans)
  qed
qed

lemma leader_after:
  assumes mv: "moves sent ids H H' C K E c l i inp out s'" and lead: "me_state s' = RAFT_STATE_LEADER"
  shows "won ids (advance c i inp out s') (current_term s') i"
  using won_leader [OF movesD(3,6) [OF mv]] lead by simp

lemma stands_candidate:
  assumes mv: "moves sent ids H H' C K E c l i inp out s'" and cand: "me_state s' = RAFT_STATE_CANDIDATE"
  shows "camps_after C i (servers c i) s' (i, current_term s') = Some (tip s')"
proof -
  let ?s = "servers c i" and ?C = "camps_after C i (servers c i) s'"
  note Cle = map_leD [OF camps_after_le [OF movesD(15) [OF mv]], of _ _ i s']
  note st = movesD(17) [OF mv, unfolded stands_def]
  have tip: "tip s' = tip ?s" by (rule log_of_tip [OF campaign_log [OF mv cand]])
  from movesD(11) [OF mv] cand consider "me_state ?s = RAFT_STATE_CANDIDATE" "current_term s' = current_term ?s"
    | "current_term ?s < current_term s'"
    by (auto simp: quiet_def vote_counted_def campaign_def election_of_def)
  then show ?thesis
  proof cases
    case 1
    with st tip Cle show ?thesis by simp
  qed (simp add: camps_after_def cand)
qed

lemma stands_leader:
  assumes mv: "moves sent ids H H' C K E c l i inp out s'" and lead: "me_state s' = RAFT_STATE_LEADER"
  shows "\<exists>tp. camps_after C i (servers c i) s' (i, current_term s') = Some tp \<and>
    (tip s' = tp \<and> (\<forall>n. H' (current_term s', n) = None) \<or> (\<exists>n. tip s' = Some (current_term s', n)))"
proof -
  let ?s = "servers c i" and ?C = "camps_after C i (servers c i) s'"
  note Cle = map_leD [OF camps_after_le [OF movesD(15) [OF mv]], of _ _ i s']
  note st = movesD(17) [OF mv, unfolded stands_def]
  have t: "current_term s' = current_term ?s" and
    role: "me_state ?s = RAFT_STATE_LEADER \<or> me_state ?s = RAFT_STATE_CANDIDATE"
    using movesD(11) [OF mv] lead by (auto simp: quiet_def vote_counted_def campaign_def election_of_def)
  show ?thesis
  proof (cases "H' = H")
    case True
    then have tip: "tip s' = tip ?s"
      using movesD(5) [OF mv] lead unfolding grown_def by (metis fun_upd_same log_of_tip option.distinct(1))
    show ?thesis
    proof (cases "me_state ?s = RAFT_STATE_LEADER")
      case l: True
      with st obtain tp where "C (i, current_term ?s) = Some tp"
        "tip ?s = tp \<and> (\<forall>n. H (current_term ?s, n) = None) \<or> (\<exists>n. tip ?s = Some (current_term ?s, n))"
        by blast
      with Cle tip t True show ?thesis by auto
    next
      case False
      then have cand: "me_state ?s = RAFT_STATE_CANDIDATE" using role by simp
      have "H (current_term ?s, n) = None" for n
      proof (rule ccontr)
        assume "H (current_term ?s, n) \<noteq> None"
        then have "created ids c (current_term ?s) n" using movesD(12) [OF mv] by (simp add: matching_inv_def)
        from candidate_none [OF movesD(3) [OF mv] this movesD(6) [OF mv] cand won_advance]
        show False using leader_after [OF mv lead] t by simp
      qed
      with st cand Cle tip t True show ?thesis by auto
    qed
  next
    case False
    obtain x p where l: "me_state ?s = RAFT_STATE_LEADER" "tip s' = Some (current_term ?s, raft_get_current_idx ?s + 1)"
      by (rule lead_append [OF mv False]) blast
    with st obtain tp where "C (i, current_term ?s) = Some tp" by blast
    with Cle l t show ?thesis by auto
  qed
qed

lemma stands_step:
  assumes mv: "moves sent ids H H' C K E c l i inp out s'"
  shows "stands H' (camps_after C i (servers c i) s') i s'"
  using stands_candidate [OF mv] stands_leader [OF mv] unfolding stands_def by blast

lemma stands_other:
  assumes mv: "moves sent ids H H' C K E c l i inp out s'" and st: "stands H C j (servers c j)"
    and j: "j \<in> set ids" "j \<noteq> i"
  shows "stands H' (camps_after C i (servers c i) s') j (servers c j)"
proof -
  let ?t = "current_term (servers c j)"
  have Cle: "camps_after C i (servers c i) s' k = Some b" if "C k = Some b" for k b
    using camps_after_le [OF movesD(15) [OF mv], of i s'] that by (rule map_leD)
  have "H' (?t, n) = H (?t, n)" if "me_state (servers c j) = RAFT_STATE_LEADER" for n
  proof (cases "H' = H")
    case False
    obtain x p where won: "won ids c (current_term (servers c i)) i"
      and H': "H' = H((current_term (servers c i), raft_get_current_idx (servers c i) + 1) \<mapsto> (x, p))"
      by (rule lead_append [OF mv False]) blast
    have "?t \<noteq> current_term (servers c i)"
      using won_unique [OF movesD(2) [OF mv] won] won_leader [OF movesD(2) [OF mv] j(1) that] j(2) by metis
    then show ?thesis by (simp add: H')
  qed simp
  with st Cle show ?thesis unfolding stands_def by metis
qed

lemma knows_step:
  assumes mv: "moves sent ids H H' C K E c l i inp out s'" and sub: "K \<subseteq> K'"
  shows "knows K' s'"
  unfolding knows_def
proof (intro impI ballI)
  let ?s = "servers c i"
  fix a assume lead: "me_state s' = RAFT_STATE_LEADER" and a: "a \<in> set (nodes_list s')" "me_node s' \<noteq> Some a"
  have same: "nodes_list s' = nodes_list ?s" "me_node s' = me_node ?s"
    "node_id (nodes_mem s' a) = node_id (nodes_mem ?s a)"
    using movesD(26) [OF mv] by (simp_all add: same_voters_def)
  have "member_of ids i ?s" and k: "knows K ?s" and ans: "\<And>v r. (v, r) \<in> answers l \<Longrightarrow> confirms K v r"
    using movesD(1,2,6) [OF mv] by (simp_all add: cluster_inv_def members_inv_def commit_inv_def)
  then have act: "raft_node_is_active (nodes_mem ?s a)" using a same by (simp add: member_of_def)
  from movesD(25) [OF mv, unfolded informed_def] lead a act same consider
    (none) "match_idx (nodes_mem s' a) = 0"
    | (same) "me_state ?s = RAFT_STATE_LEADER" "current_term s' = current_term ?s"
        "match_idx (nodes_mem s' a) = match_idx (nodes_mem ?s a)"
    | (told) ar where "inp = Appendentries_Response (node_id (nodes_mem ?s a)) ar" "success ar \<noteq> 0"
        "current_term s' = current_term ?s" "aer_term ar = current_term ?s" "match_idx (nodes_mem s' a) = aer_current_idx ar"
    by auto
  then show "match_idx (nodes_mem s' a) \<le> 0 \<or>
    (\<exists>b. (node_id (nodes_mem s' a), current_term s', b) \<in> K' \<and> match_idx (nodes_mem s' a) \<le> snd b)"
  proof cases
    case same': same
    with k a same sub show ?thesis unfolding knows_def by (metis subsetD)
  next
    case (told ar)
    then have "(node_id (nodes_mem ?s a), ar) \<in> answers l" using movesD(8) [OF mv] by (simp add: authentic_def)
    with ans told same sub show ?thesis unfolding confirms_def by (metis subsetD)
  qed simp
qed

text \<open>An entry of its own term that a leader counts a majority for is chosen.\<close>

lemma own_log_owned:
  assumes "stands H C i s" "me_state s = RAFT_STATE_LEADER" "won ids c (current_term s) i" "holds H a (tip s)"
  shows "owns H (won ids c) C (current_term s) a"
proof -
  obtain y where y: "tip s = Some y" "below H a y" using assms(4) by (auto simp: holds_def)
  obtain tp where tp: "C (i, current_term s) = Some tp" "tip s = tp \<or> (\<exists>n. tip s = Some (current_term s, n))"
    using assms(1,2) unfolding stands_def by blast
  then have "fst y = current_term s \<or> C (i, current_term s) = Some (Some y)" using y(1) by auto
  with assms(3) y(2) show ?thesis unfolding owns_def by blast
qed

lemma committable_chosen:
  assumes mem: "member_of ids i s" "distinct ids" and led: "led H (won ids c) C"
    and wf: "log_wf s" "chained H (log_lookup s)" and st: "stands H C i s" and k: "knows K s"
    and lead: "me_state s = RAFT_STATE_LEADER" "won ids c (current_term s) i"
    and rng: "0 \<le> current_term s" "in_int (current_term s)"
    and conf: "\<And>v t b. (v, t, b) \<in> K \<Longrightarrow> owns H (won ids c) C t b"
    and own: "\<And>b. holds H b (tip s) \<Longrightarrow> (i, current_term s, b) \<in> K"
    and com: "committable s n"
  shows "holds H (current_term s, n) (tip s) \<and> chosen ids H (won ids c) K (current_term s, n)"
proof -
  let ?a = "(current_term s, n)" and ?id = "\<lambda>m. node_id (nodes_mem s m)"
  obtain x where x: "log_lookup s n = Some x" "ety_term x = to_unsigned (current_term s)"
    and maj: "raft_get_num_voting_nodes s < 2 * commit_votes s n"
    using com by (auto simp: committable_def)
  have has: "holds H ?a (tip s)" using holds_lookup [OF wf x(1)] x(2) uint_term [OF rng] by simp
  then have a: "H ?a \<noteq> None" by (auto simp: holds_def dest: below_dom)
  obtain m where m: "me_node s = Some m" "m \<in> set (nodes_list s)" "?id m = i" using mem(1) by (auto simp: member_of_def)
  have nodes: "inj_on ?id (set (nodes_list s))" "distinct (nodes_list s)" using member_inj [OF mem(1)] by simp_all
  have voters: "voters s = set (nodes_list s)" and ids: "?id ` set (nodes_list s) = set ids"
    using mem(1) by (auto simp: voters_def member_of_def node_ids_def)
  have votes: "commit_votes s n = int (card (set (nodes_list s) \<inter> holds_up_to s n))"
    using commit_votes_card [OF nodes(2) m(1)] m(2) voters by simp
  have "0 < n" using a ledD(1) [OF led] by (auto simp: history_ok_def)
  have "?id v \<in> confirmers H K ?a" if v: "v \<in> set (nodes_list s) \<inter> holds_up_to s n" for v
  proof (cases "me_node s = Some v")
    case True
    with m own [OF has] below.here [of H ?a] a show ?thesis by (auto simp: confirmers_def)
  next
    case False
    with v have "n \<le> match_idx (nodes_mem s v)" by (simp add: holds_up_to_def)
    with k lead(1) v False \<open>0 < n\<close> obtain b where b: "(?id v, current_term s, b) \<in> K" "n \<le> snd b"
      unfolding knows_def by (metis Int_iff linorder_not_less order_trans)
    have "below H ?a b"
      by (rule owns_linear [OF led owns_own [of H "current_term s" n, OF a] conf [OF b(1)]]) (simp add: b(2))
    with b(1) show ?thesis unfolding confirmers_def fst_conv by blast
  qed
  then have "?id ` (set (nodes_list s) \<inter> holds_up_to s n) \<subseteq> set ids \<inter> confirmers H K ?a"
    using ids by auto
  from card_mono [OF _ this] have "card (set (nodes_list s) \<inter> holds_up_to s n) \<le> card (set ids \<inter> confirmers H K ?a)"
    using card_image [OF inj_on_subset [OF nodes(1)], of "set (nodes_list s) \<inter> holds_up_to s n"] by simp
  moreover have "card (set ids \<inter> confirmers H K ?a) \<le> length ids"
    by (rule order_trans [OF card_mono [of "set ids"] card_length]) auto
  ultimately have "raft_votes_is_majority (int (length ids)) (int (card (set ids \<inter> confirmers H K ?a)))"
    using maj votes member_num_voting [OF mem] by (simp add: majority_iff)
  with has a lead(2) show ?thesis by (auto simp: chosen_def)
qed

lemma moved_server:
  assumes mv: "moves sent ids H H' C K E c l i inp out s'"
  shows "ready sent s'" "log_wf s'" "chained H' (log_lookup s')" "member_of ids i s'" "distinct ids"
proof -
  let ?c = "advance c i inp out s'"
  have "ready sent (servers ?c i)" "log_wf (servers ?c i)" "chained H' (log_lookup (servers ?c i))"
    using movesD(4,6) [OF mv] unfolding matching_inv_def by blast+
  then show "ready sent s'" "log_wf s'" "chained H' (log_lookup s')" by simp_all
  have "member_of ids i (servers ?c i)" "distinct ids"
    using movesD(3,6) [OF mv] unfolding cluster_inv_def members_inv_def by blast+
  then show "member_of ids i s'" "distinct ids" by simp_all
qed

lemma books_step:
  assumes mv: "moves sent ids H H' C K E c l i inp out s'"
  defines "W' \<equiv> won ids (advance c i inp out s')" and "C' \<equiv> camps_after C i (servers c i) s'"
  shows "books ids H' W' C' (confirmed_after H' W' C' K i s') (votes_after ids E c i s')"
proof -
  note bal = ballots_step [OF mv moved_server(2) [OF mv]]
  have "led H' W' C'" unfolding W'_def C'_def by (rule led_step [OF mv]) (rule ballotsD(1) [OF bal])
  with vetted_step [OF mv] elected_grows [OF mv] show ?thesis by (simp add: books_def W'_def C'_def)
qed

text \<open>The commit index of a follower moves to an index that the leader had committed.\<close>

lemma backed_message:
  assumes mv: "moves sent ids H H' C K E c l i inp out s'" and ae: "inp = Appendentries sender ae"
    and moved: "commit_idx s' \<noteq> commit_idx (servers c i)" "0 < commit_idx s'"
  shows "\<exists>a. commit_idx s' \<le> snd a \<and> holds H' a (tip s') \<and> committed ids H (won ids c) K (current_term s') a"
proof (rule ae_moves [OF mv ae])
  fix r
  assume H': "H' = H" and took: "took ae (commit_idx (servers c i)) r s'"
    and acc: "log_of s' = log_of (servers c i) \<and> commit_idx s' = commit_idx (servers c i) \<and> success r = 0 \<or>
      current_term s' = ae_term ae"
    and tell: "tells ids H (won ids c) C K ae" and fol: "follows H (me_cb (servers c i)) {} s'"
  have com: "commit_idx s' \<le> leader_commit ae" "meets s' ae (length (entries ae))"
    and cur: "current_term s' = ae_term ae" using took acc moved(1) by (auto simp: took_def)
  from tell com(1) moved(2) obtain a where pos: "0 < prev_log_idx ae + int (length (entries ae))"
    and a: "leader_commit ae \<le> snd a" "committed ids H (won ids c) K (ae_term ae) a"
    "\<And>b. b \<in> carried ae \<Longrightarrow> snd b = prev_log_idx ae + int (length (entries ae)) \<Longrightarrow> below H a b"
    unfolding tells_def by (metis linorder_not_less order_trans)
  obtain b where "b \<in> carried ae" "snd b = prev_log_idx ae + int (length (entries ae))" "holds H b (tip s')"
    using meets_carried [OF fol ledD(1) [OF movesD(13) [OF mv]] com(2) order_refl pos] by blast
  with a(3) have "holds H' a (tip s')" unfolding H' holds_def by (blast intro: below_trans)
  with com(1) a(1,2) cur show ?thesis by (metis order_trans)
qed

text \<open>The commit index of a leader moves to an entry of its own that is chosen.\<close>

lemma backed_count:
  assumes mv: "moves sent ids H H' C K E c l i inp out s'" and lead: "me_state s' = RAFT_STATE_LEADER"
    and com: "committable s' n"
  defines "W' \<equiv> won ids (advance c i inp out s')" and "C' \<equiv> camps_after C i (servers c i) s'"
  defines "K' \<equiv> confirmed_after H' W' C' K i s'"
  shows "holds H' (current_term s', n) (tip s') \<and> chosen ids H' W' K' (current_term s', n)"
  unfolding W'_def
proof (rule committable_chosen [OF _ _ _ _ _ _ _ lead leader_after [OF mv lead] _ _ _ _ com])
  note big = moves_larger [OF mv, folded W'_def C'_def, of H' W' C', folded K'_def]
  note srv = moved_server [OF mv] and st = stands_step [OF mv, folded C'_def]
  show "led H' (won ids (advance c i inp out s')) C'" using books_step [OF mv] by (simp add: books_def C'_def)
  show "0 \<le> current_term s'" "in_int (current_term s')" using srv(1) by (simp_all add: ready_def)
  show "stands H' C' i s'" by (rule st)
  show "knows K' s'" by (rule knows_step [OF mv largerD(4) [OF big]])
  show "owns H' (won ids (advance c i inp out s')) C' t b" if "(v, t, b) \<in> K'" for v t b
    using that largerD(8) [OF big conf_owned [OF mv]] unfolding K'_def confirmed_after_iff W'_def by blast
  show "(i, current_term s', b) \<in> K'" if "holds H' b (tip s')" for b
    using own_log_owned [OF st lead leader_after [OF mv lead] that] that
    unfolding K'_def confirmed_after_iff W'_def by blast
qed (rule moved_server [OF mv])+

text \<open>A committed entry stays in the log.\<close>

lemma committed_stays:
  assumes mv: "moves sent ids H H' C K E c l i inp out s'"
    and a: "holds H a (tip (servers c i))" "committed ids H (won ids c) K (current_term (servers c i)) a"
  shows "holds H' a (tip s')"
proof (rule log_moves [OF mv])
  let ?s = "servers c i"
  fix sender ae assume ae: "inp = Appendentries sender ae"
  show ?thesis
  proof (rule ae_moves [OF mv ae])
    fix r
    assume H': "H' = H" and won: "won ids c (ae_term ae) sender"
      and acc: "log_of s' = log_of ?s \<and> commit_idx s' = commit_idx ?s \<and> success r = 0 \<or> current_term s' = ae_term ae"
      and keep: "\<forall>a. holds H a (tip ?s) \<and> owns H (won ids c) C (ae_term ae) a \<longrightarrow> holds H a (tip s')"
    show ?thesis
    proof (cases "current_term s' = ae_term ae")
      case False
      with acc a(1) H' log_of_tip [of s' ?s] show ?thesis by simp
    next
      case True
      then have "committed ids H (won ids c) K (ae_term ae) a"
        using committed_le [OF a(2)] movesD(19) [OF mv] by simp
      with committed_owned [OF movesD(28) [OF mv] _ won] keep a(1) H' show ?thesis by blast
    qed
  qed
qed (use a(1) in blast)

lemma backed_step:
  assumes mv: "moves sent ids H H' C K E c l i inp out s'"
  defines "W' \<equiv> won ids (advance c i inp out s')" and "C' \<equiv> camps_after C i (servers c i) s'"
  defines "K' \<equiv> confirmed_after H' W' C' K i s'"
  shows "backed ids H' W' K' s'"
proof -
  let ?s = "servers c i"
  note big = moves_larger [OF mv, folded W'_def C'_def, of H' W' C', folded K'_def]
  from movesD(24) [OF mv, unfolded commits_def] consider (same) "commit_idx s' = commit_idx ?s"
    | (took) sender ae where "commit_idx s' \<noteq> commit_idx ?s" "inp = Appendentries sender ae"
    | (counted) "me_state s' = RAFT_STATE_LEADER" "committable s' (commit_idx s')" by blast
  then show ?thesis
  proof cases
    case same
    have "backed ids H (won ids c) K ?s" using movesD(1,6) [OF mv] by (simp add: commit_inv_def)
    with same committed_stays [OF mv] committed_le [OF largerD(9) [OF big] movesD(19) [OF mv]] show ?thesis
      unfolding backed_def by metis
  next
    case took
    show ?thesis
    proof (cases "0 < commit_idx s'")
      case True
      from backed_message [OF mv took(2,1) True] largerD(9) [OF big] show ?thesis unfolding backed_def by blast
    qed (simp add: backed_def)
  next
    case counted
    let ?a = "(current_term s', commit_idx s')"
    have a: "holds H' ?a (tip s')" "chosen ids H' W' K' ?a"
      using backed_count [OF mv counted] by (simp_all add: W'_def C'_def K'_def)
    then have "below H' ?a ?a" by (intro below.here) (simp add: chosen_def)
    with a(2) have "committed ids H' W' K' (current_term s') ?a" unfolding committed_def by (metis fst_conv order_refl)
    with a(1) show ?thesis unfolding backed_def by (metis order_refl snd_conv)
  qed
qed

section \<open>What is said in a step\<close>

lemma tells_step:
  assumes mv: "moves sent ids H H' C K E c l i inp out s'" and msg: "leader_message s' n ae"
  defines "W' \<equiv> won ids (advance c i inp out s')" and "C' \<equiv> camps_after C i (servers c i) s'"
  defines "K' \<equiv> confirmed_after H' W' C' K i s'"
  shows "tells ids H' W' C' K' ae"
proof -
  note srv = moved_server [OF mv] and st = stands_step [OF mv, folded C'_def]
  have lead: "me_state s' = RAFT_STATE_LEADER" using msg by (simp add: leader_message_def)
  note won = leader_after [OF mv lead]
  have snap: "snapshot_last_term s' = 0" using srv(1) by (simp add: ready_def)
  obtain k where t: "ae_term ae = current_term s'" and lc: "leader_commit ae \<le> commit_idx s'"
    by (rule leader_message_entries [OF msg srv(2)]) blast
  have own: "owns H' W' C' (ae_term ae) b" if b: "b \<in> carried ae" for b
  proof -
    obtain x where x: "log_lookup s' (snd b) = Some x" "uint (ety_term x) = fst b"
      using carried_lookup(1) [OF msg srv(2) snap b] by blast
    have "holds H' b (tip s')" using holds_lookup [OF srv(2,3) x(1)] x(2) by simp
    from own_log_owned [OF st lead won this] show ?thesis by (simp add: t W'_def)
  qed
  have "backed ids H' W' K' s'" unfolding W'_def C'_def K'_def by (rule backed_step [OF mv])
  then consider "commit_idx s' \<le> 0" | a where "commit_idx s' \<le> snd a" "holds H' a (tip s')"
    "committed ids H' W' K' (current_term s') a" unfolding backed_def by blast
  then show ?thesis
  proof cases
    case 1
    with lc own show ?thesis by (simp add: tells_def)
  next
    case (2 a)
    obtain y where y: "tip s' = Some y" "below H' a y" using 2(2) by (auto simp: holds_def)
    have "snd y = raft_get_current_idx s'" "H' y \<noteq> None" using tip_dom [OF srv(3) y(1)] by simp_all
    moreover have "history_ok H'" using movesD(4) [OF mv] by (simp add: matching_inv_def)
    ultimately have "0 < raft_get_current_idx s'" by (cases y) (auto simp: history_ok_def)
    from message_end [OF msg srv(2) this]
    have pos: "0 < prev_log_idx ae + int (length (entries ae))" .
    have "below H' a b" if "b \<in> carried ae" "snd b = prev_log_idx ae + int (length (entries ae))" for b
      using carried_lookup(2) [OF msg srv(2) snap that] y by simp
    with own pos 2 lc t show ?thesis unfolding tells_def by (metis order_trans)
  qed
qed

lemma confirms_step:
  assumes mv: "moves sent ids H H' C K E c l i inp out s'"
  defines "W' \<equiv> won ids (advance c i inp out s')" and "C' \<equiv> camps_after C i (servers c i) s'"
  defines "K' \<equiv> confirmed_after H' W' C' K i s'"
  assumes ans: "(v, r) \<in> answers (record_sent l i (servers c i) inp out s')"
  shows "confirms K' v r"
proof (cases "(v, r) \<in> answers l")
  case True
  then have "confirms K v r" using movesD(1) [OF mv] by (simp add: commit_inv_def)
  then show ?thesis by (rule confirms_mono) (auto simp: K'_def confirmed_after_def)
next
  case False
  then obtain sender ae where ae: "inp = Appendentries sender ae" and new: "v = i" "out = Append_Reply r"
    using ans by (auto simp: record_sent_def sent_answers_def split: server_input.splits server_output.splits)
  note big = moves_larger [OF mv, folded W'_def C'_def, of H' W' C', folded K'_def]
  show ?thesis
  proof (rule ae_moves [OF mv ae])
    fix r'
    assume "out = Append_Reply r'" and H': "H' = H" and took: "took ae (commit_idx (servers c i)) r' s'"
      and acc: "log_of s' = log_of (servers c i) \<and> commit_idx s' = commit_idx (servers c i) \<and> success r' = 0 \<or>
        current_term s' = ae_term ae"
      and tell: "tells ids H (won ids c) C K ae" and fol: "follows H (me_cb (servers c i)) {} s'"
    then have r: "r' = r" using new by simp
    show ?thesis
      unfolding confirms_def
    proof (rule impI)
      assume ok: "success r \<noteq> 0"
      then obtain m where m: "m \<le> length (entries ae)" "aer_current_idx r = prev_log_idx ae + int m" "meets s' ae m"
        and t: "aer_term r = current_term s'" "current_term s' = ae_term ae"
        using took acc by (auto simp: took_def r)
      show "aer_current_idx r \<le> 0 \<or> (\<exists>b. (v, aer_term r, b) \<in> K' \<and> aer_current_idx r \<le> snd b)"
      proof (cases "0 < prev_log_idx ae + int m")
        case True
        then obtain b where b: "b \<in> carried ae" "snd b = prev_log_idx ae + int m" "holds H b (tip s')"
          using meets_carried [OF fol ledD(1) [OF movesD(13) [OF mv]] m(3,1)] by blast
        have "owns H' W' C' (ae_term ae) b" using tell b(1) largerD(8) [OF big] by (simp add: tells_def)
        with b(3) H' t new(1) have "(v, aer_term r, b) \<in> K'" unfolding K'_def confirmed_after_iff by simp
        then show ?thesis using b(2) m(2) by (metis order_refl)
      qed (use m(2) in simp)
    qed
  qed
qed

end
