(* ===== verification/Raft_Agreement.thy ===== *)
theory Raft_Agreement
  imports Raft_Commit
begin

text \<open>
  The invariant of \<open>Raft_Ledger\<close> in every reachable state, and what it gives: the servers agree on
  committed entries, and a leader has every entry committed before.
\<close>

section \<open>All steps\<close>

lemma commit_inv_moves:
  assumes mv: "moves sent ids H H' C K E c l i inp out s'"
  defines "W' \<equiv> won ids (advance c i inp out s')" and "C' \<equiv> camps_after C i (servers c i) s'"
  defines "K' \<equiv> confirmed_after H' W' C' K i s'"
  shows "commit_inv sent ids H' C' K' (votes_after ids E c i s') (advance c i inp out s')
    (record_sent l i (servers c i) inp out s')"
proof -
  let ?c = "advance c i inp out s'"
  note big = moves_larger [OF mv, folded W'_def C'_def, of H' W' C', folded K'_def]
  have inv: "keeps H (won ids c) C K j (servers c j)" "stands H C j (servers c j)" "knows K (servers c j)"
    "backed ids H (won ids c) K (servers c j)" "dated (servers c j)"
    "\<And>n ae. (n, ae) \<in> sent (udata (servers c j)) \<Longrightarrow> tells ids H (won ids c) C K ae" if "j \<in> set ids" for j
    using movesD(1) [OF mv] that by (simp_all add: commit_inv_def)
  have other: "keeps H' W' C' K' j (servers c j) \<and> stands H' C' j (servers c j) \<and> knows K' (servers c j) \<and>
      backed ids H' W' K' (servers c j) \<and> dated (servers c j) \<and>
      (\<forall>n ae. (n, ae) \<in> sent (udata (servers c j)) \<longrightarrow> tells ids H' W' C' K' ae)" if j: "j \<in> set ids" "j \<noteq> i" for j
  proof (intro conjI allI impI)
    show "keeps H' W' C' K' j (servers c j)"
      by (rule keeps_mono [OF inv(1) [OF j(1)] big]) (use j(2) in \<open>simp add: K'_def confirmed_after_iff\<close>)
    show "stands H' C' j (servers c j)"
      unfolding C'_def by (rule stands_other [OF mv inv(2) [OF j(1)] j])
    show "knows K' (servers c j)" by (rule knows_mono [OF inv(3) [OF j(1)] largerD(4) [OF big]])
    show "backed ids H' W' K' (servers c j)" by (rule backed_mono [OF inv(4) [OF j(1)] big])
    show "dated (servers c j)" by (rule inv(5) [OF j(1)])
    show "tells ids H' W' C' K' ae" if "(n, ae) \<in> sent (udata (servers c j))" for n ae
      by (rule tells_mono [OF inv(6) [OF j(1) that] big])
  qed
  have mine: "tells ids H' W' C' K' ae" if "(n, ae) \<in> sent (udata s')" for n ae
  proof (cases "(n, ae) \<in> sent (udata (servers c i))")
    case True
    then show ?thesis by (rule tells_mono [OF inv(6) [OF movesD(6) [OF mv]] big])
  next
    case False
    then have "leader_message s' n ae" using that movesD(27) [OF mv] by (auto simp: said_def)
    from tells_step [OF mv this] show ?thesis by (simp add: W'_def C'_def K'_def)
  qed
  have "keeps H' W' C' K' j (servers ?c j) \<and> stands H' C' j (servers ?c j) \<and> knows K' (servers ?c j) \<and>
      backed ids H' W' K' (servers ?c j) \<and> dated (servers ?c j) \<and>
      (\<forall>n ae. (n, ae) \<in> sent (udata (servers ?c j)) \<longrightarrow> tells ids H' W' C' K' ae)" if "j \<in> set ids" for j
  proof (cases "j = i")
    case True
    with mine keeps_step [OF mv] dated_step [OF mv] stands_step [OF mv] knows_step [OF mv largerD(4) [OF big]] backed_step [OF mv]
    show ?thesis by (simp add: W'_def C'_def K'_def)
  next
    case False
    with other [OF that] show ?thesis by simp
  qed
  moreover have "v \<in> set ids" if "(v, t, b) \<in> K'" for v t b
    using that movesD(1,6) [OF mv] unfolding K'_def confirmed_after_iff commit_inv_def by blast
  moreover have "confirms K' v r" if "(v, r) \<in> answers (record_sent l i (servers c i) inp out s')" for v r
    using confirms_step [OF mv that] by (simp add: W'_def C'_def K'_def)
  moreover note movesD(4) [OF mv] books_step [OF mv, folded W'_def C'_def, folded K'_def]
    ballots_step [OF mv moved_server(2) [OF mv], folded C'_def]
  ultimately show ?thesis unfolding commit_inv_def W'_def [symmetric] by blast
qed

lemma ledger_step_moves:
  assumes ct: "contiki_ok ct" and clu: "cluster_inv ids c" and inv: "commit_inv sent ids H C K E c l"
    and i: "i \<in> set ids" and adm: "admissible c i inp" and gen: "genuine sent ids c i inp"
    and auth: "authentic l (servers c i) inp" and step: "server_step ct (servers c i) inp out s'"
  shows "\<exists>H'. moves sent ids H H' C K E c l i inp out s'"
proof -
  let ?s = "servers c i"
  have mat: "matching_inv sent ids H c" using inv by (simp add: commit_inv_def)
  have s: "ready sent ?s" "log_wf ?s" using mat i by (simp_all add: matching_inv_def)
  have mem: "member_of ids i ?s" "plain_log ?s" and plain: "plain_input inp"
    using clu i adm by (simp_all add: cluster_inv_def members_inv_def admissible_def)
  have voting: "raft_get_num_voting_nodes ?s \<noteq> 1"
    using member_num_voting [OF mem(1)] clu by (simp add: cluster_inv_def)
  have rdy: "snapshot_last_idx ?s = 0" "records sent (me_cb ?s)" using s(1) by (simp_all add: ready_def)
  obtain H' where "matching_inv sent ids H' (advance c i inp out s')" "grown H H' ?s inp s'"
    using matching_inv_step [OF ct clu mat i adm gen step] by blast
  moreover have "vote_step ?s s'" using server_step_progress [OF step] by (simp add: server_progress_def)
  ultimately have "moves sent ids H H' C K E c l i inp out s'"
    using cluster_inv_step [OF clu ct i adm step] server_step_roles [OF ct step mem(2) plain voting] ct step
      server_step_elects [OF step voting] server_step_commits [OF ct step mem(2) plain voting]
      server_step_informed [OF ct step mem(2) plain voting] server_step_said [OF ct step s(2) rdy mem(2) plain voting]
      inv clu i adm gen auth
    unfolding moves_def by blast
  then show ?thesis by blast
qed

lemma log_history_led:
  assumes wf: "log_wf s" and ok: "history_ok (log_history (log_lookup s))"
    and mono: "\<And>n x y. log_lookup s n = Some x \<Longrightarrow> log_lookup s (n + 1) = Some y \<Longrightarrow> ety_term x \<le> ety_term y"
    and none: "\<And>t w. \<not> W t w"
  shows "led (log_history (log_lookup s)) W Map.empty"
proof -
  let ?L = "log_lookup s" and ?H = "log_history (log_lookup s)"
  have at: "\<exists>x. ?L n = Some x \<and> uint (ety_term x) = t" if "?H (t, n) \<noteq> None" for t n
    using that by (auto simp: log_history_def split: option.splits if_splits)
  have "?L 0 = None"
    using lookup_range [OF wf, of 0] current_idx_range(5) [OF wf] by (cases "?L 0") auto
  then have ch: "chained ?H ?L" by (rule log_history_chained)
  have "grounded ?H"
    unfolding grounded_def
  proof (intro allI impI)
    fix t n e p assume H: "?H (t, n) = Some (e, p)"
    then obtain x where x: "?L n = Some x" "uint (ety_term x) = t" using at [of t n] by auto
    show "uint p \<le> t \<and> (p = 0 \<or> ?H (uint p, n - 1) \<noteq> None)"
    proof (cases "?L (n - 1)")
      case None
      then have "p = 0" using H x by (simp add: log_history_def)
      then show ?thesis using x(2) by auto
    next
      case (Some y)
      then have p: "p = ety_term y" using H x by (simp add: log_history_def)
      have "uint p \<le> t" using mono [of "n - 1" y x] Some x p by (simp add: word_le_def)
      moreover have "?H (uint p, n - 1) \<noteq> None" using Some p by (simp add: log_history_def)
      ultimately show ?thesis by simp
    qed
  qed
  moreover have "below ?H (t, m) (t, n)" if mn: "?H (t, m) \<noteq> None" "?H (t, n) \<noteq> None" "m \<le> n" for t m n
  proof -
    obtain x y where x: "?L m = Some x" "uint (ety_term x) = t" and y: "?L n = Some y" "uint (ety_term y) = t"
      using at [OF mn(1)] at [OF mn(2)] by blast
    have "?L k \<noteq> None" if "m \<le> k" "k \<le> n" for k
      using x(1) y(1) that lookup_range [OF wf, of m] lookup_range [OF wf, of n] lookup_range [OF wf, of k] by auto
    from chained_below [OF ch x(1) y(1) mn(3) this] show ?thesis by (simp add: x y)
  qed
  ultimately show ?thesis using ok none by (intro ledI) auto
qed

lemma ledger_init_inv:
  assumes "ledger_init sent ids c"
  shows "\<exists>H. commit_inv sent ids H Map.empty {} {} c \<lparr>polls = {}, answers = {}\<rparr>"
proof -
  have init: "network_init sent ids c" using assms by (simp add: ledger_init_def)
  then have "2 \<le> length ids" by (simp add: network_init_def cluster_init_def)
  then obtain k where k: "k \<in> set ids" by (cases ids) auto
  let ?H = "log_history (log_lookup (servers c k))"
  have mat: "matching_inv sent ids ?H c" by (rule network_init_matching [OF init k])
  have cast: "cast c = {}"
    using assms by (auto simp: ledger_init_def network_init_def cluster_init_def cast_of_def)
  then have none: "\<not> won ids c t w" for t w using won_cast by fastforce
  have led: "led ?H (won ids c) Map.empty"
    by (rule log_history_led [OF _ _ _ none])
       (use mat k assms in \<open>auto simp: matching_inv_def ledger_init_def\<close>)
  have "keeps ?H (won ids c) Map.empty {} i (servers c i) \<and> stands ?H Map.empty i (servers c i) \<and>
      knows {} (servers c i) \<and> backed ids ?H (won ids c) {} (servers c i) \<and> dated (servers c i) \<and>
      (\<forall>n ae. (n, ae) \<in> sent (udata (servers c i)) \<longrightarrow> tells ids ?H (won ids c) Map.empty {} ae)" if "i \<in> set ids" for i
  proof -
    have "dated (servers c i)" using init that unfolding network_init_def dated_def by blast
    moreover have "me_state (servers c i) = RAFT_STATE_FOLLOWER" "sent (udata (servers c i)) = {}"
      using init that by (simp_all add: network_init_def cluster_init_def raft_is_follower_def raft_get_state_def)
    moreover have "commit_idx (servers c i) = 0" using assms that by (simp add: ledger_init_def)
    ultimately show ?thesis by (simp add: keeps_def stands_def knows_def backed_def)
  qed
  with mat led cast none have "commit_inv sent ids ?H Map.empty {} {} c \<lparr>polls = {}, answers = {}\<rparr>"
    by (simp add: commit_inv_def books_def vetted_def ballots_def)
  then show ?thesis by blast
qed

lemma ledger_reach_inv:
  assumes "ledger_reach ct sent ids x" "contiki_ok ct"
  shows "\<exists>H C K E. commit_inv sent ids H C K E (fst x) (snd x)"
  using assms(1)
proof (induction rule: ledger_reach.induct)
  case (init c)
  from ledger_init_inv [OF this] show ?case by auto
next
  case (step x y)
  then obtain H C K E where inv: "commit_inv sent ids H C K E (fst x) (snd x)" by blast
  have clu: "cluster_inv ids (fst x)"
    by (rule cluster_reach_inv [OF network_reach_cluster [OF ledger_reach_network [OF step(1)]] assms(2)])
  from step(2) show ?case
  proof cases
    case (1 i c inp l out s')
    obtain H' where "moves sent ids H H' C K E c l i inp out s'"
      using ledger_step_moves [OF assms(2), of ids c sent H C K E l i inp out s'] 1 inv clu by auto
    from commit_inv_moves [OF this] 1(2) show ?thesis by auto
  qed
qed

section \<open>What the invariant gives\<close>

lemma commit_inv_server:
  assumes "commit_inv sent ids H C K E c l" "i \<in> set ids"
  shows "log_wf (servers c i)" "chained H (log_lookup (servers c i))" "backed ids H (won ids c) K (servers c i)"
    "books ids H (won ids c) C K E"
  using assms by (simp_all add: commit_inv_def matching_inv_def)

text \<open>The entries of a log up to the commit index are committed.\<close>

lemma lookup_committed:
  assumes inv: "commit_inv sent ids H C K E c l" and i: "i \<in> set ids"
    and x: "log_lookup (servers c i) n = Some x" and n: "n \<le> commit_idx (servers c i)"
  shows "committed ids H (won ids c) K (current_term (servers c i)) (uint (ety_term x), n)"
proof -
  let ?s = "servers c i"
  note srv = commit_inv_server [OF inv i]
  have "holds H (uint (ety_term x), n) (tip ?s)" by (rule holds_lookup [OF srv(1,2) x])
  then obtain y where y: "tip ?s = Some y" "below H (uint (ety_term x), n) y" by (auto simp: holds_def)
  have "0 < n" using x lookup_range [OF srv(1), of n] current_idx_range(5) [OF srv(1)] by simp
  with srv(3) n obtain a where a: "commit_idx ?s \<le> snd a" "holds H a (tip ?s)"
    "committed ids H (won ids c) K (current_term ?s) a" by (auto simp: backed_def)
  have "below H a y" using a(2) y(1) by (auto simp: holds_def)
  from below_linear [OF this y(2)] a(1) n have "below H (uint (ety_term x), n) a" by simp
  with a(3) show ?thesis by (rule committed_below)
qed

text \<open>A leader has every entry that the leader of its term is to have.\<close>

lemma leader_holds_owned:
  assumes inv: "commit_inv sent ids H C K E c l" and clu: "cluster_inv ids c" and i: "i \<in> set ids"
    and lead: "me_state (servers c i) = RAFT_STATE_LEADER"
    and own: "owns H (won ids c) C (current_term (servers c i)) a"
  shows "holds H a (tip (servers c i))"
proof -
  let ?s = "servers c i"
  note top = leader_tip_top [OF inv clu i lead] and won = won_leader [OF clu i lead]
  obtain x where x: "below H a x"
    "fst x = current_term ?s \<or> (\<exists>w. won ids c (current_term ?s) w \<and> C (w, current_term ?s) = Some (Some x))"
    using own unfolding owns_def by blast
  have "holds H x (tip ?s)"
  proof (cases "fst x = current_term ?s")
    case True
    with top(1) [of "snd x"] below_dom [OF x(1)] show ?thesis by (metis prod.collapse)
  next
    case False
    then obtain w where "won ids c (current_term ?s) w" "C (w, current_term ?s) = Some (Some x)" using x(2) by blast
    with won_unique [OF clu won] top(2) show ?thesis by blast
  qed
  then show ?thesis unfolding holds_def using x(1) by (blast intro: below_trans)
qed

lemma same_slot:
  assumes "chained H L" "chained H M" "L n = Some x" "M n = Some y" "uint (ety_term x) = uint (ety_term y)"
  shows "x = y"
proof -
  obtain p q where "H (uint (ety_term x), n) = Some (x, p)" "H (uint (ety_term y), n) = Some (y, q)"
    using assms(1-4) unfolding chained_def by blast
  with assms(5) show ?thesis by (metis option.inject prod.inject)
qed

lemma reach_inv:
  assumes "contiki_ok ct" "ledger_reach ct sent ids (c, l)"
  obtains H C K E where "commit_inv sent ids H C K E c l" "cluster_inv ids c"
proof -
  have "cluster_inv ids c"
    using cluster_reach_inv [OF network_reach_cluster [OF ledger_reach_network [OF assms(2)]] assms(1)] by simp
  with ledger_reach_inv [OF assms(2,1)] that show thesis by auto
qed

section \<open>Runs\<close>

fun run_ledger ::
  "contiki \<Rightarrow> ('u \<Rightarrow> (int \<times> msg_appendentries) set) \<Rightarrow> int list \<Rightarrow> 'u cluster \<times> ledger \<Rightarrow> (int \<times> server_input) list \<Rightarrow>
   ('u cluster \<times> ledger) option" where
  "run_ledger ct sent ids (c, l) [] = Some (c, l)"
| "run_ledger ct sent ids (c, l) ((i, inp) # xs) =
     (if i \<in> set ids \<and> admissible c i inp \<and> genuine sent ids c i inp \<and> authentic l (servers c i) inp
      then (case run_step ct (servers c i) inp of
              Ok (out, s') \<Rightarrow>
                run_ledger ct sent ids (advance c i inp out s', record_sent l i (servers c i) inp out s') xs
            | Fault f \<Rightarrow> None)
      else None)"

lemma run_ledger_reach:
  "ledger_reach ct sent ids x \<Longrightarrow> run_ledger ct sent ids x xs = Some y \<Longrightarrow> ledger_reach ct sent ids y"
proof (induction ct sent ids x xs rule: run_ledger.induct)
  case (2 ct sent ids c l i inp xs)
  from "2.prems"(2) obtain out s' where ok: "i \<in> set ids" "admissible c i inp" "genuine sent ids c i inp"
    "authentic l (servers c i) inp" and run: "run_step ct (servers c i) inp = Ok (out, s')"
    and rest: "run_ledger ct sent ids (advance c i inp out s', record_sent l i (servers c i) inp out s') xs = Some y"
    by (auto split: if_splits result.splits)
  from ledger_reach.step [OF "2.prems"(1) ledger_step.intros [OF ok run [unfolded run_step_iff]]]
  show ?case using "2.IH" [OF _ run refl _ rest] ok by simp
qed simp

text \<open>
  The servers of \<open>net_cluster\<close> go on: the second server's confirmation lets the leader commit the client's
  entry and the two before it, and its next heartbeat tells the second server.
\<close>

definition net_commit :: "(int \<times> server_input) list" where
  "net_commit =
     net_election @ [net_entry, net_delivery,
       (1, Appendentries_Response 2 \<lparr>aer_term = 2, success = 1, aer_current_idx = 3, first_idx = 3\<rparr>),
       (1, Tick 200),
       (2, Appendentries 1
          \<lparr>ae_term = 2, prev_log_idx = 3, prev_log_term = 2, leader_commit = 3, n_entries = 0, entries = []\<rparr>)]"

lemma net_commit_run:
  "case run_ledger ref_contiki set [1, 2, 3] (net_cluster, \<lparr>polls = {}, answers = {}\<rparr>) net_commit of
     None \<Rightarrow> False
   | Some (c, l) \<Rightarrow> raft_is_leader (servers c 1) \<and>
      commit_idx (servers c 1) = 3 \<and> commit_idx (servers c 2) = 3 \<and>
      current_term (servers c 1) = 2 \<and> current_term (servers c 2) = 2 \<and>
      log_lookup (servers c 1) 3 = Some (sample_entry 2 3) \<and> dropped (servers c 1) = 0 \<and>
      log_lookup (servers c 2) 3 = Some (sample_entry 2 3)"
  by code_simp

lemma net_ledger_init: "ledger_init set [1, 2, 3] net_cluster"
proof -
  have "ety_term x \<le> ety_term y" if "log_lookup (net_member i) n = Some x" "log_lookup (net_member i) (n + 1) = Some y"
    for i n x y
  proof -
    have "ety_term z = 1" if "log_lookup (net_member i) m = Some z" for m z
      using that by (auto simp: log_lookup_def net_member_def sample_entry_def)
    with that show ?thesis by simp
  qed
  moreover have "voted_for (net_member i) = -1" "commit_idx (net_member i) = 0" for i
    by (simp_all add: net_member_def static_storage_def)
  moreover have "servers net_cluster = net_member" by (simp add: net_cluster_def)
  ultimately show ?thesis using net_init unfolding ledger_init_def by metis
qed

lemma net_committed:
  obtains c l where "ledger_reach ref_contiki set [1, 2, 3] (c, l)" "raft_is_leader (servers c 1)"
    "commit_idx (servers c 1) = 3" "commit_idx (servers c 2) = 3"
    "current_term (servers c 1) = 2" "current_term (servers c 2) = 2"
    "log_lookup (servers c 1) 3 = Some (sample_entry 2 3)" "dropped (servers c 1) = 0"
    "log_lookup (servers c 2) 3 = Some (sample_entry 2 3)"
proof -
  obtain c l where run: "run_ledger ref_contiki set [1, 2, 3] (net_cluster, \<lparr>polls = {}, answers = {}\<rparr>) net_commit = Some (c, l)"
    using net_commit_run by (auto simp del: run_ledger.simps split: option.splits)
  note reach = run_ledger_reach [OF ledger_reach.init [OF net_ledger_init] run]
  show thesis by (rule that [OF reach]) (use net_commit_run run in \<open>simp_all del: run_ledger.simps\<close>)
qed

section \<open>Properties\<close>

text \<open>
  C1: State machine safety.  In every reachable state of a cluster that replicates entries over a network
  which loses, delays and repeats messages, two servers that have committed an index have the same entry
  there, as far as both still keep it.  Messages are ones that were sent.  A delivery with a conflict before
  the last entry of the log or at a committed index, of a first message to a log that has given up its first
  entry, without the term of the previous entry, or to a log that has kept only one entry does not occur:
  \<open>deliverable\<close> and \<open>authentic\<close> name these cases.
\<close>

theorem state_machine_safety:
  assumes "contiki_ok ct" "ledger_reach ct sent ids (c, l)" "i \<in> set ids" "j \<in> set ids"
    and "n \<le> commit_idx (servers c i)" "n \<le> commit_idx (servers c j)"
    and "log_lookup (servers c i) n = Some x" "log_lookup (servers c j) n = Some y"
  shows "x = y"
proof -
  obtain H C K E where inv: "commit_inv sent ids H C K E c l" by (rule reach_inv [OF assms(1,2)]) blast
  have "(uint (ety_term x), n) = (uint (ety_term y), n)"
    by (rule committed_agree [OF commit_inv_server(4) [OF inv assms(3)] lookup_committed [OF inv assms(3,7,5)]
          lookup_committed [OF inv assms(4,8,6)]]) simp
  then show ?thesis
    by (intro same_slot [OF commit_inv_server(2) [OF inv assms(3)] commit_inv_server(2) [OF inv assms(4)] assms(7,8)]) simp
qed

theorem state_machine_safety_witness:
  "\<exists>c l. ledger_reach ref_contiki set [1, 2, 3] (c, l) \<and> commit_idx (servers c 1) = 3 \<and> commit_idx (servers c 2) = 3 \<and>
     (\<exists>x. log_lookup (servers c 1) 3 = Some x \<and> (\<forall>y. log_lookup (servers c 2) 3 = Some y \<longrightarrow> x = y))"
proof -
  obtain c l where c: "ledger_reach ref_contiki set [1, 2, 3] (c, l)" "commit_idx (servers c 1) = 3"
    "commit_idx (servers c 2) = 3" "log_lookup (servers c 1) 3 = Some (sample_entry 2 3)"
    by (rule net_committed) blast
  have "sample_entry 2 3 = y" if "log_lookup (servers c 2) 3 = Some y" for y
    by (rule state_machine_safety [OF ref_contiki_ok c(1) _ _ _ _ c(4) that]) (use c(2,3) in simp_all)
  with c show ?thesis by blast
qed

text \<open>
  C2: Leader completeness.  An entry that a server has committed is in the log of every leader of that
  server's term or of a later one: the leader's log reaches that far, and while the leader still keeps the
  index it has the same entry there.  The network is the one of state machine safety.
\<close>

theorem leader_completeness:
  assumes "contiki_ok ct" "ledger_reach ct sent ids (c, l)" "i \<in> set ids" "j \<in> set ids"
    and "n \<le> commit_idx (servers c i)" "log_lookup (servers c i) n = Some x"
    and "raft_is_leader (servers c j)" "current_term (servers c i) \<le> current_term (servers c j)"
  shows "n \<le> raft_get_current_idx (servers c j) \<and>
    (dropped (servers c j) < n \<longrightarrow> log_lookup (servers c j) n = Some x)"
proof -
  let ?s = "servers c j" and ?a = "(uint (ety_term x), n)"
  obtain H C K E where inv: "commit_inv sent ids H C K E c l" and clu: "cluster_inv ids c"
    by (rule reach_inv [OF assms(1,2)])
  note srv = commit_inv_server [OF inv assms(4)]
  have lead: "me_state ?s = RAFT_STATE_LEADER" using assms(7) by (simp add: raft_is_leader_def raft_get_state_def)
  note won = won_leader [OF clu assms(4) lead]
  have "committed ids H (won ids c) K (current_term ?s) ?a"
    by (rule committed_le [OF lookup_committed [OF inv assms(3,6,5)] assms(8)])
  then have "owns H (won ids c) C (current_term ?s) ?a" by (rule committed_owned [OF srv(4) _ won])
  then have has: "holds H ?a (tip ?s)" by (rule leader_holds_owned [OF inv clu assms(4) lead])
  then obtain y where y: "tip ?s = Some y" "below H ?a y" by (auto simp: holds_def)
  have "n \<le> raft_get_current_idx ?s" using below_idx [OF y(2)] tip_dom(2) [OF srv(2) y(1)] by simp
  moreover have "log_lookup ?s n = Some x" if kept: "dropped ?s < n"
  proof -
    have "\<exists>z. log_lookup ?s n = Some z \<and> uint (ety_term z) = uint (ety_term x)"
      using holds_at [OF srv(1,2) has] kept by simp
    then obtain z where z: "log_lookup ?s n = Some z" "uint (ety_term z) = uint (ety_term x)" by blast
    with same_slot [OF srv(2) commit_inv_server(2) [OF inv assms(3)] z(1) assms(6) z(2)] show ?thesis by simp
  qed
  ultimately show ?thesis by blast
qed

theorem leader_completeness_witness:
  "\<exists>c l. ledger_reach ref_contiki set [1, 2, 3] (c, l) \<and> raft_is_leader (servers c 1) \<and>
     (\<forall>x. log_lookup (servers c 2) 3 = Some x \<longrightarrow> log_lookup (servers c 1) 3 = Some x)"
proof -
  obtain c l where c: "ledger_reach ref_contiki set [1, 2, 3] (c, l)" "raft_is_leader (servers c 1)"
    "commit_idx (servers c 2) = 3" "current_term (servers c 1) = 2" "current_term (servers c 2) = 2"
    "dropped (servers c 1) = 0"
    by (rule net_committed) blast
  have "log_lookup (servers c 1) 3 = Some x" if "log_lookup (servers c 2) 3 = Some x" for x
    using leader_completeness [OF ref_contiki_ok c(1), of 2 1 3 x] c that by simp
  with c show ?thesis by blast
qed

end
