(* ===== verification/Spec2Isabelle.thy ===== *)
theory Spec2Isabelle
  imports Raft_Start Raft_Agreement
begin

text \<open>
  \<^bold>\<open>Verification of the Raft library for Contiki and of its application.\<close>

  \<^bold>\<open>The program.\<close> \<^verbatim>\<open>src/\<close> and \<^verbatim>\<open>include/\<close> hold a Raft consensus library for small
  nodes, a port of willemt's library in which the log is a linked list of at most 50 entries in a static
  pool of blocks.  \<^verbatim>\<open>app/\<close> holds a Contiki application: five nodes that flood packets, elect a leader
  and replicate the messages of a simulated client.  The library is passive.  Its driver calls
  \<^verbatim>\<open>raft_periodic\<close> from a timer, one \<^verbatim>\<open>raft_recv_...\<close> function per received message and
  \<^verbatim>\<open>raft_recv_entry\<close> for a client's message; the library calls back to send messages, to store term and
  vote, and to apply, offer and pop entries.

  \<^bold>\<open>Theories and sources.\<close>
  \<^item> \<open>Raft_Prelude\<close>: integers of the target, results and faults, and the interface of Contiki's
    \<^verbatim>\<open>list\<close>, \<^verbatim>\<open>memb\<close> and \<^verbatim>\<open>random\<close> modules.
  \<^item> \<open>Raft_Node\<close>: \<^verbatim>\<open>src/raft_node.c\<close>, the structure of a peer and its flag bits.
  \<^item> \<open>Raft_Types\<close>: the structures of \<^verbatim>\<open>include/raft.h\<close>, \<^verbatim>\<open>include/raft_private.h\<close> and
    \<^verbatim>\<open>src/raft_log.c\<close>, with the well-formedness of log and membership.
  \<^item> \<open>Raft_Properties\<close>: the lookups of \<^verbatim>\<open>src/raft_log.c\<close> and the getters and setters of
    \<^verbatim>\<open>src/raft_server_properties.c\<close>.
  \<^item> \<open>Raft_Membership\<close>: adding and removing nodes, \<^verbatim>\<open>raft_offer_log\<close> and \<^verbatim>\<open>raft_pop_log\<close>.
  \<^item> \<open>Raft_Log\<close>: the functions of \<^verbatim>\<open>src/raft_log.c\<close> that write the log.
  \<^item> \<open>Raft_Send\<close>, \<open>Raft_Election\<close>, \<open>Raft_Replication\<close>, \<open>Raft_Server\<close>: \<^verbatim>\<open>src/raft_server.c\<close>, that is
    outgoing messages, elections, replication, and creation, application of entries and the tick.
  \<^item> \<open>Raft_Steps\<close>: the entry points of the library as the steps of one server.
  \<^item> \<open>Raft_Cluster\<close>: several servers and a network, and elections among them.
  \<^item> \<open>Raft_Network\<close>, \<open>Raft_History\<close>, \<open>Raft_Matching\<close>: replication among these servers, that is which
    messages a step sends, how a follower's log stays part of one history of entries, and the
    cluster whose appendentries messages are those that leaders sent.
  \<^item> \<open>Raft_Moves\<close>, \<open>Raft_Ballots\<close>, \<open>Raft_Ledger\<close>, \<open>Raft_Campaign\<close>, \<open>Raft_Commit\<close>, \<open>Raft_Agreement\<close>:
    committed entries, that is what a step does to terms, votes and commit indices, the argument
    on histories and votes alone, the cluster whose vote requests and replies were sent as well, what
    a step does to votes and to commits there, and the agreement of the servers.
  \<^item> \<open>Raft_Proto\<close>: \<^verbatim>\<open>app/proto.h\<close> and the bytes of the structures that go over the air.
  \<^item> \<open>Raft_App\<close>: \<^verbatim>\<open>app/main.c\<close>, its callbacks, packet handlers and processes.
  \<^item> \<open>Raft_Transport\<close>, \<open>Raft_Start\<close>: packets from one node to another, the start of a node, and the
    application as a driver of the library.

  \<^bold>\<open>How state and operations correspond.\<close> The record \<open>raft_server\<close> is the C structure
  \<^verbatim>\<open>raft_server_private_t\<close> together with the static storage around it: the log, the pools of entries and
  nodes with the blocks in use, the state of the random generator and the user's data.  A pointer is the
  number of a block, and an option of it where it may be \<^verbatim>\<open>NULL\<close>.  Each C function is a definition of
  the same name that takes and returns the state.  Its value is \<open>Ok\<close> of the C result and the new state,
  or \<open>Fault\<close> where the C program has no defined continuation: a failed \<^verbatim>\<open>assert\<close>, a \<^verbatim>\<open>NULL\<close>
  dereference, a signed overflow, a division by zero, an access outside a buffer, a \<^verbatim>\<open>free\<close> of a
  static object.  There are two exceptions in \<^verbatim>\<open>app/main.c\<close>: the sequence number of the flood, which
  nothing in the sources reads back, wraps, and a read beyond a received packet, which finds old bytes of
  the packet buffer, is a fault.  Error codes of the library are ordinary results.  Long functions are
  split at their labels and loops: \<open>ae_scan\<close>, \<open>ae_append\<close>, \<open>ae_commit\<close> and \<open>ae_out\<close> are parts of
  \<^verbatim>\<open>raft_recv_appendentries\<close>.

  Callbacks transform the user's data and return a code; they neither change the entry they are given, as
  \<^verbatim>\<open>include/raft.h\<close> allows \<^verbatim>\<open>log_offer\<close> to do, nor call the library.  In the application that data are
  its own static variables and the packets it has sent.  Contiki is not part of the tree.  Its modules are the record \<open>ct\<close>, an argument of
  every definition that uses them; \<open>contiki_ok ct\<close> states what their documentation promises, and a
  concrete \<open>ct\<close> that satisfies it is used in the witnesses.  The platform's packet size and clock rate
  are the record \<open>pf\<close>; the witnesses use 128 bytes and 128 ticks per second.

  \<^bold>\<open>What is shown.\<close>
  \<^item> Elections: a vote request is granted exactly when the server may vote and has not voted in the term,
    not even for the same candidate, and the candidate's log is at least as recent; a candidate becomes leader
    only with the recorded votes of a majority, starting an election asks every peer once, and a
    server that hears nothing starts one in time.  In every run of a server the vote of a term is never
    changed.  In a cluster without configuration changes, over a network that loses, repeats,
    delays and reorders messages, two leaders of one term are the same server.  That majorities
    meet is the locale \<open>quorums\<close>, interpreted on \<open>raft_votes_is_majority\<close>.  The two ways in which
    the code counts a majority agree with the majority of a set.
  \<^item> Log: append and the lookups refine a bounded window of the most recent entries (the
    interface of such a log is the locale \<open>window_log\<close>, interpreted on the functions of
    \<^verbatim>\<open>src/raft_log.c\<close>), append followed by delete restores the log, clearing ends and
    frees every block, and in every reachable state the pool and the list agree.
  \<^item> Replication: a consistent appendentries message appends exactly the entries the log lacks; an
    outdated one, or one whose previous entry the log does not have, changes neither log nor commit index,
    and a previous entry of another term makes the handler refuse and delete.  A new leader greets every
    peer, and a client's entry is appended and sent to the peers that lack just this entry.  A leader
    commits only an entry of its own term that a majority holds, where it counts itself even if it
    is not a voting node.  Committed entries are applied once
    each and in order.  A leader sends its heartbeats in time.
  \<^item> Replication in a cluster: a leader only appends to its log, and logs match, that is two logs with
    entries of one term at an index agree below it.  The cluster is the one of the elections; an
    appendentries message is one that the server it comes from handed to its callback, in whatever
    order and however often it arrives.  The handler breaks these properties in two situations, which
    the predicate \<open>deliverable\<close> excludes: a conflict at an index that is not the last one of the log
    or is committed, because only one entry is deleted, and a message that starts at index 1 and
    reaches a log that has given up its first entry.  Both are theorems of their own, below.
  \<^item> Committed entries: two servers never commit different entries at an index, and a leader has
    every entry that was committed in its term or before.  The cluster is the one just described, with
    vote requests and replies that were sent.  The predicate \<open>authentic\<close> excludes two more situations
    in which the handler deletes its last entry though it may be committed: a message whose
    sender no longer keeps the entry before, so that it does not know its term, and a log that has
    given up all entries but one.  The servers start without votes and with logs that match.
  \<^item> Membership: the lists stay well-formed, and popping a configuration entry undoes offering it.
  \<^item> Application: the packets of the four message types arrive at their addressee as they were
    sent, up to the limits on entries that the theorem names; the start of the nodes gives an initial
    state of the cluster; and each event is the one step of the library that its packet or timer stands
    for, or none, so that the invariants of those steps hold in the application.
  \<^item> Faults of the code, as theorems: a peer behind the window makes the leader dereference \<^verbatim>\<open>NULL\<close>;
    deleting a conflicting entry before the end leaves a gap; an old message that starts at index 1 is
    appended again; a refused entry stays in the list; the first
    node cannot be removed; the application stops at a conflicting entry, at a repeated message with
    several entries, and at a message that announces more entries than its packet holds.

  \<^bold>\<open>Bounds, termination and fuel.\<close> \<^verbatim>\<open>int\<close> has 16 bits, as on the default target \<^verbatim>\<open>sky\<close>.  The
  bounds of the code are kept: 50 entries (\<open>MAX_ENTRIES\<close>) and seven nodes (\<open>MAX_NODES\<close>).  The loop of
  \<^verbatim>\<open>log_clear\<close> gets the length of the list as fuel, and clearing is proved to end within it.  The loops
  over message entries and over committed entries are total functions with a measure, as the difference
  of two indices bounds them.

  \<^bold>\<open>Not modelled.\<close> Debug output has no effect on the state.  The netflood protocol, the packet buffer,
  the timers and the scheduler belong to Contiki, and the callbacks \<^verbatim>\<open>sent\<close> and \<^verbatim>\<open>timedout\<close> of the
  application are empty.  Snapshots are comments in the sources; the model has the functions that are left
  of them.  Types of \<^verbatim>\<open>app/proto.h\<close> that no function uses, and the unit tests, are not modelled.

  \<^bold>\<open>What could follow.\<close> The cluster has a fixed set of voting nodes.  The safety properties could be
  extended to configuration changes of one node at a time.
\<close>

end
